theory Spec2Isabelle
  imports Main "HOL-Library.Word"
begin

unbundle bit_operations_syntax

chapter \<open>The model\<close>

text \<open>
  A shallow embedding of the parts of the MagnaChain wallet (\<^verbatim>\<open>src/wallet/wallet.cpp\<close>, with
  the declarations of \<^verbatim>\<open>wallet.h\<close>) and of the peer address manager that the verified
  properties are about. Each C++ member function becomes a HOL function that takes the
  part of the wallet it reads and returns the part it writes. Collaborators whose code
  lies outside the wallet (the crypter, the clock, the mempool, the fee estimator, the
  random source) are parameters of the model: records of functions and outcomes.
\<close>

section \<open>Common types\<close>

type_synonym bytes = "8 word list"

text \<open>\<^verbatim>\<open>uint256\<close>: transaction and block hashes, ordered as numbers.\<close>

type_synonym uint256 = nat

text \<open>\<^verbatim>\<open>MCAmount\<close> is \<^verbatim>\<open>int64_t\<close>; amounts are modelled as integers, on the
  understanding that sums of amounts stay inside the 64-bit range (the chain bounds every
  amount by \<^verbatim>\<open>MAX_MONEY\<close>).\<close>

type_synonym MCAmount = int

text \<open>What ends a call other than a return: a failed \<^verbatim>\<open>assert\<close>, a thrown
  \<^verbatim>\<open>std::runtime_error\<close> with its message, or the use of a null pointer.\<close>

datatype wallet_abort = AssertionFailed | RuntimeError string | NullDereference

section \<open>Wallet encryption\<close>

subsection \<open>Master keys and the collaborators of encryption\<close>

record MCMasterKey =
  vchCryptedKey :: bytes
  vchSalt :: bytes
  nDerivationMethod :: "32 word"
  nDeriveIterations :: "32 word"

text \<open>
  The calibration of the iteration count computes in \<^verbatim>\<open>double\<close>. The arithmetic of
  doubles is a parameter: \<open>'d\<close> is the type of doubles, \<open>of_integer\<close> the conversion of
  an integer operand, \<open>to_uint32\<close> the conversion back on assignment to the
  \<^verbatim>\<open>unsigned int\<close> field.
\<close>

record 'd double_ops =
  of_integer :: "int \<Rightarrow> 'd"
  fdiv :: "'d \<Rightarrow> 'd \<Rightarrow> 'd"
  fmul :: "'d \<Rightarrow> 'd \<Rightarrow> 'd"
  fadd :: "'d \<Rightarrow> 'd \<Rightarrow> 'd"
  to_uint32 :: "'d \<Rightarrow> 32 word"

text \<open>
  The crypter (\<^verbatim>\<open>MCCrypter\<close>), the clock, the random source and the outcomes of the
  database batch and of the key store's own re-encryption. \<open>SetKeyFromPassphrase\<close>
  yields the derived key, or \<open>None\<close> where the C++ returns false; \<open>Encrypt\<close> and
  \<open>Decrypt\<close> return their success with the contents of the output buffer.
  \<open>GetTimeMillis k\<close> is the \<open>k\<close>-th reading of the clock during the call.
\<close>

record crypto_env =
  SetKeyFromPassphrase :: "string \<Rightarrow> bytes \<Rightarrow> 32 word \<Rightarrow> 32 word \<Rightarrow> bytes option"
  Encrypt :: "bytes \<Rightarrow> bytes \<Rightarrow> bool \<times> bytes"
  Decrypt :: "bytes \<Rightarrow> bytes \<Rightarrow> bool \<times> bytes"
  KeyStore_accepts :: "bytes \<Rightarrow> bool"
  GetTimeMillis :: "nat \<Rightarrow> 64 word"
  GetStrongRandBytes :: "nat \<Rightarrow> bytes"
  kMasterKey_init :: MCMasterKey
  TxnBegin_ok :: bool
  EncryptKeys_ok :: bool
  TxnCommit_ok :: bool
  SetHDMasterKey_ok :: bool

text \<open>
  The part of \<^verbatim>\<open>MCWallet\<close> that encryption reads and writes. \<open>mapMasterKeys\<close> is the
  \<^verbatim>\<open>std::map\<close> in key order; \<open>db_mkey\<close> holds the master-key records handed to
  \<^verbatim>\<open>CWalletDB::WriteMasterKey\<close> (both callers ignore its return value).
\<close>

record crypt_wallet =
  mapMasterKeys :: "(nat \<times> MCMasterKey) list"
  nMasterKeyMaxID :: nat
  fUseCrypto :: bool
  fLocked :: bool
  fHDEnabled :: bool
  db_mkey :: "nat \<rightharpoonup> MCMasterKey"

subsection \<open>The key store's lock state\<close>

text \<open>
  Modelled from the spec: the lock state of the key store. \<^verbatim>\<open>MCCryptoKeyStore\<close>
  (\<^verbatim>\<open>IsCrypted\<close>, \<^verbatim>\<open>IsLocked\<close>, \<^verbatim>\<open>Lock\<close>, \<^verbatim>\<open>Unlock\<close>) is not among the
  sources. The spec has the wallet "locked then immediately re-unlocked" and a master
  key that "decrypts successfully to a key that also unlocks the keystore": an encrypted
  store is either locked or unlocked, \<^verbatim>\<open>Lock\<close> locks it, an \<^verbatim>\<open>Unlock\<close> with a key
  that the store accepts unlocks it, and a refused \<^verbatim>\<open>Unlock\<close> changes nothing.
\<close>

definition IsCrypted :: "crypt_wallet \<Rightarrow> bool" where
  "IsCrypted w = fUseCrypto w"

definition IsLocked :: "crypt_wallet \<Rightarrow> bool" where
  "IsLocked w = (fUseCrypto w \<and> fLocked w)"

definition Lock :: "crypt_wallet \<Rightarrow> crypt_wallet" where
  "Lock w = (if fUseCrypto w then w\<lparr>fLocked := True\<rparr> else w)"

definition KeyStore_Unlock :: "crypto_env \<Rightarrow> bytes \<Rightarrow> crypt_wallet \<Rightarrow> bool \<times> crypt_wallet" where
  "KeyStore_Unlock env vMasterKeyIn w =
     (if fUseCrypto w \<and> KeyStore_accepts env vMasterKeyIn
      then (True, w\<lparr>fLocked := False\<rparr>) else (False, w))"

subsection \<open>\<^verbatim>\<open>MCWallet::Unlock\<close>\<close>

fun Unlock_loop :: "crypto_env \<Rightarrow> string \<Rightarrow> (nat \<times> MCMasterKey) list \<Rightarrow> crypt_wallet
    \<Rightarrow> bool \<times> crypt_wallet" where
  "Unlock_loop env pass [] w = (False, w)"
| "Unlock_loop env pass ((k, mk) # rest) w =
     (case SetKeyFromPassphrase env pass (vchSalt mk) (nDeriveIterations mk) (nDerivationMethod mk) of
        None \<Rightarrow> (False, w)
      | Some key \<Rightarrow>
          (case Decrypt env key (vchCryptedKey mk) of
             (False, _) \<Rightarrow> Unlock_loop env pass rest w
           | (True, vMasterKey) \<Rightarrow>
               (case KeyStore_Unlock env vMasterKey w of
                  (True, w') \<Rightarrow> (True, w')
                | (False, w') \<Rightarrow> Unlock_loop env pass rest w')))"

definition Unlock :: "crypto_env \<Rightarrow> string \<Rightarrow> crypt_wallet \<Rightarrow> bool \<times> crypt_wallet" where
  "Unlock env pass w = Unlock_loop env pass (mapMasterKeys w) w"

subsection \<open>The calibration of the iteration count\<close>

text \<open>
  \<^verbatim>\<open>EncryptWallet\<close>, lines 672 to 681: the first trial runs 25000 iterations and
  scales to 2500000 per measured millisecond count, the second averages. In
  \<^verbatim>\<open>n + n * 100 / (double)dt\<close> the product \<^verbatim>\<open>n * 100\<close> is unsigned 32-bit.
\<close>

definition elapsed :: "crypto_env \<Rightarrow> nat \<Rightarrow> int" where
  "elapsed env k = sint (GetTimeMillis env (Suc k) - GetTimeMillis env k)"

definition second_trial :: "'d double_ops \<Rightarrow> 32 word \<Rightarrow> int \<Rightarrow> 32 word" where
  "second_trial fp n dt =
     to_uint32 fp
       (fdiv fp
          (fadd fp (of_integer fp (uint n))
             (fdiv fp (of_integer fp (uint (n * 100))) (of_integer fp dt)))
          (of_integer fp 2))"

definition floor_25000 :: "32 word \<Rightarrow> 32 word" where
  "floor_25000 n = (if n < 25000 then 25000 else n)"

definition EncryptWallet_iterations :: "'d double_ops \<Rightarrow> crypto_env \<Rightarrow> 32 word" where
  "EncryptWallet_iterations fp env =
     (let n1 = to_uint32 fp (fdiv fp (of_integer fp 2500000) (of_integer fp (elapsed env 0)));
          n2 = second_trial fp n1 (elapsed env 2)
      in floor_25000 n2)"

text \<open>
  \<^verbatim>\<open>ChangeWalletPassphrase\<close>, lines 409 to 418: the first trial runs the record's
  current count \<open>n\<close> and scales it by \<^verbatim>\<open>100 / (double)dt\<close>.
\<close>

definition ChangeWalletPassphrase_iterations :: "'d double_ops \<Rightarrow> crypto_env \<Rightarrow> 32 word \<Rightarrow> 32 word" where
  "ChangeWalletPassphrase_iterations fp env n =
     (let n1 = to_uint32 fp
                 (fmul fp (of_integer fp (uint n))
                    (fdiv fp (of_integer fp 100) (of_integer fp (elapsed env 0))));
          n2 = second_trial fp n1 (elapsed env 2)
      in floor_25000 n2)"

subsection \<open>\<^verbatim>\<open>MCWallet::EncryptWallet\<close>\<close>

text \<open>\<^verbatim>\<open>mapMasterKeys[id] = mk\<close> on the map in key order.\<close>

fun masterkeys_assign :: "nat \<Rightarrow> MCMasterKey \<Rightarrow> (nat \<times> MCMasterKey) list \<Rightarrow> (nat \<times> MCMasterKey) list" where
  "masterkeys_assign k mk [] = [(k, mk)]"
| "masterkeys_assign k mk ((j, m) # rest) =
     (if k < j then (k, mk) # (j, m) # rest
      else if k = j then (k, mk) # rest
      else (j, m) # masterkeys_assign k mk rest)"

text \<open>
  The batch of database writes is opened by \<^verbatim>\<open>TxnBegin\<close> and committed by
  \<^verbatim>\<open>TxnCommit\<close>; a failure between the two ends in \<^verbatim>\<open>assert(false)\<close>. The effects of
  \<^verbatim>\<open>SetMinVersion\<close>, \<^verbatim>\<open>SetHDMasterKey\<close>, \<^verbatim>\<open>NewKeyPool\<close> and of the rewrite of the
  database file lie outside \<open>crypt_wallet\<close>; of \<^verbatim>\<open>SetHDMasterKey\<close> only the outcome
  is kept.
\<close>

definition EncryptWallet :: "'d double_ops \<Rightarrow> crypto_env \<Rightarrow> string \<Rightarrow> crypt_wallet
    \<Rightarrow> wallet_abort + (bool \<times> crypt_wallet)" where
  "EncryptWallet fp env strWalletPassphrase w =
     (if IsCrypted w then Inr (False, w)
      else
        let vMasterKey = GetStrongRandBytes env 0;
            kMasterKey = (kMasterKey_init env)
              \<lparr>vchSalt := GetStrongRandBytes env 1,
               nDeriveIterations := EncryptWallet_iterations fp env\<rparr>
        in case SetKeyFromPassphrase env strWalletPassphrase (vchSalt kMasterKey)
                  (nDeriveIterations kMasterKey) (nDerivationMethod kMasterKey) of
             None \<Rightarrow> Inr (False, w)
           | Some key \<Rightarrow>
               (case Encrypt env key vMasterKey of
                  (False, _) \<Rightarrow> Inr (False, w)
                | (True, crypted) \<Rightarrow>
                    let kMasterKey = kMasterKey\<lparr>vchCryptedKey := crypted\<rparr>;
                        w1 = w\<lparr>nMasterKeyMaxID := Suc (nMasterKeyMaxID w)\<rparr>;
                        w2 = w1\<lparr>mapMasterKeys :=
                                 masterkeys_assign (nMasterKeyMaxID w1) kMasterKey (mapMasterKeys w1)\<rparr>
                    in if \<not> TxnBegin_ok env then Inr (False, w2)
                       else
                         let w3 = w2\<lparr>db_mkey := (db_mkey w2)(nMasterKeyMaxID w2 \<mapsto> kMasterKey)\<rparr>
                         in if \<not> EncryptKeys_ok env then Inl AssertionFailed
                            else
                              let w4 = w3\<lparr>fUseCrypto := True, fLocked := True\<rparr>
                              in if \<not> TxnCommit_ok env then Inl AssertionFailed
                                 else
                                   let w5 = Lock w4;
                                       w6 = snd (Unlock env strWalletPassphrase w5)
                                   in if fHDEnabled w6 \<and> \<not> SetHDMasterKey_ok env
                                      then Inr (False, w6)
                                      else Inr (True, Lock w6)))"

subsection \<open>\<^verbatim>\<open>MCWallet::ChangeWalletPassphrase\<close>\<close>

text \<open>
  The loop over \<open>mapMasterKeys\<close>: \<open>before\<close> are the entries already passed, the head of
  the third list is \<^verbatim>\<open>pMasterKey\<close>. The loop writes through \<^verbatim>\<open>pMasterKey.second\<close>, so
  the record in the map changes as soon as its field is assigned.
\<close>

fun ChangeWalletPassphrase_loop :: "'d double_ops \<Rightarrow> crypto_env \<Rightarrow> string \<Rightarrow> string \<Rightarrow> bool
    \<Rightarrow> (nat \<times> MCMasterKey) list \<Rightarrow> (nat \<times> MCMasterKey) list \<Rightarrow> crypt_wallet
    \<Rightarrow> bool \<times> crypt_wallet" where
  "ChangeWalletPassphrase_loop fp env strOld strNew fWasLocked before [] w = (False, w)"
| "ChangeWalletPassphrase_loop fp env strOld strNew fWasLocked before ((k, mk) # rest) w =
     (case SetKeyFromPassphrase env strOld (vchSalt mk) (nDeriveIterations mk) (nDerivationMethod mk) of
        None \<Rightarrow> (False, w)
      | Some key \<Rightarrow>
          (case Decrypt env key (vchCryptedKey mk) of
             (False, _) \<Rightarrow> (False, w)
           | (True, vMasterKey) \<Rightarrow>
               (case KeyStore_Unlock env vMasterKey w of
                  (False, w') \<Rightarrow>
                    ChangeWalletPassphrase_loop fp env strOld strNew fWasLocked (before @ [(k, mk)]) rest w'
                | (True, w1) \<Rightarrow>
                    let mk1 = mk\<lparr>nDeriveIterations :=
                                  ChangeWalletPassphrase_iterations fp env (nDeriveIterations mk)\<rparr>;
                        w2 = w1\<lparr>mapMasterKeys := before @ (k, mk1) # rest\<rparr>
                    in case SetKeyFromPassphrase env strNew (vchSalt mk1) (nDeriveIterations mk1)
                              (nDerivationMethod mk1) of
                         None \<Rightarrow> (False, w2)
                       | Some key' \<Rightarrow>
                           (case Encrypt env key' vMasterKey of
                              (False, out) \<Rightarrow>
                                (False, w2\<lparr>mapMasterKeys := before @ (k, mk1\<lparr>vchCryptedKey := out\<rparr>) # rest\<rparr>)
                            | (True, crypted) \<Rightarrow>
                                let mk2 = mk1\<lparr>vchCryptedKey := crypted\<rparr>;
                                    w3 = w2\<lparr>mapMasterKeys := before @ (k, mk2) # rest,
                                            db_mkey := (db_mkey w2)(k \<mapsto> mk2)\<rparr>
                                in (True, if fWasLocked then Lock w3 else w3)))))"

definition ChangeWalletPassphrase :: "'d double_ops \<Rightarrow> crypto_env \<Rightarrow> string \<Rightarrow> string \<Rightarrow> crypt_wallet
    \<Rightarrow> bool \<times> crypt_wallet" where
  "ChangeWalletPassphrase fp env strOldWalletPassphrase strNewWalletPassphrase w =
     (let fWasLocked = IsLocked w
      in ChangeWalletPassphrase_loop fp env strOldWalletPassphrase strNewWalletPassphrase
           fWasLocked [] (mapMasterKeys w) (Lock w))"

text \<open>
  The loop comes to a master key that the old passphrase opens: key derivation and
  decryption succeed for every master key before it and for itself, and the key store
  accepts its decrypted key. From there on the key store is unlocked.
\<close>

fun opens_master_key :: "crypto_env \<Rightarrow> string \<Rightarrow> (nat \<times> MCMasterKey) list \<Rightarrow> bool" where
  "opens_master_key env pass [] = False"
| "opens_master_key env pass ((k, mk) # rest) =
     (case SetKeyFromPassphrase env pass (vchSalt mk) (nDeriveIterations mk) (nDerivationMethod mk) of
        None \<Rightarrow> False
      | Some key \<Rightarrow>
          (case Decrypt env key (vchCryptedKey mk) of
             (False, _) \<Rightarrow> False
           | (True, vMasterKey) \<Rightarrow> KeyStore_accepts env vMasterKey \<or> opens_master_key env pass rest))"

subsection \<open>A run of encryption and passphrase change\<close>

text \<open>
  Concrete collaborators: doubles stood in for by integers, a crypter that always
  succeeds, a clock that advances 100 ms between readings.
\<close>

definition int_double_ops :: "int double_ops" where
  "int_double_ops =
     \<lparr>of_integer = (\<lambda>i. i), fdiv = (\<lambda>a b. a div b), fmul = (\<lambda>a b. a * b),
      fadd = (\<lambda>a b. a + b), to_uint32 = word_of_int\<rparr>"

definition steady_env :: crypto_env where
  "steady_env =
     \<lparr>SetKeyFromPassphrase = (\<lambda>pass salt n m. Some [1]),
      Encrypt = (\<lambda>key plain. (True, plain)),
      Decrypt = (\<lambda>key crypted. (True, crypted)),
      KeyStore_accepts = (\<lambda>key. True),
      GetTimeMillis = (\<lambda>k. word_of_nat (100 * k)),
      GetStrongRandBytes = (\<lambda>k. [7]),
      kMasterKey_init = \<lparr>vchCryptedKey = [], vchSalt = [], nDerivationMethod = 0, nDeriveIterations = 25000\<rparr>,
      TxnBegin_ok = True, EncryptKeys_ok = True, TxnCommit_ok = True, SetHDMasterKey_ok = True\<rparr>"

definition plain_wallet :: crypt_wallet where
  "plain_wallet =
     \<lparr>mapMasterKeys = [], nMasterKeyMaxID = 0, fUseCrypto = False, fLocked = False,
      fHDEnabled = False, db_mkey = Map.empty\<rparr>"

definition unlocked_wallet :: crypt_wallet where
  "unlocked_wallet =
     \<lparr>mapMasterKeys = [(1, \<lparr>vchCryptedKey = [7], vchSalt = [7], nDerivationMethod = 0, nDeriveIterations = 25000\<rparr>)],
      nMasterKeyMaxID = 1, fUseCrypto = True, fLocked = False,
      fHDEnabled = False, db_mkey = Map.empty\<rparr>"

text \<open>The same collaborators, with a crypter whose \<^verbatim>\<open>Encrypt\<close> fails.\<close>

definition encrypt_fails_env :: crypto_env where
  "encrypt_fails_env = steady_env\<lparr>Encrypt := (\<lambda>key plain. (False, []))\<rparr>"

text \<open>A wrong old passphrase: \<^verbatim>\<open>Decrypt\<close> fails.\<close>

definition decrypt_fails_env :: crypto_env where
  "decrypt_fails_env = steady_env\<lparr>Decrypt := (\<lambda>key crypted. (False, []))\<rparr>"

section \<open>Fee determination\<close>

text \<open>
  \<^verbatim>\<open>MCFeeRate\<close> holds an amount per 1000 bytes (\<^verbatim>\<open>nSatoshisPerK\<close>); two rates are
  equal when these amounts are. Its member \<^verbatim>\<open>GetFee\<close> is not among the sources: the
  model takes it as the parameter \<open>GetFee\<close>.
\<close>

type_synonym MCFeeRate = int

datatype FeeEstimateMode = UNSET | ECONOMICAL | CONSERVATIVE

text \<open>The reason recorded in \<^verbatim>\<open>feeCalc\<close>; \<open>ESTIMATE\<close> stands for the reasons that the
  estimator itself records.\<close>

datatype FeeReason = ESTIMATE nat | MEMPOOL_MIN | PAYTXFEE | FALLBACK | REQUIRED | MAXTXFEE

text \<open>The fields of \<^verbatim>\<open>MCCoinControl\<close> that fee determination reads.\<close>

record MCCoinControl =
  m_feerate :: "MCFeeRate option"
  fOverrideFeeRate :: bool
  m_confirm_target :: "nat option"
  signalRbf :: bool
  m_fee_mode :: FeeEstimateMode

text \<open>
  The global settings (\<^verbatim>\<open>payTxFee\<close>, \<^verbatim>\<open>nTxConfirmTarget\<close>, \<^verbatim>\<open>fallbackFee\<close>,
  \<^verbatim>\<open>minTxFee\<close>, \<^verbatim>\<open>minRelayTxFee\<close>, \<^verbatim>\<open>maxTxFee\<close>), the estimator
  (\<open>EstimateSmartFee target conservative\<close> gives the rate and the reason it records) and
  the rate of the mempool's minimum fee.
\<close>

record fee_env =
  GetFee :: "MCFeeRate \<Rightarrow> nat \<Rightarrow> MCAmount"
  payTxFee :: MCFeeRate
  nTxConfirmTarget :: nat
  fallbackFee :: MCFeeRate
  minTxFee :: MCFeeRate
  minRelayTxFee :: MCFeeRate
  maxTxFee :: MCAmount
  EstimateSmartFee :: "nat \<Rightarrow> bool \<Rightarrow> MCFeeRate \<times> FeeReason"
  mempool_GetMinFee :: MCFeeRate

definition GetRequiredFee :: "fee_env \<Rightarrow> nat \<Rightarrow> MCAmount" where
  "GetRequiredFee env nTxBytes =
     max (GetFee env (minTxFee env) nTxBytes) (GetFee env (minRelayTxFee env) nTxBytes)"

text \<open>Lines 3427 to 3438 of \<^verbatim>\<open>GetMinimumFee\<close>: the floor, then the cap.\<close>

definition obey_required_and_maximum :: "fee_env \<Rightarrow> nat \<Rightarrow> MCAmount \<times> FeeReason \<Rightarrow> MCAmount \<times> FeeReason" where
  "obey_required_and_maximum env nTxBytes fr =
     (let required_fee = GetRequiredFee env nTxBytes;
          fr1 = (if fst fr < required_fee then (required_fee, REQUIRED) else fr)
      in if fst fr1 > maxTxFee env then (maxTxFee env, MAXTXFEE) else fr1)"

text \<open>\<^verbatim>\<open>MCWallet::GetMinimumFee\<close>: the fee, and the reason left in \<^verbatim>\<open>feeCalc\<close>.\<close>

definition GetMinimumFee :: "fee_env \<Rightarrow> nat \<Rightarrow> MCCoinControl \<Rightarrow> MCAmount \<times> FeeReason" where
  "GetMinimumFee env nTxBytes coin_control =
     (case m_feerate coin_control of
        Some rate \<Rightarrow>
          if fOverrideFeeRate coin_control then (GetFee env rate nTxBytes, PAYTXFEE)
          else obey_required_and_maximum env nTxBytes (GetFee env rate nTxBytes, PAYTXFEE)
      | None \<Rightarrow>
          if m_confirm_target coin_control = None \<and> payTxFee env \<noteq> 0
          then obey_required_and_maximum env nTxBytes (GetFee env (payTxFee env) nTxBytes, PAYTXFEE)
          else
            let target = (case m_confirm_target coin_control of
                            Some t \<Rightarrow> t | None \<Rightarrow> nTxConfirmTarget env);
                conservative_estimate =
                  (if m_fee_mode coin_control = CONSERVATIVE then True
                   else if m_fee_mode coin_control = ECONOMICAL then False
                   else \<not> signalRbf coin_control);
                est = EstimateSmartFee env target conservative_estimate;
                fr = (GetFee env (fst est) nTxBytes, snd est);
                fr1 = (if fst fr = 0 then (GetFee env (fallbackFee env) nTxBytes, FALLBACK) else fr);
                min_mempool_fee = GetFee env (mempool_GetMinFee env) nTxBytes;
                fr2 = (if fst fr1 < min_mempool_fee then (min_mempool_fee, MEMPOOL_MIN) else fr1)
            in obey_required_and_maximum env nTxBytes fr2)"

text \<open>
  Modelled from the spec: \<^verbatim>\<open>MCFeeRate::GetFee\<close>, which is not among the sources. The
  spec gives rates per kB ("0.00001 coin/kB, 1000") and the fee of a size as
  "rate \<times> size".
\<close>

definition GetFee_per_kB :: "MCFeeRate \<Rightarrow> nat \<Rightarrow> MCAmount" where
  "GetFee_per_kB rate nBytes = rate * int nBytes div 1000"

text \<open>The default settings of the spec (minimum fee 1000 per kB, fallback 20000 per kB)
  with an estimator that has no data.\<close>

definition default_fee_env :: fee_env where
  "default_fee_env =
     \<lparr>GetFee = GetFee_per_kB, payTxFee = 0, nTxConfirmTarget = 6, fallbackFee = 20000,
      minTxFee = 1000, minRelayTxFee = 1000, maxTxFee = 10000000,
      EstimateSmartFee = (\<lambda>target conservative. (0, ESTIMATE 0)), mempool_GetMinFee = 0\<rparr>"

text \<open>A coin control that supplies a fee rate of 500 per kB.\<close>

definition low_rate_control :: MCCoinControl where
  "low_rate_control =
     \<lparr>m_feerate = Some 500, fOverrideFeeRate = False, m_confirm_target = None,
      signalRbf = False, m_fee_mode = UNSET\<rparr>"

section \<open>The transaction ledger\<close>

text \<open>The nine memoised amounts of \<^verbatim>\<open>MCWalletTx\<close>; \<open>fCached\<close> holds the kinds whose
  \<^verbatim>\<open>f...Cached\<close> flag is set.\<close>

datatype cache_kind =
  Debit | Credit | ImmatureCredit | AvailableCredit | WatchDebit | WatchCredit
  | ImmatureWatchCredit | AvailableWatchCredit | Change

text \<open>
  \<^verbatim>\<open>MCWalletTx\<close> with the fields of \<^verbatim>\<open>MCMerkleTx\<close>. Of the transaction itself the
  ledger needs its hash, the outpoints that its inputs spend (\<open>tx_vin\<close>), whether it
  carries a witness, whether it is a coinbase, and whether it is the second step of a
  branch-chain transfer that comes from the main chain.
\<close>

record MCWalletTx =
  tx_hash :: uint256
  tx_vin :: "(uint256 \<times> nat) list"
  tx_HasWitness :: bool
  tx_IsCoinBase :: bool
  tx_FromMainStep2 :: bool
  hashBlock :: uint256
  nIndex :: int
  fFromMe :: bool
  nTimeReceived :: int
  nTimeSmart :: int
  nOrderPos :: int
  fCached :: "cache_kind set"

definition ABANDON_HASH :: uint256 where
  "ABANDON_HASH = 1"

definition hashUnset :: "MCWalletTx \<Rightarrow> bool" where
  "hashUnset wtx = (hashBlock wtx = 0 \<or> hashBlock wtx = ABANDON_HASH)"

definition isAbandoned :: "MCWalletTx \<Rightarrow> bool" where
  "isAbandoned wtx = (hashBlock wtx = ABANDON_HASH)"

definition setAbandoned :: "MCWalletTx \<Rightarrow> MCWalletTx" where
  "setAbandoned wtx = wtx\<lparr>hashBlock := ABANDON_HASH\<rparr>"

definition MarkDirty :: "MCWalletTx \<Rightarrow> MCWalletTx" where
  "MarkDirty wtx = wtx\<lparr>fCached := {}\<rparr>"

text \<open>
  The chain and the mempool, as the wallet sees them. \<open>block_depth b\<close> is
  \<^verbatim>\<open>chainActive.Height() - pindex->nHeight + 1\<close> for a block \<open>b\<close> of the active chain
  and \<open>None\<close> for a hash that \<^verbatim>\<open>mapBlockIndex\<close> does not know or whose block is not in
  the active chain.
\<close>

record chain_env =
  block_depth :: "uint256 \<rightharpoonup> int"
  mempool_Exists :: "uint256 \<Rightarrow> bool"

definition GetDepthInMainChain :: "chain_env \<Rightarrow> MCWalletTx \<Rightarrow> int" where
  "GetDepthInMainChain env wtx =
     (if hashUnset wtx then 0
      else case block_depth env (hashBlock wtx) of
             None \<Rightarrow> 0
           | Some d \<Rightarrow> (if nIndex wtx = -1 then -1 else 1) * d)"

datatype ChangeType = CT_NEW | CT_UPDATED | CT_DELETED

text \<open>
  The ledger of \<^verbatim>\<open>MCWallet\<close>: \<open>mapWallet\<close>; the multimap \<open>mapTxSpends\<close> from a spent
  outpoint to the spending transaction, as the list of its entries in key order; the
  transaction records handed to \<^verbatim>\<open>CWalletDB::WriteTx\<close>; the
  \<^verbatim>\<open>NotifyTransactionChanged\<close> signals sent.
\<close>

record ledger =
  mapWallet :: "uint256 \<rightharpoonup> MCWalletTx"
  mapTxSpends :: "((uint256 \<times> nat) \<times> uint256) list"
  db_tx :: "uint256 \<rightharpoonup> MCWalletTx"
  notified :: "(uint256 \<times> ChangeType) list"

subsection \<open>\<^verbatim>\<open>MCWallet::AbandonTransaction\<close>\<close>

text \<open>\<^verbatim>\<open>operator<\<close> of \<^verbatim>\<open>MCOutPoint\<close>: by hash, then by index.\<close>

definition outpoint_less :: "uint256 \<times> nat \<Rightarrow> uint256 \<times> nat \<Rightarrow> bool" where
  "outpoint_less a b = (fst a < fst b \<or> (fst a = fst b \<and> snd a < snd b))"

text \<open>
  Lines 1176 to 1182: the iterator starts at \<^verbatim>\<open>lower_bound(MCOutPoint(hashTx, 0))\<close> and
  advances while the key's hash is \<open>now\<close>; the result are the spending transactions met.
\<close>

definition spends_met :: "((uint256 \<times> nat) \<times> uint256) list \<Rightarrow> uint256 \<Rightarrow> uint256 \<Rightarrow> uint256 list" where
  "spends_met spends hashTx now =
     map snd (takeWhile (\<lambda>e. fst (fst e) = now)
       (dropWhile (\<lambda>e. outpoint_less (fst e) (hashTx, 0)) spends))"

text \<open>\<^verbatim>\<open>std::set<uint256>::insert\<close> on the set as its ascending list.\<close>

definition set_insert :: "uint256 \<Rightarrow> uint256 list \<Rightarrow> uint256 list" where
  "set_insert x xs = (if x \<in> set xs then xs else insort x xs)"

text \<open>Lines 1170 to 1174: mark, persist, notify.\<close>

definition mark_abandoned :: "uint256 \<Rightarrow> MCWalletTx \<Rightarrow> 'a ledger_scheme \<Rightarrow> 'a ledger_scheme" where
  "mark_abandoned now wtx w =
     (let wtx' = MarkDirty (setAbandoned (wtx\<lparr>nIndex := -1\<rparr>))
      in w\<lparr>mapWallet := (mapWallet w)(now \<mapsto> wtx'),
            db_tx := (db_tx w)(tx_hash wtx' \<mapsto> wtx'),
            notified := notified w @ [(tx_hash wtx', CT_UPDATED)]\<rparr>)"

text \<open>Lines 1185 to 1189: the transactions whose outputs \<open>wtx\<close> spends are marked dirty.\<close>

definition dirty_one :: "uint256 \<Rightarrow> 'a ledger_scheme \<Rightarrow> 'a ledger_scheme" where
  "dirty_one h w =
     (case mapWallet w h of
        None \<Rightarrow> w
      | Some prev \<Rightarrow> w\<lparr>mapWallet := (mapWallet w)(h \<mapsto> MarkDirty prev)\<rparr>)"

definition dirty_inputs :: "(uint256 \<times> nat) list \<Rightarrow> 'a ledger_scheme \<Rightarrow> 'a ledger_scheme" where
  "dirty_inputs vin w = fold (\<lambda>prevout. dirty_one (fst prevout)) vin w"

text \<open>
  The body of the \<^verbatim>\<open>while\<close> loop for the transaction \<open>now\<close> taken from \<open>todo\<close>:
  \<open>rest\<close> is \<open>todo\<close> and \<open>done\<close> is \<^verbatim>\<open>done\<close> after lines 1159 and 1160. It yields
  the new \<open>todo\<close> and the new ledger, or the failed assertion.
\<close>

definition AbandonTransaction_visit :: "chain_env \<Rightarrow> uint256 \<Rightarrow> uint256 \<Rightarrow> uint256 list \<Rightarrow> uint256 list
    \<Rightarrow> 'a ledger_scheme \<Rightarrow> wallet_abort + (uint256 list \<times> 'a ledger_scheme)" where
  "AbandonTransaction_visit env hashTx now rest done w =
     (case mapWallet w now of
        None \<Rightarrow> Inl AssertionFailed
      | Some wtx \<Rightarrow>
          let currentconfirm = GetDepthInMainChain env wtx
          in if \<not> currentconfirm \<le> 0 then Inl AssertionFailed
             else if currentconfirm = 0 \<and> \<not> isAbandoned wtx then
               if mempool_Exists env (tx_hash wtx) then Inl AssertionFailed
               else
                 let w1 = mark_abandoned now wtx w;
                     todo = fold (\<lambda>h t. if h \<in> set done then t else set_insert h t)
                              (spends_met (mapTxSpends w1) hashTx now) rest
                 in Inr (todo, dirty_inputs (tx_vin wtx) w1)
             else Inr (rest, w))"

partial_function (option) AbandonTransaction_loop :: "chain_env \<Rightarrow> uint256 \<Rightarrow> uint256 list \<Rightarrow> uint256 list
    \<Rightarrow> 'a ledger_scheme \<Rightarrow> (wallet_abort + 'a ledger_scheme) option" where
  "AbandonTransaction_loop env hashTx todo done w =
     (case todo of
        [] \<Rightarrow> Some (Inr w)
      | now # rest \<Rightarrow>
          (case AbandonTransaction_visit env hashTx now rest (now # done) w of
             Inl e \<Rightarrow> Some (Inl e)
           | Inr (todo', w') \<Rightarrow> AbandonTransaction_loop env hashTx todo' (now # done) w'))"

text \<open>
  \<^verbatim>\<open>AbandonTransaction\<close>: \<open>None\<close> if the loop does not end, else the failed assertion
  or the returned flag with the ledger.
\<close>

definition AbandonTransaction :: "chain_env \<Rightarrow> uint256 \<Rightarrow> 'a ledger_scheme
    \<Rightarrow> (wallet_abort + bool \<times> 'a ledger_scheme) option" where
  "AbandonTransaction env hashTx w =
     (case mapWallet w hashTx of
        None \<Rightarrow> Some (Inl AssertionFailed)
      | Some origtx \<Rightarrow>
          if GetDepthInMainChain env origtx > 0 \<or> mempool_Exists env (tx_hash origtx)
          then Some (Inr (False, w))
          else
            (case AbandonTransaction_loop env hashTx [hashTx] [] w of
               None \<Rightarrow> None
             | Some (Inl e) \<Rightarrow> Some (Inl e)
             | Some (Inr w') \<Rightarrow> Some (Inr (True, w'))))"

text \<open>
  What the statements about \<^verbatim>\<open>AbandonTransaction\<close> speak of. \<open>mapWallet\<close> holds each
  transaction under its hash. The multimap keeps its entries in key order. The in-wallet transactions that spend an output of \<open>h\<close> are the
  values of the entries whose key has the hash \<open>h\<close>.
\<close>

definition keyed_by_hash :: "'a ledger_scheme \<Rightarrow> bool" where
  "keyed_by_hash w = (\<forall>k wtx. mapWallet w k = Some wtx \<longrightarrow> tx_hash wtx = k)"

definition spends_sorted :: "((uint256 \<times> nat) \<times> uint256) list \<Rightarrow> bool" where
  "spends_sorted spends = sorted_wrt (\<lambda>a b. \<not> outpoint_less (fst b) (fst a)) spends"

definition spenders_of :: "((uint256 \<times> nat) \<times> uint256) list \<Rightarrow> uint256 \<Rightarrow> uint256 set" where
  "spenders_of spends h = snd ` {e \<in> set spends. fst (fst e) = h}"

text \<open>A transaction that the loop marks when it visits it: unconfirmed, unconflicted and
  not yet abandoned.\<close>

definition abandonable :: "chain_env \<Rightarrow> 'a ledger_scheme \<Rightarrow> uint256 \<Rightarrow> bool" where
  "abandonable env w c =
     (case mapWallet w c of
        None \<Rightarrow> False
      | Some wtx \<Rightarrow> GetDepthInMainChain env wtx = 0 \<and> \<not> isAbandoned wtx)"

text \<open>The three assertions of the loop hold for \<open>c\<close>.\<close>

definition asserts_hold :: "chain_env \<Rightarrow> 'a ledger_scheme \<Rightarrow> uint256 \<Rightarrow> bool" where
  "asserts_hold env w c =
     (case mapWallet w c of
        None \<Rightarrow> False
      | Some wtx \<Rightarrow>
          GetDepthInMainChain env wtx \<le> 0
          \<and> \<not> (GetDepthInMainChain env wtx = 0 \<and> \<not> isAbandoned wtx \<and> mempool_Exists env (tx_hash wtx)))"

text \<open>The state of an abandoned transaction: marked in memory with its caches invalid,
  and persisted so.\<close>

definition recorded_abandoned :: "'a ledger_scheme \<Rightarrow> uint256 \<Rightarrow> bool" where
  "recorded_abandoned w c =
     ((case mapWallet w c of
         None \<Rightarrow> False
       | Some wtx \<Rightarrow> nIndex wtx = -1 \<and> hashBlock wtx = ABANDON_HASH \<and> fCached wtx = {})
      \<and> (case db_tx w c of
         None \<Rightarrow> False
       | Some wtx \<Rightarrow> nIndex wtx = -1 \<and> hashBlock wtx = ABANDON_HASH))"

definition caches_invalid :: "'a ledger_scheme \<Rightarrow> uint256 \<Rightarrow> bool" where
  "caches_invalid w p = (case mapWallet w p of None \<Rightarrow> True | Some wtx \<Rightarrow> fCached wtx = {})"

subsection \<open>\<^verbatim>\<open>MCWallet::AddToWallet\<close>\<close>

text \<open>
  A default-constructed \<^verbatim>\<open>MCWalletTx\<close> (\<^verbatim>\<open>Init\<close>), which \<^verbatim>\<open>mapWallet[hash]\<close>
  inserts for a hash that the map does not hold; \<open>h0\<close> is the hash of the empty
  transaction.
\<close>

definition empty_MCWalletTx :: "uint256 \<Rightarrow> MCWalletTx" where
  "empty_MCWalletTx h0 =
     \<lparr>tx_hash = h0, tx_vin = [], tx_HasWitness = False, tx_IsCoinBase = False,
      tx_FromMainStep2 = False, hashBlock = 0, nIndex = -1, fFromMe = False,
      nTimeReceived = 0, nTimeSmart = 0, nOrderPos = -1, fCached = {}\<rparr>"

text \<open>
  What \<^verbatim>\<open>AddToWallet\<close> and \<^verbatim>\<open>CommitTransaction\<close> call outside the ledger: the clock,
  \<^verbatim>\<open>ComputeTimeSmart\<close>, \<^verbatim>\<open>IsEquivalentTo\<close>, the outcome of \<^verbatim>\<open>WriteTx\<close>, mempool
  admission, the chain, and whether a connection manager was passed.
\<close>

record commit_env =
  GetAdjustedTime :: int
  ComputeTimeSmart :: "MCWalletTx \<Rightarrow> int"
  IsEquivalentTo :: "MCWalletTx \<Rightarrow> MCWalletTx \<Rightarrow> bool"
  WriteTx_ok :: bool
  AcceptToMemoryPool_ok :: "MCWalletTx \<Rightarrow> bool"
  empty_tx_hash :: uint256
  chain :: chain_env
  connman_given :: bool

type_synonym MCPubKey = nat

record MCKeyPool =
  kp_vchPubKey :: MCPubKey
  kp_fInternal :: bool

text \<open>
  The ledger with the order counter, the request counts, the key pool (the two sets of
  indices, the index of each pooled key, and the pool entries in the database), the
  broadcast setting and the inventory announcements pushed to the peers.
\<close>

record commit_wallet = ledger +
  nOrderPosNext :: int
  db_nOrderPosNext :: "int option"
  mapRequestCount :: "uint256 \<rightharpoonup> int"
  setInternalKeyPool :: "int set"
  setExternalKeyPool :: "int set"
  m_pool_key_to_index :: "MCPubKey \<rightharpoonup> int"
  db_pool :: "int \<rightharpoonup> MCKeyPool"
  fBroadcastTransactions :: bool
  relayed :: "uint256 list"

text \<open>\<^verbatim>\<open>mapWallet[h]\<close>: the entry is created if it is missing.\<close>

definition mapWallet_index :: "commit_env \<Rightarrow> uint256 \<Rightarrow> 'a ledger_scheme \<Rightarrow> 'a ledger_scheme" where
  "mapWallet_index env h w =
     (case mapWallet w h of
        None \<Rightarrow> w\<lparr>mapWallet := (mapWallet w)(h \<mapsto> empty_MCWalletTx (empty_tx_hash env))\<rparr>
      | Some wtx \<Rightarrow> w)"

definition mapWallet_at :: "commit_env \<Rightarrow> uint256 \<Rightarrow> 'a ledger_scheme \<Rightarrow> MCWalletTx" where
  "mapWallet_at env h w =
     (case mapWallet w h of None \<Rightarrow> empty_MCWalletTx (empty_tx_hash env) | Some wtx \<Rightarrow> wtx)"

text \<open>
  \<^verbatim>\<open>SyncMetaData\<close> over the transactions \<open>hashes\<close> that spend one outpoint (the range of the multimap). The first
  loop looks for the smallest \<^verbatim>\<open>nOrderPos\<close>, as an \<^verbatim>\<open>int\<close>, below \<^verbatim>\<open>INT_MAX\<close>; the second copies the
  metadata of that transaction to the equivalent ones (of the fields copied, the model
  has \<open>nTimeSmart\<close> and \<open>fFromMe\<close>). With no such transaction \<^verbatim>\<open>copyFrom\<close> stays null
  and the second loop dereferences it.
\<close>

text \<open>\<^verbatim>\<open>int n = mapWallet[hash].nOrderPos\<close> converts the \<^verbatim>\<open>int64_t\<close> to an \<^verbatim>\<open>int\<close>:
  the low 32 bits, read as a signed number.\<close>

definition int_of_int64 :: "int \<Rightarrow> int" where
  "int_of_int64 x = sint (word_of_int x :: 32 word)"

definition SyncMetaData_min_step :: "commit_env \<Rightarrow> uint256 \<Rightarrow> (int \<times> uint256 option) \<times> 'a ledger_scheme
    \<Rightarrow> (int \<times> uint256 option) \<times> 'a ledger_scheme" where
  "SyncMetaData_min_step env hash s =
     (let w1 = mapWallet_index env hash (snd s);
          n = int_of_int64 (nOrderPos (mapWallet_at env hash w1))
      in if n < fst (fst s) then ((n, Some hash), w1) else (fst s, w1))"

definition SyncMetaData_min :: "commit_env \<Rightarrow> uint256 list \<Rightarrow> 'a ledger_scheme
    \<Rightarrow> (int \<times> uint256 option) \<times> 'a ledger_scheme" where
  "SyncMetaData_min env hashes w =
     fold (SyncMetaData_min_step env) hashes ((2147483647, None), w)"

definition SyncMetaData_copy :: "commit_env \<Rightarrow> uint256 \<Rightarrow> uint256 \<Rightarrow> 'a ledger_scheme \<Rightarrow> 'a ledger_scheme" where
  "SyncMetaData_copy env copyFrom hash w =
     (let w1 = mapWallet_index env hash w;
          copyFromTx = mapWallet_at env copyFrom w1;
          copyTo = mapWallet_at env hash w1
      in if copyFrom = hash then w1
         else if \<not> IsEquivalentTo env copyFromTx copyTo then w1
         else w1\<lparr>mapWallet := (mapWallet w1)
                  (hash \<mapsto> copyTo\<lparr>nTimeSmart := nTimeSmart copyFromTx, fFromMe := fFromMe copyFromTx\<rparr>)\<rparr>)"

definition SyncMetaData :: "commit_env \<Rightarrow> uint256 list \<Rightarrow> 'a ledger_scheme \<Rightarrow> wallet_abort + 'a ledger_scheme" where
  "SyncMetaData env hashes w =
     (case SyncMetaData_min env hashes w of
        ((nMinOrderPos, copyFrom), w1) \<Rightarrow>
          (case hashes of
             [] \<Rightarrow> Inr w1
           | hash # rest \<Rightarrow>
               (case copyFrom of
                  None \<Rightarrow> Inl NullDereference
                | Some c \<Rightarrow> Inr (fold (SyncMetaData_copy env c) hashes w1))))"

text \<open>\<^verbatim>\<open>std::multimap::insert\<close>: after the entries whose key is not greater.\<close>

definition multimap_insert :: "(uint256 \<times> nat) \<times> uint256 \<Rightarrow> ((uint256 \<times> nat) \<times> uint256) list
    \<Rightarrow> ((uint256 \<times> nat) \<times> uint256) list" where
  "multimap_insert e spends =
     takeWhile (\<lambda>x. \<not> outpoint_less (fst e) (fst x)) spends @ e #
     dropWhile (\<lambda>x. \<not> outpoint_less (fst e) (fst x)) spends"

text \<open>\<^verbatim>\<open>AddToSpends(outpoint, wtxid)\<close>, and \<^verbatim>\<open>AddToSpends(wtxid)\<close> over the inputs.\<close>

definition AddToSpends_outpoint :: "commit_env \<Rightarrow> uint256 \<times> nat \<Rightarrow> uint256 \<Rightarrow> 'a ledger_scheme
    \<Rightarrow> wallet_abort + 'a ledger_scheme" where
  "AddToSpends_outpoint env outpoint wtxid w =
     (let w1 = w\<lparr>mapTxSpends := multimap_insert (outpoint, wtxid) (mapTxSpends w)\<rparr>
      in SyncMetaData env (map snd (filter (\<lambda>e. fst e = outpoint) (mapTxSpends w1))) w1)"

fun AddToSpends_inputs :: "commit_env \<Rightarrow> (uint256 \<times> nat) list \<Rightarrow> uint256 \<Rightarrow> 'a ledger_scheme
    \<Rightarrow> wallet_abort + 'a ledger_scheme" where
  "AddToSpends_inputs env [] wtxid w = Inr w"
| "AddToSpends_inputs env (prevout # vin) wtxid w =
     (case AddToSpends_outpoint env prevout wtxid w of
        Inl e \<Rightarrow> Inl e
      | Inr w1 \<Rightarrow> AddToSpends_inputs env vin wtxid w1)"

definition AddToSpends :: "commit_env \<Rightarrow> uint256 \<Rightarrow> 'a ledger_scheme \<Rightarrow> wallet_abort + 'a ledger_scheme" where
  "AddToSpends env wtxid w =
     (case mapWallet w wtxid of
        None \<Rightarrow> Inl AssertionFailed
      | Some thisTx \<Rightarrow>
          if tx_IsCoinBase thisTx then Inr w
          else if tx_FromMainStep2 thisTx then Inr w
          else AddToSpends_inputs env (tx_vin thisTx) wtxid w)"

text \<open>The merge of \<^verbatim>\<open>AddToWallet\<close> into the record \<open>wtx\<close> that the ledger already has:
  the merged record and \<^verbatim>\<open>fUpdated\<close>.\<close>

definition AddToWallet_merge :: "MCWalletTx \<Rightarrow> MCWalletTx \<Rightarrow> MCWalletTx \<times> bool" where
  "AddToWallet_merge wtxIn wtx =
     (let s0 = (wtx, False);
          s1 = (if \<not> hashUnset wtxIn \<and> hashBlock wtxIn \<noteq> hashBlock (fst s0)
                then ((fst s0)\<lparr>hashBlock := hashBlock wtxIn\<rparr>, True) else s0);
          s2 = (if hashBlock wtxIn = 0 \<and> isAbandoned (fst s1)
                then ((fst s1)\<lparr>hashBlock := hashBlock wtxIn\<rparr>, True) else s1);
          s3 = (if nIndex wtxIn \<noteq> -1 \<and> nIndex wtxIn \<noteq> nIndex (fst s2)
                then ((fst s2)\<lparr>nIndex := nIndex wtxIn\<rparr>, True) else s2);
          s4 = (if fFromMe wtxIn \<and> fFromMe wtxIn \<noteq> fFromMe (fst s3)
                then ((fst s3)\<lparr>fFromMe := fFromMe wtxIn\<rparr>, True) else s3);
          s5 = (if tx_HasWitness wtxIn \<and> \<not> tx_HasWitness (fst s4)
                then ((fst s4)\<lparr>tx_hash := tx_hash wtxIn, tx_vin := tx_vin wtxIn,
                                tx_HasWitness := tx_HasWitness wtxIn,
                                tx_IsCoinBase := tx_IsCoinBase wtxIn,
                                tx_FromMainStep2 := tx_FromMainStep2 wtxIn\<rparr>, True) else s4)
      in s5)"

text \<open>
  \<^verbatim>\<open>AddToWallet\<close>, in three parts. The index \<^verbatim>\<open>wtxOrdered\<close> and the
  \<^verbatim>\<open>-walletnotify\<close> command lie outside the ledger.

  Lines 958 to 965, for a transaction that \<^verbatim>\<open>mapWallet.insert\<close> has just added (bound
  to the wallet, so with its caches dirty): the time of receipt, the order position, the
  smart time, the spend index.
\<close>

definition AddToWallet_inserted :: "commit_env \<Rightarrow> MCWalletTx \<Rightarrow> 'a commit_wallet_scheme
    \<Rightarrow> wallet_abort + 'a commit_wallet_scheme" where
  "AddToWallet_inserted env wtxIn w =
     (let wtx = (MarkDirty wtxIn)\<lparr>nTimeReceived := GetAdjustedTime env, nOrderPos := nOrderPosNext w\<rparr>;
          wtx = wtx\<lparr>nTimeSmart := ComputeTimeSmart env wtx\<rparr>
      in AddToSpends env (tx_hash wtxIn)
           (w\<lparr>mapWallet := (mapWallet w)(tx_hash wtxIn \<mapsto> wtx),
              nOrderPosNext := nOrderPosNext w + 1,
              db_nOrderPosNext := Some (nOrderPosNext w + 1)\<rparr>))"

text \<open>Lines 1008 to 1032: the write to the database, whose failure ends the call, then
  the caches and the signal.\<close>

definition AddToWallet_written :: "commit_env \<Rightarrow> uint256 \<Rightarrow> bool \<Rightarrow> bool \<Rightarrow> 'a commit_wallet_scheme
    \<Rightarrow> bool \<times> 'a commit_wallet_scheme" where
  "AddToWallet_written env hash fInsertedNew fUpdated w =
     (let wtx = mapWallet_at env hash w
      in if (fInsertedNew \<or> fUpdated) \<and> \<not> WriteTx_ok env then (False, w)
         else
           (True,
            w\<lparr>mapWallet := (mapWallet w)(hash \<mapsto> MarkDirty wtx),
              db_tx := (if fInsertedNew \<or> fUpdated then (db_tx w)(tx_hash wtx \<mapsto> wtx) else db_tx w),
              notified := notified w @ [(hash, if fInsertedNew then CT_NEW else CT_UPDATED)]\<rparr>))"

definition AddToWallet :: "commit_env \<Rightarrow> MCWalletTx \<Rightarrow> 'a commit_wallet_scheme
    \<Rightarrow> wallet_abort + (bool \<times> 'a commit_wallet_scheme)" where
  "AddToWallet env wtxIn w =
     (case mapWallet w (tx_hash wtxIn) of
        None \<Rightarrow>
          (case AddToWallet_inserted env wtxIn w of
             Inl e \<Rightarrow> Inl e
           | Inr w' \<Rightarrow> Inr (AddToWallet_written env (tx_hash wtxIn) True False w'))
      | Some wtx \<Rightarrow>
          let m = AddToWallet_merge wtxIn (MarkDirty wtx)
          in Inr (AddToWallet_written env (tx_hash wtxIn) False (snd m)
                    (w\<lparr>mapWallet := (mapWallet w)(tx_hash wtxIn \<mapsto> fst m)\<rparr>)))"

subsection \<open>\<^verbatim>\<open>MCWallet::CommitTransaction\<close>\<close>

record MCReserveKey =
  rk_nIndex :: int
  rk_vchPubKey :: "MCPubKey option"
  rk_fInternal :: bool

text \<open>\<^verbatim>\<open>MCReserveKey::KeepKey\<close> with \<^verbatim>\<open>MCWallet::KeepKey\<close>, which erases the pool entry
  from the database.\<close>

definition ReserveKey_KeepKey :: "MCReserveKey \<Rightarrow> 'a commit_wallet_scheme \<Rightarrow> MCReserveKey \<times> 'a commit_wallet_scheme" where
  "ReserveKey_KeepKey rk w =
     (rk\<lparr>rk_nIndex := -1, rk_vchPubKey := None\<rparr>,
      if rk_nIndex rk \<noteq> -1 then w\<lparr>db_pool := (db_pool w)(rk_nIndex rk := None)\<rparr> else w)"

text \<open>\<^verbatim>\<open>MCReserveKey::ReturnKey\<close> with \<^verbatim>\<open>MCWallet::ReturnKey\<close>; the destructor of the
  reserve key calls it.\<close>

definition ReserveKey_ReturnKey :: "MCReserveKey \<Rightarrow> 'a commit_wallet_scheme \<Rightarrow> MCReserveKey \<times> 'a commit_wallet_scheme" where
  "ReserveKey_ReturnKey rk w =
     (rk\<lparr>rk_nIndex := -1, rk_vchPubKey := None\<rparr>,
      if rk_nIndex rk \<noteq> -1 then
        let w1 = (if rk_fInternal rk
                  then w\<lparr>setInternalKeyPool := insert (rk_nIndex rk) (setInternalKeyPool w)\<rparr>
                  else w\<lparr>setExternalKeyPool := insert (rk_nIndex rk) (setExternalKeyPool w)\<rparr>)
        in (case rk_vchPubKey rk of
              None \<Rightarrow> w1
            | Some pubkey \<Rightarrow> w1\<lparr>m_pool_key_to_index := (m_pool_key_to_index w1)(pubkey \<mapsto> rk_nIndex rk)\<rparr>)
      else w)"

text \<open>Lines 3327 to 3332: every transaction that an input spends from is bound to the
  wallet (its caches marked dirty) and signalled.\<close>

definition notify_spent_coin :: "commit_env \<Rightarrow> uint256 \<Rightarrow> 'a ledger_scheme \<Rightarrow> 'a ledger_scheme" where
  "notify_spent_coin env h w =
     (let w1 = mapWallet_index env h w;
          coin = MarkDirty (mapWallet_at env h w1)
      in w1\<lparr>mapWallet := (mapWallet w1)(h \<mapsto> coin),
             notified := notified w1 @ [(tx_hash coin, CT_UPDATED)]\<rparr>)"

text \<open>\<^verbatim>\<open>MCWalletTx::RelayWalletTransaction\<close> on \<open>wtxNew\<close>.\<close>

definition RelayWalletTransaction :: "commit_env \<Rightarrow> MCWalletTx \<Rightarrow> 'a commit_wallet_scheme
    \<Rightarrow> wallet_abort + 'a commit_wallet_scheme" where
  "RelayWalletTransaction env wtx w =
     (if \<not> fBroadcastTransactions w then Inl AssertionFailed
      else if \<not> tx_IsCoinBase wtx \<and> \<not> isAbandoned wtx \<and> GetDepthInMainChain (chain env) wtx = 0
              \<and> (mempool_Exists (chain env) (tx_hash wtx) \<or> AcceptToMemoryPool_ok env wtx)
              \<and> connman_given env
           then Inr (w\<lparr>relayed := relayed w @ [tx_hash wtx]\<rparr>)
           else Inr w)"

text \<open>\<^verbatim>\<open>CommitTransaction\<close>: the returned flag, the reserve key and the wallet.\<close>

definition CommitTransaction :: "commit_env \<Rightarrow> MCWalletTx \<Rightarrow> MCReserveKey \<Rightarrow> 'a commit_wallet_scheme
    \<Rightarrow> wallet_abort + (bool \<times> MCReserveKey \<times> 'a commit_wallet_scheme)" where
  "CommitTransaction env wtxNew reservekey w =
     (case ReserveKey_KeepKey reservekey w of
        (reservekey', w1) \<Rightarrow>
          (case AddToWallet env wtxNew w1 of
             Inl e \<Rightarrow> Inl e
           | Inr (added, w2) \<Rightarrow>
               let w3 = fold (\<lambda>prevout. notify_spent_coin env (fst prevout)) (tx_vin wtxNew) w2;
                   w4 = w3\<lparr>mapRequestCount := (mapRequestCount w3)(tx_hash wtxNew \<mapsto> 0)\<rparr>
               in if fBroadcastTransactions w4 then
                    if \<not> AcceptToMemoryPool_ok env wtxNew then Inr (False, reservekey', w4)
                    else (case RelayWalletTransaction env wtxNew w4 of
                            Inl e \<Rightarrow> Inl e
                          | Inr w5 \<Rightarrow> Inr (True, reservekey', w5))
                  else Inr (True, reservekey', w4)))"

subsection \<open>A ledger with a chain of unconfirmed transactions\<close>

text \<open>
  Transaction 10 spends an output of 5, 20 spends an output of 10, and 30 an output of 20;
  none is in a block or in the mempool. Transaction 40 conflicts with block 7, three
  blocks deep in the active chain. Transaction 50 is in the mempool.
\<close>

definition unconfirmed_tx :: "uint256 \<Rightarrow> (uint256 \<times> nat) list \<Rightarrow> MCWalletTx" where
  "unconfirmed_tx h vin =
     \<lparr>tx_hash = h, tx_vin = vin, tx_HasWitness = False, tx_IsCoinBase = False,
      tx_FromMainStep2 = False, hashBlock = 0, nIndex = -1,
      fFromMe = True, nTimeReceived = 0, nTimeSmart = 0, nOrderPos = 0, fCached = {Credit, Debit}\<rparr>"

definition chain_ledger :: ledger where
  "chain_ledger =
     \<lparr>mapWallet = [5 \<mapsto> unconfirmed_tx 5 [], 10 \<mapsto> unconfirmed_tx 10 [(5, 0)],
                   20 \<mapsto> unconfirmed_tx 20 [(10, 0)], 30 \<mapsto> unconfirmed_tx 30 [(20, 0)],
                   40 \<mapsto> (unconfirmed_tx 40 [])\<lparr>hashBlock := 7\<rparr>, 50 \<mapsto> unconfirmed_tx 50 []],
      mapTxSpends = [((5, 0), 10), ((10, 0), 20), ((20, 0), 30)],
      db_tx = Map.empty,
      notified = []\<rparr>"

definition chain_view :: chain_env where
  "chain_view = \<lparr>block_depth = [7 \<mapsto> 3], mempool_Exists = (\<lambda>h. h = 50)\<rparr>"

text \<open>
  The same ledger as a wallet with a key pool, a reserve key that holds the pool key of
  index 3, a new transaction 60 that spends an output of 20, and a mempool that refuses
  it.
\<close>

definition pending_wallet :: commit_wallet where
  "pending_wallet =
     \<lparr>mapWallet = mapWallet chain_ledger, mapTxSpends = mapTxSpends chain_ledger,
      db_tx = Map.empty, notified = [],
      nOrderPosNext = 6, db_nOrderPosNext = Some 6, mapRequestCount = Map.empty,
      setInternalKeyPool = {4, 5}, setExternalKeyPool = {1, 2},
      m_pool_key_to_index = Map.empty,
      db_pool = [3 \<mapsto> \<lparr>kp_vchPubKey = 77, kp_fInternal = True\<rparr>],
      fBroadcastTransactions = True, relayed = []\<rparr>"

definition change_key :: MCReserveKey where
  "change_key = \<lparr>rk_nIndex = 3, rk_vchPubKey = Some 77, rk_fInternal = True\<rparr>"

definition refusing_env :: commit_env where
  "refusing_env =
     \<lparr>GetAdjustedTime = 1000, ComputeTimeSmart = (\<lambda>wtx. 1000),
      IsEquivalentTo = (\<lambda>a b. False), WriteTx_ok = True,
      AcceptToMemoryPool_ok = (\<lambda>wtx. False), empty_tx_hash = 0,
      chain = chain_view, connman_given = True\<rparr>"

subsection \<open>Notions of the proofs about the ledger\<close>

text \<open>What marking caches dirty preserves.\<close>

definition caches_only :: "'a ledger_scheme \<Rightarrow> 'a ledger_scheme \<Rightarrow> bool" where
  "caches_only w w' =
     (mapTxSpends w' = mapTxSpends w \<and> db_tx w' = db_tx w
      \<and> (\<forall>x. mapWallet w' x = mapWallet w x
             \<or> (\<exists>t. mapWallet w x = Some t \<and> mapWallet w' x = Some (MarkDirty t))))"

text \<open>What a visit does to the ledger.\<close>

definition visited :: "chain_env \<Rightarrow> uint256 \<Rightarrow> 'a ledger_scheme \<Rightarrow> 'a ledger_scheme" where
  "visited env c w =
     (case mapWallet w c of
        None \<Rightarrow> w
      | Some t \<Rightarrow> if abandonable env w c then dirty_inputs (tx_vin t) (mark_abandoned c t w) else w)"

text \<open>What the maintenance of the spend index preserves.\<close>

definition grows :: "commit_env \<Rightarrow> 'a ledger_scheme \<Rightarrow> 'a ledger_scheme \<Rightarrow> bool" where
  "grows env w w' =
     (dom (mapWallet w) \<subseteq> dom (mapWallet w')
      \<and> (\<forall>h. nOrderPos (mapWallet_at env h w') = nOrderPos (mapWallet_at env h w))
      \<and> ledger.more w' = ledger.more w)"

text \<open>What the maintenance of the spend index and the marking of caches leave of a
  record: the transaction, its block, its time of receipt and its order position (all
  but the smart time, the flag \<^verbatim>\<open>fFromMe\<close> and the caches). And what they leave of a
  ledger: every record in this sense, every entry of the spend index, the database.\<close>

definition same_tx :: "MCWalletTx \<Rightarrow> MCWalletTx \<Rightarrow> bool" where
  "same_tx t t' =
     (tx_hash t' = tx_hash t \<and> tx_vin t' = tx_vin t \<and> tx_HasWitness t' = tx_HasWitness t
      \<and> tx_IsCoinBase t' = tx_IsCoinBase t \<and> tx_FromMainStep2 t' = tx_FromMainStep2 t
      \<and> hashBlock t' = hashBlock t \<and> nIndex t' = nIndex t
      \<and> nTimeReceived t' = nTimeReceived t \<and> nOrderPos t' = nOrderPos t)"

definition keeps :: "'a ledger_scheme \<Rightarrow> 'a ledger_scheme \<Rightarrow> bool" where
  "keeps w w' =
     ((\<forall>h t. mapWallet w h = Some t \<longrightarrow> (\<exists>t'. mapWallet w' h = Some t' \<and> same_tx t t'))
      \<and> set (mapTxSpends w) \<subseteq> set (mapTxSpends w')
      \<and> db_tx w' = db_tx w)"

text \<open>The key pool, the broadcast setting and the announcements are left as they were.\<close>

definition same_pool :: "'a commit_wallet_scheme \<Rightarrow> 'a commit_wallet_scheme \<Rightarrow> bool" where
  "same_pool w w' =
     (setInternalKeyPool w' = setInternalKeyPool w \<and> setExternalKeyPool w' = setExternalKeyPool w
      \<and> db_pool w' = db_pool w \<and> fBroadcastTransactions w' = fBroadcastTransactions w
      \<and> m_pool_key_to_index w' = m_pool_key_to_index w \<and> relayed w' = relayed w)"

section \<open>Key generation\<close>

type_synonym MCKey = nat
type_synonym MCKeyID = nat
type_synonym MCExtKey = nat

record CHDChain =
  nExternalChainCounter :: "32 word"
  nInternalChainCounter :: "32 word"
  masterKeyID :: MCKeyID
  hd_nVersion :: int

record CKeyMetadata =
  km_nVersion :: int
  nCreateTime :: int
  hdKeypath :: string
  hdMasterKeyID :: MCKeyID

text \<open>\<^verbatim>\<open>CKeyMetadata(nCreateTime)\<close>: \<^verbatim>\<open>SetNull\<close>, then the creation time. The null key
  id is 0.\<close>

definition CKeyMetadata_init :: "int \<Rightarrow> CKeyMetadata" where
  "CKeyMetadata_init t = \<lparr>km_nVersion = 10, nCreateTime = t, hdKeypath = [], hdMasterKeyID = 0\<rparr>"

datatype MCScript = ScriptForDestination MCKeyID | ScriptForRawPubKey MCPubKey

text \<open>
  The key primitives (\<^verbatim>\<open>MCExtKey::SetMaster\<close> and \<^verbatim>\<open>Derive\<close>, the key of an extended
  key, \<^verbatim>\<open>GetPubKey\<close>, \<^verbatim>\<open>GetID\<close>, \<^verbatim>\<open>VerifyPubKey\<close>, \<^verbatim>\<open>MakeNewKey\<close>), the clock,
  and the outcomes of the key store's \<^verbatim>\<open>AddKeyPubKey\<close> and of the database writes.
\<close>

record key_env =
  SetMaster :: "MCKey \<Rightarrow> MCExtKey"
  Derive :: "MCExtKey \<Rightarrow> 32 word \<Rightarrow> MCExtKey"
  ExtKey_key :: "MCExtKey \<Rightarrow> MCKey"
  GetPubKey :: "MCKey \<Rightarrow> MCPubKey"
  PubKey_GetID :: "MCPubKey \<Rightarrow> MCKeyID"
  VerifyPubKey :: "MCKey \<Rightarrow> MCPubKey \<Rightarrow> bool"
  MakeNewKey :: "bool \<Rightarrow> MCKey"
  GetTime :: int
  KeyStore_AddKeyPubKey_ok :: bool
  WriteHDChain_ok :: bool
  WriteKey_ok :: bool

text \<open>
  The part of \<^verbatim>\<open>MCWallet\<close> that key generation reads and writes, with the records
  handed to the database (the HD chain, the keys with their metadata, the minimum
  version, the watch-only scripts).
\<close>

record key_wallet =
  hdChain :: CHDChain
  mapKeys :: "MCKeyID \<rightharpoonup> MCKey"
  mapKeyMetadata :: "MCKeyID \<rightharpoonup> CKeyMetadata"
  nWalletVersion :: int
  nWalletMaxVersion :: int
  nTimeFirstKey :: int
  fCryptedKeys :: bool
  setWatchOnly :: "MCScript set"
  db_hdchain :: "CHDChain option"
  db_key :: "MCPubKey \<rightharpoonup> MCKey \<times> CKeyMetadata"
  db_minversion :: "int option"
  db_watchs :: "MCScript set"

definition BIP32_HARDENED_KEY_LIMIT :: "32 word" where
  "BIP32_HARDENED_KEY_LIMIT = 0x80000000"

definition FEATURE_COMPRPUBKEY :: int where
  "FEATURE_COMPRPUBKEY = 60000"

definition FEATURE_HD_SPLIT :: int where
  "FEATURE_HD_SPLIT = 139900"

definition CanSupportFeature :: "key_wallet \<Rightarrow> int \<Rightarrow> bool" where
  "CanSupportFeature w feature = (nWalletMaxVersion w \<ge> feature)"

definition IsHDEnabled :: "key_wallet \<Rightarrow> bool" where
  "IsHDEnabled w = (masterKeyID (hdChain w) \<noteq> 0)"

text \<open>
  Modelled from the spec: the key store (\<^verbatim>\<open>MCCryptoKeyStore::GetKey\<close>, \<^verbatim>\<open>HaveKey\<close>,
  \<^verbatim>\<open>AddKeyPubKey\<close>, which are not among the sources) as the "public/private key
  material" of the wallet, a map from key ids to keys: \<^verbatim>\<open>HaveKey\<close> tells whether the
  wallet knows a key id, \<^verbatim>\<open>GetKey\<close> yields its key, and an \<^verbatim>\<open>AddKeyPubKey\<close> that
  succeeds adds the key under the id of its public key.
\<close>

definition HaveKey :: "key_wallet \<Rightarrow> MCKeyID \<Rightarrow> bool" where
  "HaveKey w keyid = (mapKeys w keyid \<noteq> None)"

definition GetKey :: "key_wallet \<Rightarrow> MCKeyID \<Rightarrow> MCKey option" where
  "GetKey w keyid = mapKeys w keyid"

definition KeyStore_AddKeyPubKey :: "key_env \<Rightarrow> MCKey \<Rightarrow> MCPubKey \<Rightarrow> key_wallet \<Rightarrow> key_wallet option" where
  "KeyStore_AddKeyPubKey env secret pubkey w =
     (if KeyStore_AddKeyPubKey_ok env
      then Some (w\<lparr>mapKeys := (mapKeys w)(PubKey_GetID env pubkey \<mapsto> secret)\<rparr>)
      else None)"

subsection \<open>\<^verbatim>\<open>std::to_string\<close> of an unsigned number\<close>

definition digit_char :: "nat \<Rightarrow> char" where
  "digit_char d = ''0123456789'' ! d"

fun to_string :: "nat \<Rightarrow> string" where
  "to_string n = (if n < 10 then [digit_char n] else to_string (n div 10) @ [digit_char (n mod 10)])"

declare to_string.simps [simp del]

text \<open>The key paths \<^verbatim>\<open>"m/0'/0'/" + std::to_string(k) + "'"\<close> and
  \<^verbatim>\<open>"m/0'/1'/" + std::to_string(k) + "'"\<close>; the apostrophe is the character 39.\<close>

definition keypath :: "bool \<Rightarrow> nat \<Rightarrow> string" where
  "keypath internal k =
     ''m/0'' @ [CHR 0x27] @ (if internal then ''/1'' else ''/0'') @ [CHR 0x27]
       @ ''/'' @ to_string k @ [CHR 0x27]"

subsection \<open>\<^verbatim>\<open>MCWallet::DeriveNewChildKey\<close>\<close>

text \<open>One pass through the body of the \<^verbatim>\<open>do\<close> loop (lines 209 to 218): the child key,
  the metadata and the wallet with the counter advanced.\<close>

definition derive_next :: "key_env \<Rightarrow> bool \<Rightarrow> MCExtKey \<Rightarrow> CKeyMetadata \<Rightarrow> key_wallet
    \<Rightarrow> MCExtKey \<times> CKeyMetadata \<times> key_wallet" where
  "derive_next env internal chainChildKey metadata w =
     (if internal then
        (Derive env chainChildKey (nInternalChainCounter (hdChain w) OR BIP32_HARDENED_KEY_LIMIT),
         metadata\<lparr>hdKeypath := keypath True (unat (nInternalChainCounter (hdChain w)))\<rparr>,
         w\<lparr>hdChain := (hdChain w)\<lparr>nInternalChainCounter := nInternalChainCounter (hdChain w) + 1\<rparr>\<rparr>)
      else
        (Derive env chainChildKey (nExternalChainCounter (hdChain w) OR BIP32_HARDENED_KEY_LIMIT),
         metadata\<lparr>hdKeypath := keypath False (unat (nExternalChainCounter (hdChain w)))\<rparr>,
         w\<lparr>hdChain := (hdChain w)\<lparr>nExternalChainCounter := nExternalChainCounter (hdChain w) + 1\<rparr>\<rparr>))"

text \<open>The loop repeats while the wallet has the key of the child; \<open>None\<close> if it never
  ends.\<close>

partial_function (option) DeriveNewChildKey_loop :: "key_env \<Rightarrow> bool \<Rightarrow> MCExtKey \<Rightarrow> CKeyMetadata
    \<Rightarrow> key_wallet \<Rightarrow> (MCExtKey \<times> CKeyMetadata \<times> key_wallet) option" where
  "DeriveNewChildKey_loop env internal chainChildKey metadata w =
     (case derive_next env internal chainChildKey metadata w of
        (childKey, metadata', w') \<Rightarrow>
          if HaveKey w' (PubKey_GetID env (GetPubKey env (ExtKey_key env childKey)))
          then DeriveNewChildKey_loop env internal chainChildKey metadata' w'
          else Some (childKey, metadata', w'))"

text \<open>The chain key \<^verbatim>\<open>m/0'/0'\<close> or \<^verbatim>\<open>m/0'/1'\<close> of a master key (lines 194 to 202).\<close>

definition chain_child_key :: "key_env \<Rightarrow> MCKey \<Rightarrow> bool \<Rightarrow> MCExtKey" where
  "chain_child_key env key internal =
     (let masterKey = SetMaster env key;
          accountKey = Derive env masterKey BIP32_HARDENED_KEY_LIMIT
      in Derive env accountKey (BIP32_HARDENED_KEY_LIMIT + (if internal then 1 else 0)))"

text \<open>\<^verbatim>\<open>DeriveNewChildKey\<close>: the secret, the metadata and the wallet.\<close>

definition DeriveNewChildKey :: "key_env \<Rightarrow> CKeyMetadata \<Rightarrow> bool \<Rightarrow> key_wallet
    \<Rightarrow> (wallet_abort + MCKey \<times> CKeyMetadata \<times> key_wallet) option" where
  "DeriveNewChildKey env metadata internal w =
     (case GetKey w (masterKeyID (hdChain w)) of
        None \<Rightarrow> Some (Inl (RuntimeError ''DeriveNewChildKey: Master key not found''))
      | Some key \<Rightarrow>
          if internal \<and> \<not> CanSupportFeature w FEATURE_HD_SPLIT then Some (Inl AssertionFailed)
          else
            (case DeriveNewChildKey_loop env internal (chain_child_key env key internal) metadata w of
               None \<Rightarrow> None
             | Some (childKey, metadata', w') \<Rightarrow>
                 if \<not> WriteHDChain_ok env
                 then Some (Inl (RuntimeError ''DeriveNewChildKey: Writing HD chain model failed''))
                 else Some (Inr (ExtKey_key env childKey,
                                 metadata'\<lparr>hdMasterKeyID := masterKeyID (hdChain w')\<rparr>,
                                 w'\<lparr>db_hdchain := Some (hdChain w')\<rparr>))))"

subsection \<open>\<^verbatim>\<open>MCWallet::GenerateNewKey\<close>\<close>

text \<open>\<^verbatim>\<open>SetMinVersion(nVersion)\<close> with the default arguments (no database handle, not
  explicit).\<close>

definition SetMinVersion :: "int \<Rightarrow> key_wallet \<Rightarrow> key_wallet" where
  "SetMinVersion nVersion w =
     (if nWalletVersion w \<ge> nVersion then w
      else
        let w1 = w\<lparr>nWalletVersion := nVersion\<rparr>;
            w2 = (if nVersion > nWalletMaxVersion w1 then w1\<lparr>nWalletMaxVersion := nVersion\<rparr> else w1)
        in if nWalletVersion w2 > 40000 then w2\<lparr>db_minversion := Some (nWalletVersion w2)\<rparr> else w2)"

definition UpdateTimeFirstKey :: "int \<Rightarrow> key_wallet \<Rightarrow> key_wallet" where
  "UpdateTimeFirstKey t w =
     (if t \<le> 1 then w\<lparr>nTimeFirstKey := 1\<rparr>
      else if nTimeFirstKey w = 0 \<or> t < nTimeFirstKey w then w\<lparr>nTimeFirstKey := t\<rparr>
      else w)"

text \<open>\<^verbatim>\<open>RemoveWatchOnly\<close> of a script that the wallet watches; its caller ignores the
  outcome.\<close>

definition RemoveWatchOnly_if_watched :: "MCScript \<Rightarrow> key_wallet \<Rightarrow> key_wallet" where
  "RemoveWatchOnly_if_watched script w =
     (if script \<in> setWatchOnly w
      then w\<lparr>setWatchOnly := setWatchOnly w - {script}, db_watchs := db_watchs w - {script}\<rparr>
      else w)"

text \<open>\<^verbatim>\<open>mapKeyMetadata[keyid]\<close>: the entry is created, with the default metadata, if it
  is missing.\<close>

definition mapKeyMetadata_index :: "MCKeyID \<Rightarrow> key_wallet \<Rightarrow> key_wallet" where
  "mapKeyMetadata_index keyid w =
     (case mapKeyMetadata w keyid of
        None \<Rightarrow> w\<lparr>mapKeyMetadata := (mapKeyMetadata w)(keyid \<mapsto> CKeyMetadata_init 0)\<rparr>
      | Some m \<Rightarrow> w)"

text \<open>
  \<^verbatim>\<open>AddKeyPubKeyWithDB\<close>. For an encrypted wallet the key store itself writes the
  encrypted key, which the model does not hold.
\<close>

definition AddKeyPubKeyWithDB :: "key_env \<Rightarrow> MCKey \<Rightarrow> MCPubKey \<Rightarrow> key_wallet \<Rightarrow> bool \<times> key_wallet" where
  "AddKeyPubKeyWithDB env secret pubkey w =
     (case KeyStore_AddKeyPubKey env secret pubkey w of
        None \<Rightarrow> (False, w)
      | Some w1 \<Rightarrow>
          let w2 = RemoveWatchOnly_if_watched (ScriptForDestination (PubKey_GetID env pubkey)) w1;
              w3 = RemoveWatchOnly_if_watched (ScriptForRawPubKey pubkey) w2
          in if \<not> fCryptedKeys w3 then
               let w4 = mapKeyMetadata_index (PubKey_GetID env pubkey) w3
               in if WriteKey_ok env
                  then (True, w4\<lparr>db_key := (db_key w4)
                           (pubkey \<mapsto> (secret, the (mapKeyMetadata w4 (PubKey_GetID env pubkey))))\<rparr>)
                  else (False, w4)
             else (True, w3))"

text \<open>The part of \<^verbatim>\<open>GenerateNewKey\<close> after the secret is there (lines 164 to 178).\<close>

definition GenerateNewKey_store :: "key_env \<Rightarrow> bool \<Rightarrow> MCKey \<Rightarrow> CKeyMetadata \<Rightarrow> key_wallet
    \<Rightarrow> wallet_abort + MCPubKey \<times> key_wallet" where
  "GenerateNewKey_store env fCompressed secret metadata w =
     (let w1 = (if fCompressed then SetMinVersion FEATURE_COMPRPUBKEY w else w);
          pubkey = GetPubKey env secret
      in if \<not> VerifyPubKey env secret pubkey then Inl AssertionFailed
         else
           let w2 = w1\<lparr>mapKeyMetadata := (mapKeyMetadata w1)(PubKey_GetID env pubkey \<mapsto> metadata)\<rparr>;
               w3 = UpdateTimeFirstKey (nCreateTime metadata) w2
           in case AddKeyPubKeyWithDB env secret pubkey w3 of
                (False, w4) \<Rightarrow> Inl (RuntimeError ''GenerateNewKey: AddKey failed'')
              | (True, w4) \<Rightarrow> Inr (pubkey, w4))"

definition GenerateNewKey :: "key_env \<Rightarrow> bool \<Rightarrow> key_wallet
    \<Rightarrow> (wallet_abort + MCPubKey \<times> key_wallet) option" where
  "GenerateNewKey env internal w =
     (let fCompressed = CanSupportFeature w FEATURE_COMPRPUBKEY;
          metadata = CKeyMetadata_init (GetTime env)
      in if IsHDEnabled w then
           (case DeriveNewChildKey env metadata
                   (if CanSupportFeature w FEATURE_HD_SPLIT then internal else False) w of
              None \<Rightarrow> None
            | Some (Inl e) \<Rightarrow> Some (Inl e)
            | Some (Inr (secret, metadata', w')) \<Rightarrow>
                Some (GenerateNewKey_store env fCompressed secret metadata' w'))
         else Some (GenerateNewKey_store env fCompressed (MakeNewKey env fCompressed) metadata w))"

subsection \<open>Notions for the statements about key generation\<close>

text \<open>The leaf key at index \<open>k\<close> of the external or of the internal chain of a master
  key: three hardened derivations, \<^verbatim>\<open>m/0'\<close>, then \<^verbatim>\<open>m/0'/0'\<close> or \<^verbatim>\<open>m/0'/1'\<close>, then
  the index \<open>k\<close> with the bit \<^verbatim>\<open>0x80000000\<close> set; and the id of its public key.\<close>

definition hardened_leaf :: "key_env \<Rightarrow> MCKey \<Rightarrow> bool \<Rightarrow> 32 word \<Rightarrow> MCKey" where
  "hardened_leaf env master internal k =
     ExtKey_key env (Derive env (chain_child_key env master internal) (k OR BIP32_HARDENED_KEY_LIMIT))"

definition leaf_id :: "key_env \<Rightarrow> MCKey \<Rightarrow> bool \<Rightarrow> 32 word \<Rightarrow> MCKeyID" where
  "leaf_id env master internal k = PubKey_GetID env (GetPubKey env (hardened_leaf env master internal k))"

definition chain_counter :: "bool \<Rightarrow> CHDChain \<Rightarrow> 32 word" where
  "chain_counter internal c = (if internal then nInternalChainCounter c else nExternalChainCounter c)"

definition set_chain_counter :: "bool \<Rightarrow> 32 word \<Rightarrow> key_wallet \<Rightarrow> key_wallet" where
  "set_chain_counter internal c w =
     (if internal then w\<lparr>hdChain := (hdChain w)\<lparr>nInternalChainCounter := c\<rparr>\<rparr>
      else w\<lparr>hdChain := (hdChain w)\<lparr>nExternalChainCounter := c\<rparr>\<rparr>)"

text \<open>The id of the public key of the child of a chain key at the counter \<open>k\<close>, and
  what one pass of the derivation loop at the counter \<open>k\<close> leaves: the child, the
  metadata with its key path, the wallet with the counter after \<open>k\<close>.\<close>

definition child_id :: "key_env \<Rightarrow> MCExtKey \<Rightarrow> 32 word \<Rightarrow> MCKeyID" where
  "child_id env ck k =
     PubKey_GetID env (GetPubKey env (ExtKey_key env (Derive env ck (k OR BIP32_HARDENED_KEY_LIMIT))))"

definition derived_at :: "key_env \<Rightarrow> bool \<Rightarrow> MCExtKey \<Rightarrow> CKeyMetadata \<Rightarrow> key_wallet \<Rightarrow> 32 word
    \<Rightarrow> MCExtKey \<times> CKeyMetadata \<times> key_wallet" where
  "derived_at env internal ck md w k =
     (Derive env ck (k OR BIP32_HARDENED_KEY_LIMIT),
      md\<lparr>hdKeypath := keypath internal (unat k)\<rparr>,
      set_chain_counter internal (k + 1) w)"

text \<open>The number that a string of decimal digits denotes.\<close>

definition decimal_value :: "string \<Rightarrow> nat" where
  "decimal_value s = foldl (\<lambda>a ch. 10 * a + (of_char ch - 48)) 0 s"

definition keypath_of :: "key_env \<Rightarrow> key_wallet \<Rightarrow> MCPubKey \<Rightarrow> string option" where
  "keypath_of env w pubkey = map_option hdKeypath (mapKeyMetadata w (PubKey_GetID env pubkey))"

subsection \<open>An example HD wallet\<close>

text \<open>Toy key primitives on numbers: a child is the parent times \<open>2^32\<close> plus the
  index, a public key is the key plus one, its id the public key itself. The wallet
  holds the master key 3 under the id 4; a second wallet supports the chain split; a
  third knows the external leaf 0 already.\<close>

definition toy_env :: key_env where
  "toy_env = \<lparr>SetMaster = (\<lambda>k. k), Derive = (\<lambda>e i. 4294967296 * e + unat i), ExtKey_key = (\<lambda>e. e),
      GetPubKey = (\<lambda>k. k + 1), PubKey_GetID = (\<lambda>p. p), VerifyPubKey = (\<lambda>k p. p = k + 1),
      MakeNewKey = (\<lambda>c. 9), GetTime = 1500000000, KeyStore_AddKeyPubKey_ok = True,
      WriteHDChain_ok = True, WriteKey_ok = True\<rparr>"

definition hd_wallet :: key_wallet where
  "hd_wallet = \<lparr>hdChain = \<lparr>nExternalChainCounter = 0, nInternalChainCounter = 0, masterKeyID = 4,
                            hd_nVersion = 1\<rparr>,
      mapKeys = [4 \<mapsto> 3], mapKeyMetadata = Map.empty, nWalletVersion = 60000,
      nWalletMaxVersion = 60000, nTimeFirstKey = 0, fCryptedKeys = False, setWatchOnly = {},
      db_hdchain = None, db_key = Map.empty, db_minversion = None, db_watchs = {}\<rparr>"

definition hd_split_wallet :: key_wallet where
  "hd_split_wallet = hd_wallet\<lparr>nWalletVersion := 139900, nWalletMaxVersion := 139900\<rparr>"

definition hd_wallet_knowing_leaf_0 :: key_wallet where
  "hd_wallet_knowing_leaf_0 =
     hd_wallet\<lparr>mapKeys := (mapKeys hd_wallet)(leaf_id toy_env 3 False 0 \<mapsto> hardened_leaf toy_env 3 False 0)\<rparr>"

section \<open>Coin selection\<close>

text \<open>\<^verbatim>\<open>MCOutput\<close>: an output of a wallet transaction offered for spending. Of the
  transaction \<^verbatim>\<open>tx\<close> the model keeps its hash, the values of its outputs and whether it
  is from the wallet (\<^verbatim>\<open>IsFromMe(ISMINE_ALL)\<close>).\<close>

record MCOutput =
  tx_GetHash :: uint256
  tx_vout_nValue :: "MCAmount list"
  tx_IsFromMe :: bool
  i :: "32 word"
  nDepth :: int
  fSpendable :: bool
  fSolvable :: bool
  fSafe :: bool

text \<open>\<^verbatim>\<open>MCInputCoin\<close>: an outpoint (hash and index) with the value of the output there.
  In a \<^verbatim>\<open>std::set\<close> two coins are the same when their outpoints are.\<close>

record MCInputCoin =
  coin_outpoint :: "uint256 \<times> nat"
  txout_nValue :: MCAmount

datatype coin_error = OutOfRange

text \<open>The constructor \<^verbatim>\<open>MCInputCoin(walletTx, i)\<close> takes the index as an
  \<^verbatim>\<open>unsigned int\<close> and throws \<^verbatim>\<open>std::out_of_range\<close> when the transaction has no such
  output.\<close>

definition MCInputCoin_new :: "MCOutput \<Rightarrow> coin_error + MCInputCoin" where
  "MCInputCoin_new output =
     (if unat (i output) \<ge> length (tx_vout_nValue output) then Inl OutOfRange
      else Inr \<lparr>coin_outpoint = (tx_GetHash output, unat (i output)),
                txout_nValue = tx_vout_nValue output ! unat (i output)\<rparr>)"

text \<open>
  What coin selection takes from outside: the order in which \<^verbatim>\<open>random_shuffle\<close> leaves
  the coins, the mempool's \<^verbatim>\<open>TransactionWithinChainLimit\<close>, the constant \<^verbatim>\<open>MIN_CHANGE\<close>
  (declared as \<^verbatim>\<open>CENT\<close>, whose value is not among the sources), and the random bits of
  the two \<^verbatim>\<open>FastRandomContext\<close>s of the approximation (the bit at a position of the
  first and of the second context).
\<close>

record coin_env =
  random_shuffle :: "MCOutput list \<Rightarrow> MCOutput list"
  TransactionWithinChainLimit :: "uint256 \<Rightarrow> nat \<Rightarrow> bool"
  MIN_CHANGE :: MCAmount
  insecure_rand :: "nat \<Rightarrow> nat \<Rightarrow> bool"

subsection \<open>\<^verbatim>\<open>ApproximateBestSubset\<close>\<close>

record subset_search =
  vfIncluded :: "bool list"
  nTotal :: MCAmount
  fReachedTarget :: bool
  vfBest :: "bool list"
  nBest :: MCAmount
  randpos :: nat

text \<open>The innermost loop, over the indices of \<^verbatim>\<open>vValue\<close>, in the pass \<open>nPass\<close>.\<close>

fun ApproximateBestSubset_coins :: "(nat \<Rightarrow> bool) \<Rightarrow> MCAmount list \<Rightarrow> MCAmount \<Rightarrow> nat \<Rightarrow> nat list
    \<Rightarrow> subset_search \<Rightarrow> subset_search" where
  "ApproximateBestSubset_coins rand vValue nTargetValue nPass [] s = s"
| "ApproximateBestSubset_coins rand vValue nTargetValue nPass (k # ks) s =
     (let take = (if nPass = 0 then rand (randpos s) else \<not> vfIncluded s ! k);
          s1 = (if nPass = 0 then s\<lparr>randpos := randpos s + 1\<rparr> else s)
      in if take then
           let s2 = s1\<lparr>nTotal := nTotal s1 + vValue ! k, vfIncluded := (vfIncluded s1)[k := True]\<rparr>
           in if nTotal s2 \<ge> nTargetValue then
                let s3 = s2\<lparr>fReachedTarget := True\<rparr>;
                    s4 = (if nTotal s3 < nBest s3
                          then s3\<lparr>nBest := nTotal s3, vfBest := vfIncluded s3\<rparr> else s3)
                in ApproximateBestSubset_coins rand vValue nTargetValue nPass ks
                     (s4\<lparr>nTotal := nTotal s4 - vValue ! k, vfIncluded := (vfIncluded s4)[k := False]\<rparr>)
              else ApproximateBestSubset_coins rand vValue nTargetValue nPass ks s2
         else ApproximateBestSubset_coins rand vValue nTargetValue nPass ks s1)"

text \<open>The two passes of one repetition: the second runs only if the first has not
  reached the target.\<close>

definition ApproximateBestSubset_passes :: "(nat \<Rightarrow> bool) \<Rightarrow> MCAmount list \<Rightarrow> MCAmount
    \<Rightarrow> subset_search \<Rightarrow> subset_search" where
  "ApproximateBestSubset_passes rand vValue nTargetValue s =
     (let s0 = s\<lparr>vfIncluded := replicate (length vValue) False, nTotal := 0, fReachedTarget := False\<rparr>;
          s1 = ApproximateBestSubset_coins rand vValue nTargetValue 0 [0..<length vValue] s0
      in if fReachedTarget s1 then s1
         else ApproximateBestSubset_coins rand vValue nTargetValue 1 [0..<length vValue] s1)"

text \<open>The repetitions: at most \<open>iterations\<close>, and none once the best sum is the
  target.\<close>

fun ApproximateBestSubset_reps :: "(nat \<Rightarrow> bool) \<Rightarrow> MCAmount list \<Rightarrow> MCAmount \<Rightarrow> nat
    \<Rightarrow> subset_search \<Rightarrow> subset_search" where
  "ApproximateBestSubset_reps rand vValue nTargetValue 0 s = s"
| "ApproximateBestSubset_reps rand vValue nTargetValue (Suc n) s =
     (if nBest s \<noteq> nTargetValue
      then ApproximateBestSubset_reps rand vValue nTargetValue n
             (ApproximateBestSubset_passes rand vValue nTargetValue s)
      else s)"

text \<open>\<^verbatim>\<open>ApproximateBestSubset\<close> with its default of 1000 iterations, on the values of
  \<^verbatim>\<open>vValue\<close>: the flags \<^verbatim>\<open>vfBest\<close> and the sum \<^verbatim>\<open>nBest\<close>.\<close>

definition ApproximateBestSubset :: "(nat \<Rightarrow> bool) \<Rightarrow> MCAmount list \<Rightarrow> MCAmount \<Rightarrow> MCAmount
    \<Rightarrow> bool list \<times> MCAmount" where
  "ApproximateBestSubset rand vValue nTotalLower nTargetValue =
     (let s = ApproximateBestSubset_reps rand vValue nTargetValue 1000
                \<lparr>vfIncluded = [], nTotal = 0, fReachedTarget = False,
                 vfBest = replicate (length vValue) True, nBest = nTotalLower, randpos = 0\<rparr>
      in (vfBest s, nBest s))"

subsection \<open>\<^verbatim>\<open>MCWallet::SelectCoinsMinConf\<close>\<close>

text \<open>The three tests that let an output through (lines 2549 to 2558).\<close>

definition passes_filters :: "coin_env \<Rightarrow> int \<Rightarrow> int \<Rightarrow> nat \<Rightarrow> MCOutput \<Rightarrow> bool" where
  "passes_filters env nConfMine nConfTheirs nMaxAncestors output =
     (fSpendable output
      \<and> \<not> nDepth output < (if tx_IsFromMe output then nConfMine else nConfTheirs)
      \<and> TransactionWithinChainLimit env (tx_GetHash output) nMaxAncestors)"

text \<open>What the loop over the coins has gathered: the coins below the target plus
  \<^verbatim>\<open>MIN_CHANGE\<close>, their total, and the lowest of the larger coins.\<close>

record coin_scan =
  vValue :: "MCInputCoin list"
  nTotalLower :: MCAmount
  coinLowestLarger :: "MCInputCoin option"

datatype scan_result = Matched MCInputCoin | Scanned coin_scan

fun SelectCoinsMinConf_scan :: "coin_env \<Rightarrow> MCAmount \<Rightarrow> int \<Rightarrow> int \<Rightarrow> nat \<Rightarrow> MCOutput list
    \<Rightarrow> coin_scan \<Rightarrow> coin_error + scan_result" where
  "SelectCoinsMinConf_scan env nTargetValue nConfMine nConfTheirs nMaxAncestors [] s = Inr (Scanned s)"
| "SelectCoinsMinConf_scan env nTargetValue nConfMine nConfTheirs nMaxAncestors (output # rest) s =
     (if \<not> fSpendable output
      then SelectCoinsMinConf_scan env nTargetValue nConfMine nConfTheirs nMaxAncestors rest s
      else if nDepth output < (if tx_IsFromMe output then nConfMine else nConfTheirs)
      then SelectCoinsMinConf_scan env nTargetValue nConfMine nConfTheirs nMaxAncestors rest s
      else if \<not> TransactionWithinChainLimit env (tx_GetHash output) nMaxAncestors
      then SelectCoinsMinConf_scan env nTargetValue nConfMine nConfTheirs nMaxAncestors rest s
      else
        (case MCInputCoin_new output of
           Inl e \<Rightarrow> Inl e
         | Inr coin \<Rightarrow>
             if txout_nValue coin = nTargetValue then Inr (Matched coin)
             else if txout_nValue coin < nTargetValue + MIN_CHANGE env
             then SelectCoinsMinConf_scan env nTargetValue nConfMine nConfTheirs nMaxAncestors rest
                    (s\<lparr>vValue := vValue s @ [coin], nTotalLower := nTotalLower s + txout_nValue coin\<rparr>)
             else if coinLowestLarger s = None
                     \<or> txout_nValue coin < txout_nValue (the (coinLowestLarger s))
             then SelectCoinsMinConf_scan env nTargetValue nConfMine nConfTheirs nMaxAncestors rest
                    (s\<lparr>coinLowestLarger := Some coin\<rparr>)
             else SelectCoinsMinConf_scan env nTargetValue nConfMine nConfTheirs nMaxAncestors rest s))"

text \<open>\<^verbatim>\<open>setCoinsRet.insert(coin); nValueRet += coin.txout.nValue\<close>: the set, kept as
  the list of its coins in the order of their arrival, takes no second coin at an
  outpoint; the value is added in any case.\<close>

definition insert_coin :: "MCInputCoin \<Rightarrow> MCInputCoin list \<times> MCAmount \<Rightarrow> MCInputCoin list \<times> MCAmount" where
  "insert_coin coin ret =
     (if coin_outpoint coin \<in> coin_outpoint ` set (fst ret) then fst ret else fst ret @ [coin],
      snd ret + txout_nValue coin)"

text \<open>
  \<^verbatim>\<open>SelectCoinsMinConf\<close>: the returned flag with \<^verbatim>\<open>setCoinsRet\<close> and \<^verbatim>\<open>nValueRet\<close>.
  \<^verbatim>\<open>std::sort\<close> leaves the order of coins of equal value open; the model sorts stably.
\<close>

definition SelectCoinsMinConf :: "coin_env \<Rightarrow> MCAmount \<Rightarrow> int \<Rightarrow> int \<Rightarrow> nat \<Rightarrow> MCOutput list
    \<Rightarrow> coin_error + bool \<times> MCInputCoin list \<times> MCAmount" where
  "SelectCoinsMinConf env nTargetValue nConfMine nConfTheirs nMaxAncestors vCoins =
     (case SelectCoinsMinConf_scan env nTargetValue nConfMine nConfTheirs nMaxAncestors
             (random_shuffle env vCoins) \<lparr>vValue = [], nTotalLower = 0, coinLowestLarger = None\<rparr> of
        Inl e \<Rightarrow> Inl e
      | Inr (Matched coin) \<Rightarrow> Inr (True, insert_coin coin ([], 0))
      | Inr (Scanned s) \<Rightarrow>
          if nTotalLower s = nTargetValue
          then Inr (True, fold insert_coin (vValue s) ([], 0))
          else if nTotalLower s < nTargetValue
          then (case coinLowestLarger s of
                  None \<Rightarrow> Inr (False, [], 0)
                | Some coin \<Rightarrow> Inr (True, insert_coin coin ([], 0)))
          else
            let sorted = rev (sort_key txout_nValue (vValue s));
                first = ApproximateBestSubset (insecure_rand env 0) (map txout_nValue sorted)
                          (nTotalLower s) nTargetValue;
                best = (if snd first \<noteq> nTargetValue \<and> nTotalLower s \<ge> nTargetValue + MIN_CHANGE env
                        then ApproximateBestSubset (insecure_rand env 1) (map txout_nValue sorted)
                               (nTotalLower s) (nTargetValue + MIN_CHANGE env)
                        else first)
            in if coinLowestLarger s \<noteq> None
                  \<and> ((snd best \<noteq> nTargetValue \<and> snd best < nTargetValue + MIN_CHANGE env)
                       \<or> txout_nValue (the (coinLowestLarger s)) \<le> snd best)
               then Inr (True, insert_coin (the (coinLowestLarger s)) ([], 0))
               else Inr (True, fold insert_coin (map fst (filter snd (zip sorted (fst best)))) ([], 0)))"

subsection \<open>Notions for the statements about coin selection\<close>

text \<open>The candidates of a call: the outputs that pass the filters, in the order in
  which they are visited; and the coin of an output.\<close>

definition candidates :: "coin_env \<Rightarrow> int \<Rightarrow> int \<Rightarrow> nat \<Rightarrow> MCOutput list \<Rightarrow> MCOutput list" where
  "candidates env nConfMine nConfTheirs nMaxAncestors vCoins =
     filter (passes_filters env nConfMine nConfTheirs nMaxAncestors) (random_shuffle env vCoins)"

definition coin_of :: "MCOutput \<Rightarrow> MCInputCoin" where
  "coin_of output = \<lparr>coin_outpoint = (tx_GetHash output, unat (i output)),
                     txout_nValue = tx_vout_nValue output ! unat (i output)\<rparr>"

definition has_output :: "MCOutput \<Rightarrow> bool" where
  "has_output output = (unat (i output) < length (tx_vout_nValue output))"

text \<open>The lowest of the coins of a list, the first one among equals, starting from
  the lowest so far.\<close>

definition lowest_of :: "MCInputCoin option \<Rightarrow> MCInputCoin list \<Rightarrow> MCInputCoin option" where
  "lowest_of lowest coins =
     fold (\<lambda>coin l. if l = None \<or> txout_nValue coin < txout_nValue (the l) then Some coin else l)
       coins lowest"

subsection \<open>An example: outputs of the values 1, 4 and 9\<close>

definition plain_output :: "uint256 \<Rightarrow> MCAmount \<Rightarrow> MCOutput" where
  "plain_output h v = \<lparr>tx_GetHash = h, tx_vout_nValue = [v], tx_IsFromMe = True, i = 0, nDepth = 6,
      fSpendable = True, fSolvable = True, fSafe = True\<rparr>"

definition three_coins :: "MCOutput list" where
  "three_coins = [plain_output 11 1, plain_output 12 4, plain_output 13 9]"

definition plain_coin_env :: coin_env where
  "plain_coin_env = \<lparr>random_shuffle = rev, TransactionWithinChainLimit = (\<lambda>h n. True),
      MIN_CHANGE = 2, insecure_rand = (\<lambda>c n. even n)\<rparr>"

section \<open>The peer address manager\<close>

text \<open>
  Modelled from the spec: the address manager (\<^verbatim>\<open>addrman.h\<close>, \<^verbatim>\<open>addrman.cpp\<close>), of which the
  sources hold only the tests (\<^verbatim>\<open>src/test/addrman_tests.cpp\<close>). The state is the spec's:
  "the new-address table, a grid of buckets \<open>\<times>\<close> per-bucket slots holding record
  identifiers; the tried-address table, a second grid with the same shape; and an
  id\<open>\<rightarrow>\<close>record map". An address is an IP with a port; a record holds the address, its
  source, its time stamp and whether it is in the tried table.
\<close>

type_synonym CNetAddr = nat
type_synonym CService = "CNetAddr \<times> nat"

record CAddrInfo =
  ai_addr :: CService
  ai_source :: CNetAddr
  ai_nTime :: int
  fInTried :: bool

record CAddrMan =
  mapInfo :: "(nat \<times> CAddrInfo) list"
  vvNew :: "nat \<times> nat \<rightharpoonup> nat"
  vvTried :: "nat \<times> nat \<rightharpoonup> nat"

text \<open>
  What the spec leaves open: when an address is "terrible" ("policy inherited from the
  boundary connection manager and not further specified here"), the tried bucket and the
  slot of an address ("hash functions of (manager key, address group, ...)"), the order
  in which \<^verbatim>\<open>GetAddr\<close> samples the records, and the random number of \<^verbatim>\<open>Select\<close>.
\<close>

record addrman_env =
  IsTerrible :: "CAddrInfo \<Rightarrow> bool"
  GetTriedBucket :: "CService \<Rightarrow> nat"
  GetBucketPosition :: "nat \<Rightarrow> CService \<Rightarrow> nat"
  sample_order :: "nat \<Rightarrow> nat list"
  RandomInt :: "nat \<Rightarrow> nat"

text \<open>Modelled from the spec: \<^verbatim>\<open>size()\<close>, the "count" of the records.\<close>

definition addrman_size :: "CAddrMan \<Rightarrow> nat" where
  "addrman_size m = length (mapInfo m)"

text \<open>Modelled from the spec: \<^verbatim>\<open>Find(address)\<close>, "direct record lookup". The tests call
  it with an IP (\<^verbatim>\<open>Find(const CellNetAddr& addr, ...)\<close>), and two addresses of one IP
  make one record (\<^verbatim>\<open>addrman_ports\<close>: after adding \<^verbatim>\<open>250.1.1.1:8333\<close> and
  \<^verbatim>\<open>250.1.1.1:8334\<close> the size is 1).\<close>

definition Find :: "CAddrMan \<Rightarrow> CNetAddr \<Rightarrow> (nat \<times> CAddrInfo) option" where
  "Find m ip = find (\<lambda>e. fst (ai_addr (snd e)) = ip) (mapInfo m)"

text \<open>
  Modelled from the spec: \<^verbatim>\<open>Good(address)\<close> "promotes a previously-added new-table entry
  to the tried table at its computed tried-bucket/slot; if the target slot is occupied
  [...] the call is a no-op for promotion purposes (current entry keeps its place)", and
  "an address differing only by port does not get promoted into tried". In the test
  \<^verbatim>\<open>addrman_ports\<close> the tried table is empty when \<^verbatim>\<open>Good(250.1.1.1:8334)\<close> leaves the record
  \<^verbatim>\<open>250.1.1.1:8333\<close> in the new table, so the call does nothing as soon as the port is not
  that of the record.
\<close>

definition Good :: "addrman_env \<Rightarrow> CService \<Rightarrow> CAddrMan \<Rightarrow> CAddrMan" where
  "Good env addr m =
     (case Find m (fst addr) of
        None \<Rightarrow> m
      | Some (nId, info) \<Rightarrow>
          if ai_addr info \<noteq> addr then m
          else if fInTried info then m
          else
            let bucket = GetTriedBucket env addr;
                pos = GetBucketPosition env bucket addr
            in (case vvTried m (bucket, pos) of
                  Some occupant \<Rightarrow> m
                | None \<Rightarrow>
                    m\<lparr>mapInfo := map (\<lambda>e. if fst e = nId then (fst e, (snd e)\<lparr>fInTried := True\<rparr>) else e)
                                    (mapInfo m),
                      vvNew := (\<lambda>k. if vvNew m k = Some nId then None else vvNew m k),
                      vvTried := (vvTried m)((bucket, pos) \<mapsto> nId)\<rparr>))"

text \<open>
  Modelled from the spec: \<^verbatim>\<open>Select(newOnly)\<close> gives "an address drawn from tried and/or
  new tables; returns the IPv6 unspecified wildcard with port 0 when the manager is empty
  or, with \<^verbatim>\<open>newOnly = true\<close>, when the new table holds nothing". The wildcard is the
  address \<open>(0, 0)\<close>.
\<close>

definition Select :: "addrman_env \<Rightarrow> bool \<Rightarrow> CAddrMan \<Rightarrow> CService" where
  "Select env newOnly m =
     (let pool = filter (\<lambda>e. \<not> newOnly \<or> \<not> fInTried (snd e)) (mapInfo m)
      in if pool = [] then (0, 0)
         else ai_addr (snd (pool ! (RandomInt env (length pool) mod length pool))))"

text \<open>
  Modelled from the spec: \<^verbatim>\<open>GetAddr()\<close> gives "a uniformly sampled subset of all stored
  addresses sized at floor(23% \<open>\<times>\<close> total count) [...]; excludes addresses deemed terrible".
  The records are taken in the order of the sample, the terrible ones are left out, and
  the quota bounds how many are taken.
\<close>

definition GetAddr :: "addrman_env \<Rightarrow> CAddrMan \<Rightarrow> CService list" where
  "GetAddr env m =
     (let nNodes = 23 * addrman_size m div 100;
          sampled = map (\<lambda>k. snd (mapInfo m ! k)) (sample_order env (addrman_size m))
      in take nNodes (map ai_addr (filter (\<lambda>info. \<not> IsTerrible env info) sampled)))"

subsection \<open>Example managers\<close>

text \<open>A manager with \<open>n\<close> records, none in the tried table; an environment in which the
  sample runs through the records in their order and in which the addresses with a time
  stamp before 100 are terrible.\<close>

definition fresh_record :: "int \<Rightarrow> nat \<Rightarrow> nat \<times> CAddrInfo" where
  "fresh_record t k = (k, \<lparr>ai_addr = (1000 + k, 8333), ai_source = 5, ai_nTime = t, fInTried = False\<rparr>)"

definition manager_of :: "int \<Rightarrow> nat \<Rightarrow> CAddrMan" where
  "manager_of t n = \<lparr>mapInfo = map (fresh_record t) [0..<n], vvNew = (\<lambda>k. None), vvTried = (\<lambda>k. None)\<rparr>"

definition plain_addrman_env :: addrman_env where
  "plain_addrman_env = \<lparr>IsTerrible = (\<lambda>info. ai_nTime info < 100), GetTriedBucket = (\<lambda>a. fst a mod 256),
      GetBucketPosition = (\<lambda>b a. fst a mod 64), sample_order = (\<lambda>n. [0..<n]), RandomInt = (\<lambda>n. 0)\<rparr>"

text \<open>The manager of the test \<^verbatim>\<open>addrman_ports\<close>: the one record \<^verbatim>\<open>250.1.1.1:8333\<close>, in the
  new table. The IP is written as the number \<open>250 * 2^24 + 2^16 + 2^8 + 1\<close>.\<close>

definition ports_manager :: CAddrMan where
  "ports_manager =
     \<lparr>mapInfo = [(0, \<lparr>ai_addr = (4194369793, 8333), ai_source = 4227990018, ai_nTime = 500,
                       fInTried = False\<rparr>)],
      vvNew = [(3, 7) \<mapsto> 0], vvTried = (\<lambda>k. None)\<rparr>"

chapter \<open>Verification\<close>

section \<open>The floor of the iteration count\<close>

lemma floor_25000_ge: "25000 \<le> floor_25000 n"
  by (simp add: floor_25000_def not_less)

lemma db_mkey_Lock: "db_mkey (Lock w) = db_mkey w"
  by (simp add: Lock_def)

lemma KeyStore_Unlock_db_mkey: "KeyStore_Unlock env key w = (b, w') \<Longrightarrow> db_mkey w' = db_mkey w"
  by (auto simp: KeyStore_Unlock_def split: if_splits)

lemma KeyStore_Unlock_False: "KeyStore_Unlock env key w = (False, w') \<Longrightarrow> w' = w"
  by (auto simp: KeyStore_Unlock_def split: if_splits)

lemma KeyStore_Unlock_True:
  "KeyStore_Unlock env key w = (True, w') \<Longrightarrow>
     w' = w\<lparr>fLocked := False\<rparr> \<and> fUseCrypto w \<and> KeyStore_accepts env key"
  by (auto simp: KeyStore_Unlock_def split: if_splits)

lemma Unlock_loop_db_mkey: "db_mkey (snd (Unlock_loop env pass mks w)) = db_mkey w"
  by (induction env pass mks w rule: Unlock_loop.induct)
     (auto simp: KeyStore_Unlock_def split: option.splits prod.splits bool.splits if_splits)

lemma EncryptWallet_persists:
  "EncryptWallet fp env pass w = Inr (True, w') \<Longrightarrow>
     \<exists>mk. db_mkey w' = (db_mkey w)(Suc (nMasterKeyMaxID w) \<mapsto> mk) \<and> 25000 \<le> nDeriveIterations mk"
  by (auto simp: EncryptWallet_def Let_def EncryptWallet_iterations_def floor_25000_ge db_mkey_Lock
        Unlock_def Unlock_loop_db_mkey
      split: option.splits if_splits prod.splits bool.splits)

lemma ChangeWalletPassphrase_loop_persists:
  "ChangeWalletPassphrase_loop fp env old new fwl before mks w = (True, w') \<Longrightarrow>
     \<exists>k mk. k \<in> fst ` set mks \<and> db_mkey w' = (db_mkey w)(k \<mapsto> mk) \<and> 25000 \<le> nDeriveIterations mk"
proof (induction fp env old new fwl before mks w rule: ChangeWalletPassphrase_loop.induct)
  case (1 fp env strOld strNew fWasLocked before w)
  then show ?case by simp
next
  case (2 fp env strOld strNew fWasLocked before k mk rest w)
  from "2.prems" obtain key where
    key: "SetKeyFromPassphrase env strOld (vchSalt mk) (nDeriveIterations mk) (nDerivationMethod mk) = Some key"
    by (auto split: option.splits)
  from "2.prems" key obtain vmk where dec: "Decrypt env key (vchCryptedKey mk) = (True, vmk)"
    by (auto split: prod.splits bool.splits)
  obtain b w1 where ksu: "KeyStore_Unlock env vmk w = (b, w1)"
    by (cases "KeyStore_Unlock env vmk w")
  have db1: "db_mkey w1 = db_mkey w"
    using ksu by (rule KeyStore_Unlock_db_mkey)
  show ?case
  proof (cases b)
    case False
    with "2.prems" key dec ksu
    have "ChangeWalletPassphrase_loop fp env strOld strNew fWasLocked (before @ [(k, mk)]) rest w1 = (True, w')"
      by simp
    with "2.IH"[OF key dec[symmetric] _ ksu[symmetric]] False
    have "\<exists>k' mk'. k' \<in> fst ` set rest \<and> db_mkey w' = (db_mkey w1)(k' \<mapsto> mk') \<and> 25000 \<le> nDeriveIterations mk'"
      by blast
    then obtain k' mk' where
      "k' \<in> fst ` set rest" "db_mkey w' = (db_mkey w1)(k' \<mapsto> mk')" "25000 \<le> nDeriveIterations mk'"
      by blast
    then have "k' \<in> fst ` set ((k, mk) # rest) \<and> db_mkey w' = (db_mkey w)(k' \<mapsto> mk')
        \<and> 25000 \<le> nDeriveIterations mk'"
      using db1 by simp
    then show ?thesis by blast
  next
    case True
    let ?mk1 = "mk\<lparr>nDeriveIterations := ChangeWalletPassphrase_iterations fp env (nDeriveIterations mk)\<rparr>"
    from "2.prems" key dec ksu True obtain key' where
      key': "SetKeyFromPassphrase env strNew (vchSalt ?mk1) (nDeriveIterations ?mk1) (nDerivationMethod ?mk1) = Some key'"
      by (auto simp: Let_def split: option.splits)
    from "2.prems" key dec ksu True key' obtain crypted where
      enc: "Encrypt env key' vmk = (True, crypted)"
      by (auto simp: Let_def split: prod.splits bool.splits)
    let ?mk2 = "?mk1\<lparr>vchCryptedKey := crypted\<rparr>"
    from "2.prems" key dec ksu True key' enc have "db_mkey w' = (db_mkey w1)(k \<mapsto> ?mk2)"
      by (auto simp: Let_def db_mkey_Lock)
    then have "k \<in> fst ` set ((k, mk) # rest) \<and> db_mkey w' = (db_mkey w)(k \<mapsto> ?mk2)
        \<and> 25000 \<le> nDeriveIterations ?mk2"
      using db1 by (simp add: ChangeWalletPassphrase_iterations_def floor_25000_ge)
    then show ?thesis by blast
  qed
qed

text \<open>
  C5. Whenever \<^verbatim>\<open>EncryptWallet\<close> or \<^verbatim>\<open>ChangeWalletPassphrase\<close> returns true, the
  master-key record that the call hands to the database has an iteration count of at
  least 25000, whatever the clock readings and whatever the double arithmetic of the two
  trial derivations yields: \<^verbatim>\<open>EncryptWallet\<close> writes it under the next master-key id,
  \<^verbatim>\<open>ChangeWalletPassphrase\<close> under the id of one of the wallet's master keys.
\<close>

theorem derive_iterations_floor:
  "(EncryptWallet fp env pass w = Inr (True, w') \<longrightarrow>
      (\<exists>mk. db_mkey w' = (db_mkey w)(Suc (nMasterKeyMaxID w) \<mapsto> mk) \<and> 25000 \<le> nDeriveIterations mk))
   \<and> (ChangeWalletPassphrase fp env old new v = (True, v') \<longrightarrow>
      (\<exists>k mk. k \<in> fst ` set (mapMasterKeys v) \<and> db_mkey v' = (db_mkey v)(k \<mapsto> mk)
         \<and> 25000 \<le> nDeriveIterations mk))"
proof (intro conjI impI)
  assume "EncryptWallet fp env pass w = Inr (True, w')"
  then show "\<exists>mk. db_mkey w' = (db_mkey w)(Suc (nMasterKeyMaxID w) \<mapsto> mk) \<and> 25000 \<le> nDeriveIterations mk"
    by (rule EncryptWallet_persists)
next
  assume "ChangeWalletPassphrase fp env old new v = (True, v')"
  then have "\<exists>k mk. k \<in> fst ` set (mapMasterKeys v) \<and> db_mkey v' = (db_mkey (Lock v))(k \<mapsto> mk)
      \<and> 25000 \<le> nDeriveIterations mk"
    unfolding ChangeWalletPassphrase_def Let_def by (rule ChangeWalletPassphrase_loop_persists)
  then show "\<exists>k mk. k \<in> fst ` set (mapMasterKeys v) \<and> db_mkey v' = (db_mkey v)(k \<mapsto> mk)
      \<and> 25000 \<le> nDeriveIterations mk"
    by (simp add: db_mkey_Lock)
qed

lemmas crypto_run_defs =
  EncryptWallet_def ChangeWalletPassphrase_def IsCrypted_def IsLocked_def Lock_def Unlock_def
  KeyStore_Unlock_def EncryptWallet_iterations_def ChangeWalletPassphrase_iterations_def
  second_trial_def floor_25000_def elapsed_def Let_def
  plain_wallet_def unlocked_wallet_def steady_env_def encrypt_fails_env_def decrypt_fails_env_def
  int_double_ops_def

theorem derive_iterations_floor_witness:
  "(\<exists>w'. EncryptWallet int_double_ops steady_env ''pw'' plain_wallet = Inr (True, w')
      \<and> (\<exists>mk. db_mkey w' = (db_mkey plain_wallet)(Suc (nMasterKeyMaxID plain_wallet) \<mapsto> mk)
            \<and> 25000 \<le> nDeriveIterations mk))
   \<and> (\<exists>w''. ChangeWalletPassphrase int_double_ops steady_env ''old'' ''new'' unlocked_wallet = (True, w'')
      \<and> (\<exists>k mk. k \<in> fst ` set (mapMasterKeys unlocked_wallet)
            \<and> db_mkey w'' = (db_mkey unlocked_wallet)(k \<mapsto> mk) \<and> 25000 \<le> nDeriveIterations mk))"
proof -
  obtain w' where e: "EncryptWallet int_double_ops steady_env ''pw'' plain_wallet = Inr (True, w')"
    by (simp add: crypto_run_defs)
  obtain w'' where
    c: "ChangeWalletPassphrase int_double_ops steady_env ''old'' ''new'' unlocked_wallet = (True, w'')"
    by (simp add: crypto_run_defs)
  from e c derive_iterations_floor [of int_double_ops steady_env "''pw''" plain_wallet w'
      "''old''" "''new''" unlocked_wallet w'']
  show ?thesis
    by blast
qed

section \<open>The lock state after a passphrase change\<close>

lemma ChangeWalletPassphrase_loop_lock:
  "fUseCrypto w \<Longrightarrow> fLocked w \<Longrightarrow>
   ChangeWalletPassphrase_loop fp env old new fwl before mks w = (r, w') \<Longrightarrow>
     (r \<longrightarrow> IsLocked w' = fwl) \<and> (\<not> opens_master_key env old mks \<longrightarrow> \<not> r \<and> IsLocked w')"
proof (induction fp env old new fwl before mks w rule: ChangeWalletPassphrase_loop.induct)
  case (1 fp env strOld strNew fWasLocked before w)
  then show ?case by (auto simp: IsLocked_def)
next
  case (2 fp env strOld strNew fWasLocked before k mk rest w)
  show ?case
  proof (cases "SetKeyFromPassphrase env strOld (vchSalt mk) (nDeriveIterations mk) (nDerivationMethod mk)")
    case None
    with 2 show ?thesis by (auto simp: IsLocked_def)
  next
    case (Some key)
    obtain ok vmk where dec: "Decrypt env key (vchCryptedKey mk) = (ok, vmk)"
      by (cases "Decrypt env key (vchCryptedKey mk)")
    show ?thesis
    proof (cases ok)
      case False
      with 2 Some dec show ?thesis by (auto simp: IsLocked_def)
    next
      case True
      obtain b w1 where ksu: "KeyStore_Unlock env vmk w = (b, w1)"
        by (cases "KeyStore_Unlock env vmk w")
      show ?thesis
      proof (cases b)
        case False
        with ksu have w1: "w1 = w"
          by (simp add: KeyStore_Unlock_False)
        from ksu False "2.prems"(1) have na: "\<not> KeyStore_accepts env vmk"
          by (auto simp: KeyStore_Unlock_def split: if_splits)
        from "2.prems" Some dec True ksu False
        have step: "ChangeWalletPassphrase_loop fp env strOld strNew fWasLocked (before @ [(k, mk)]) rest w1 = (r, w')"
          by simp
        from "2.IH"[OF Some dec[symmetric] _ ksu[symmetric] _ _ _ step] True False w1 "2.prems"(1,2)
        have "(r \<longrightarrow> IsLocked w' = fWasLocked) \<and> (\<not> opens_master_key env strOld rest \<longrightarrow> \<not> r \<and> IsLocked w')"
          by blast
        then show ?thesis using Some dec True na by simp
      next
        case b: True
        with ksu have w1: "w1 = w\<lparr>fLocked := False\<rparr>" and acc: "KeyStore_accepts env vmk"
          by (auto dest: KeyStore_Unlock_True)
        have op: "opens_master_key env strOld ((k, mk) # rest)"
          using Some dec True acc by simp
        from "2.prems" Some dec True ksu b w1 have "r \<longrightarrow> IsLocked w' = fWasLocked"
          by (auto simp: Let_def IsLocked_def Lock_def split: option.splits prod.splits bool.splits if_splits)
        with op show ?thesis by blast
      qed
    qed
  qed
qed

text \<open>
  C10, as stated, fails: a false return does not always leave the wallet locked. With a
  crypter whose \<^verbatim>\<open>Encrypt\<close> fails, the old passphrase opens the master key, the key
  store is unlocked, and the \<^verbatim>\<open>return false\<close> after the failed re-encryption leaves it
  so.
\<close>

theorem ChangeWalletPassphrase_false_unlocked:
  "\<not> fst (ChangeWalletPassphrase int_double_ops encrypt_fails_env ''old'' ''new'' unlocked_wallet)
   \<and> \<not> IsLocked (snd (ChangeWalletPassphrase int_double_ops encrypt_fails_env ''old'' ''new'' unlocked_wallet))"
  by (simp add: crypto_run_defs)

text \<open>
  C10, amended. On an encrypted wallet: when the old passphrase opens no master key (the
  loop meets a failing key derivation or decryption, or the key store refuses every
  decrypted key), \<^verbatim>\<open>ChangeWalletPassphrase\<close> returns false and leaves the wallet
  locked, even if it was unlocked before the call; when it returns true, the wallet is
  locked exactly if it was locked before the call.
\<close>

theorem ChangeWalletPassphrase_lock_state:
  assumes "IsCrypted w"
    and "ChangeWalletPassphrase fp env old new w = (r, w')"
  shows "(r \<longrightarrow> IsLocked w' = IsLocked w)
    \<and> (\<not> opens_master_key env old (mapMasterKeys w) \<longrightarrow> \<not> r \<and> IsLocked w')"
proof -
  from assms(1) have "fUseCrypto (Lock w)" and "fLocked (Lock w)"
    by (simp_all add: IsCrypted_def Lock_def)
  moreover from assms(2)
  have "ChangeWalletPassphrase_loop fp env old new (IsLocked w) [] (mapMasterKeys w) (Lock w) = (r, w')"
    by (simp add: ChangeWalletPassphrase_def Let_def)
  ultimately show ?thesis
    by (rule ChangeWalletPassphrase_loop_lock)
qed

theorem ChangeWalletPassphrase_lock_state_witness:
  "IsCrypted unlocked_wallet \<and> \<not> IsLocked unlocked_wallet
   \<and> fst (ChangeWalletPassphrase int_double_ops steady_env ''old'' ''new'' unlocked_wallet)
   \<and> \<not> IsLocked (snd (ChangeWalletPassphrase int_double_ops steady_env ''old'' ''new'' unlocked_wallet))
   \<and> \<not> opens_master_key decrypt_fails_env ''old'' (mapMasterKeys unlocked_wallet)
   \<and> \<not> fst (ChangeWalletPassphrase int_double_ops decrypt_fails_env ''old'' ''new'' unlocked_wallet)
   \<and> IsLocked (snd (ChangeWalletPassphrase int_double_ops decrypt_fails_env ''old'' ''new'' unlocked_wallet))"
proof -
  have c: "IsCrypted unlocked_wallet" and u: "\<not> IsLocked unlocked_wallet"
    by (simp_all add: IsCrypted_def IsLocked_def unlocked_wallet_def)
  have s: "fst (ChangeWalletPassphrase int_double_ops steady_env ''old'' ''new'' unlocked_wallet)"
    by (simp add: crypto_run_defs)
  have n: "\<not> opens_master_key decrypt_fails_env ''old'' (mapMasterKeys unlocked_wallet)"
    by (simp add: unlocked_wallet_def decrypt_fails_env_def steady_env_def)
  from ChangeWalletPassphrase_lock_state [OF c surjective_pairing, of int_double_ops steady_env "''old''" "''new''"]
    ChangeWalletPassphrase_lock_state [OF c surjective_pairing, of int_double_ops decrypt_fails_env "''old''" "''new''"]
    c u s n
  show ?thesis by blast
qed

section \<open>The fee of an explicit fee rate\<close>

text \<open>
  C2, as stated, fails: with the default minimum fee of 1000 per kB, a supplied rate of
  500 per kB and a size of 1000 bytes, \<^verbatim>\<open>GetMinimumFee\<close> returns the required fee
  1000, not the 500 of rate \<times> size.
\<close>

theorem GetMinimumFee_floors_explicit_rate:
  "m_feerate low_rate_control = Some 500
   \<and> GetFee default_fee_env 500 1000 = 500
   \<and> fst (GetMinimumFee default_fee_env 1000 low_rate_control) = 1000"
  by (simp add: GetMinimumFee_def obey_required_and_maximum_def GetRequiredFee_def
        default_fee_env_def low_rate_control_def GetFee_per_kB_def Let_def)

text \<open>
  C2, amended. When a coin-control fee rate is supplied, \<^verbatim>\<open>GetMinimumFee\<close> does not
  look at the confirmation target, the global flat fee, the fallback fee, the estimator
  or the mempool: with \<^verbatim>\<open>fOverrideFeeRate\<close> set it returns exactly the rate's fee for
  the size; without it, that fee floored at the required fee (the larger of the fees of
  the minimum transaction rate and of the minimum relay rate) and then capped at the
  maximum transaction fee.
\<close>

theorem GetMinimumFee_explicit_rate:
  assumes "m_feerate coin_control = Some rate"
  shows "fst (GetMinimumFee env nTxBytes coin_control) =
    (if fOverrideFeeRate coin_control then GetFee env rate nTxBytes
     else min (maxTxFee env) (max (GetRequiredFee env nTxBytes) (GetFee env rate nTxBytes)))"
  using assms
  by (simp add: GetMinimumFee_def obey_required_and_maximum_def Let_def)

theorem GetMinimumFee_explicit_rate_witness:
  "m_feerate (low_rate_control\<lparr>fOverrideFeeRate := True\<rparr>) = Some 500
   \<and> fst (GetMinimumFee default_fee_env 1000 (low_rate_control\<lparr>fOverrideFeeRate := True\<rparr>)) = 500
   \<and> m_feerate low_rate_control = Some 500
   \<and> fst (GetMinimumFee default_fee_env 1000 low_rate_control) = 1000"
  using GetMinimumFee_explicit_rate [of "low_rate_control\<lparr>fOverrideFeeRate := True\<rparr>" 500 default_fee_env 1000]
    GetMinimumFee_explicit_rate [of low_rate_control 500 default_fee_env 1000]
  by (simp add: low_rate_control_def default_fee_env_def GetRequiredFee_def GetFee_per_kB_def)

section \<open>Abandoning a transaction\<close>

lemma outpoint_less_zero: "outpoint_less k (h, 0) = (fst k < h)"
  by (simp add: outpoint_less_def)

lemma spends_met_alt:
  "spends_met spends h now =
     map snd (takeWhile (\<lambda>e. fst (fst e) = now) (dropWhile (\<lambda>e. fst (fst e) < h) spends))"
  by (simp add: spends_met_def outpoint_less_zero)

lemma spends_sorted_hash: "spends_sorted spends \<Longrightarrow> sorted (map (\<lambda>e. fst (fst e)) spends)"
  unfolding spends_sorted_def sorted_map
  by (erule sorted_wrt_mono_rel[rotated]) (auto simp: outpoint_less_def)

lemma takeWhile_eq_sorted:
  "sorted (map f xs) \<Longrightarrow> \<forall>x \<in> set xs. (h::nat) \<le> f x \<Longrightarrow>
     set (takeWhile (\<lambda>e. f e = h) xs) = {e \<in> set xs. f e = h}"
proof (induction xs)
  case Nil
  then show ?case by simp
next
  case (Cons x xs)
  show ?case
  proof (cases "f x = h")
    case True
    with Cons show ?thesis by auto
  next
    case False
    with Cons.prems have "h < f x" by auto
    with Cons.prems have "\<forall>y \<in> set xs. h < f y" by fastforce
    with False show ?thesis by auto
  qed
qed

lemma dropWhile_less_sorted:
  "sorted (map f xs) \<Longrightarrow>
     (\<forall>x \<in> set (dropWhile (\<lambda>e. f e < (h::nat)) xs). h \<le> f x)
     \<and> {e \<in> set (dropWhile (\<lambda>e. f e < h) xs). f e = h} = {e \<in> set xs. f e = h}
     \<and> sorted (map f (dropWhile (\<lambda>e. f e < h) xs))"
proof (induction xs)
  case Nil
  then show ?case by simp
next
  case (Cons x xs)
  show ?case
  proof (cases "f x < h")
    case True
    with Cons show ?thesis by auto
  next
    case False
    with Cons.prems show ?thesis by fastforce
  qed
qed

lemma spends_met_self:
  assumes "spends_sorted spends"
  shows "set (spends_met spends h h) = spenders_of spends h"
proof -
  let ?f = "\<lambda>e::(uint256 \<times> nat) \<times> uint256. fst (fst e)"
  let ?d = "dropWhile (\<lambda>e. ?f e < h) spends"
  from assms have s: "sorted (map ?f spends)" by (rule spends_sorted_hash)
  from dropWhile_less_sorted[OF s, of h]
  have a: "\<forall>x \<in> set ?d. h \<le> ?f x" and b: "{e \<in> set ?d. ?f e = h} = {e \<in> set spends. ?f e = h}"
    and c: "sorted (map ?f ?d)" by blast+
  from takeWhile_eq_sorted[OF c a] b
  have "set (takeWhile (\<lambda>e. ?f e = h) ?d) = {e \<in> set spends. ?f e = h}" by simp
  then show ?thesis by (simp add: spends_met_alt spenders_of_def)
qed

lemma spends_met_other:
  assumes "spends_sorted spends" and "spenders_of spends h \<noteq> {}" and "c \<noteq> h"
  shows "spends_met spends h c = []"
proof -
  let ?f = "\<lambda>e::(uint256 \<times> nat) \<times> uint256. fst (fst e)"
  let ?d = "dropWhile (\<lambda>e. ?f e < h) spends"
  from assms(1) have s: "sorted (map ?f spends)" by (rule spends_sorted_hash)
  from dropWhile_less_sorted[OF s, of h]
  have a: "\<forall>x \<in> set ?d. h \<le> ?f x" and b: "{e \<in> set ?d. ?f e = h} = {e \<in> set spends. ?f e = h}"
    and c: "sorted (map ?f ?d)" by blast+
  from assms(2) have "{e \<in> set spends. ?f e = h} \<noteq> {}" by (simp add: spenders_of_def)
  with b have "{e \<in> set ?d. ?f e = h} \<noteq> {}" by simp
  then obtain e where e: "e \<in> set ?d" "?f e = h" by blast
  then obtain x xs where d: "?d = x # xs" by (cases ?d) auto
  with c e have "?f x \<le> h" by auto
  moreover from a d have "h \<le> ?f x" by simp
  ultimately have "?f x = h" by simp
  with assms(3) d show ?thesis by (simp add: spends_met_alt)
qed


lemma caches_only_refl: "caches_only w w"
  by (simp add: caches_only_def)

lemma MarkDirty_idem: "MarkDirty (MarkDirty t) = MarkDirty t"
  by (simp add: MarkDirty_def)

lemma caches_only_trans: "caches_only w w1 \<Longrightarrow> caches_only w1 w2 \<Longrightarrow> caches_only w w2"
  unfolding caches_only_def by (metis MarkDirty_idem option.inject)

lemma caches_only_dirty_one: "caches_only w (dirty_one p w)"
  by (auto simp: caches_only_def dirty_one_def split: option.splits)

lemma caches_only_dirty_inputs: "caches_only w (dirty_inputs vin w)"
  unfolding dirty_inputs_def
proof (induction vin arbitrary: w)
  case Nil
  show ?case by (simp add: caches_only_refl)
next
  case (Cons a vin)
  have "caches_only w (dirty_one (fst a) w)" by (rule caches_only_dirty_one)
  moreover have "caches_only (dirty_one (fst a) w) (fold (\<lambda>prevout. dirty_one (fst prevout)) vin (dirty_one (fst a) w))"
    by (rule Cons.IH)
  ultimately show ?case by (simp add: caches_only_trans)
qed

lemma caches_only_invalid: "caches_only w w' \<Longrightarrow> caches_invalid w p \<Longrightarrow> caches_invalid w' p"
  unfolding caches_only_def caches_invalid_def
  apply (elim conjE)
  apply (erule_tac x=p in allE)
  apply (auto simp: MarkDirty_def split: option.splits)
  done

lemma caches_invalid_dirty_one: "caches_invalid (dirty_one p w) p"
  by (auto simp: caches_invalid_def dirty_one_def MarkDirty_def split: option.splits)

lemma caches_invalid_dirty_inputs: "p \<in> fst ` set vin \<Longrightarrow> caches_invalid (dirty_inputs vin w) p"
  unfolding dirty_inputs_def
proof (induction vin arbitrary: w)
  case Nil
  then show ?case by simp
next
  case (Cons a vin)
  show ?case
  proof (cases "p \<in> fst ` set vin")
    case True
    then show ?thesis using Cons.IH by simp
  next
    case False
    with Cons.prems have p: "p = fst a" by auto
    have "caches_invalid (dirty_one (fst a) w) p" unfolding p by (rule caches_invalid_dirty_one)
    moreover have "caches_only (dirty_one (fst a) w) (dirty_inputs vin (dirty_one (fst a) w))"
      by (rule caches_only_dirty_inputs)
    ultimately have "caches_invalid (dirty_inputs vin (dirty_one (fst a) w)) p"
      by (rule caches_only_invalid[rotated])
    then show ?thesis by (simp add: dirty_inputs_def)
  qed
qed

lemma caches_only_recorded: "caches_only w w' \<Longrightarrow> recorded_abandoned w x \<Longrightarrow> recorded_abandoned w' x"
  unfolding caches_only_def recorded_abandoned_def
  apply (elim conjE)
  apply (erule_tac x=x in allE)
  apply (auto simp: MarkDirty_def split: option.splits)
  done

lemma caches_only_keyed: "caches_only w w' \<Longrightarrow> keyed_by_hash w \<Longrightarrow> keyed_by_hash w'"
proof -
  assume co: "caches_only w w'" and k: "keyed_by_hash w"
  have "tx_hash t' = x" if t': "mapWallet w' x = Some t'" for x t'
  proof -
    from co have "mapWallet w' x = mapWallet w x
        \<or> (\<exists>t. mapWallet w x = Some t \<and> mapWallet w' x = Some (MarkDirty t))"
      by (simp add: caches_only_def)
    with t' k show ?thesis
      by (auto simp: keyed_by_hash_def MarkDirty_def)
  qed
  then show ?thesis by (simp add: keyed_by_hash_def)
qed

lemma GetDepth_MarkDirty: "GetDepthInMainChain env (MarkDirty t) = GetDepthInMainChain env t"
  by (simp add: GetDepthInMainChain_def MarkDirty_def hashUnset_def)

lemma isAbandoned_MarkDirty: "isAbandoned (MarkDirty t) = isAbandoned t"
  by (simp add: isAbandoned_def MarkDirty_def)

lemma MarkDirty_fields: "tx_hash (MarkDirty t) = tx_hash t" "tx_vin (MarkDirty t) = tx_vin t"
  by (simp_all add: MarkDirty_def)

lemma caches_only_core:
  assumes "caches_only w w'"
  shows "asserts_hold env w' x = asserts_hold env w x"
    and "abandonable env w' x = abandonable env w x"
    and "map_option tx_vin (mapWallet w' x) = map_option tx_vin (mapWallet w x)"
proof -
  from assms have "mapWallet w' x = mapWallet w x
      \<or> (\<exists>t. mapWallet w x = Some t \<and> mapWallet w' x = Some (MarkDirty t))"
    by (simp add: caches_only_def)
  then show "asserts_hold env w' x = asserts_hold env w x"
    and "abandonable env w' x = abandonable env w x"
    and "map_option tx_vin (mapWallet w' x) = map_option tx_vin (mapWallet w x)"
    by (auto simp: asserts_hold_def abandonable_def GetDepth_MarkDirty isAbandoned_MarkDirty
          MarkDirty_fields)
qed


lemma mark_abandoned_simps:
  "mapTxSpends (mark_abandoned c t w) = mapTxSpends w"
  "mapWallet (mark_abandoned c t w) = (mapWallet w)(c \<mapsto> MarkDirty (setAbandoned (t\<lparr>nIndex := -1\<rparr>)))"
  "db_tx (mark_abandoned c t w) = (db_tx w)(tx_hash t \<mapsto> MarkDirty (setAbandoned (t\<lparr>nIndex := -1\<rparr>)))"
  by (simp_all add: mark_abandoned_def Let_def MarkDirty_def setAbandoned_def)

lemma mark_abandoned_recorded: "tx_hash t = c \<Longrightarrow> recorded_abandoned (mark_abandoned c t w) c"
  by (simp add: recorded_abandoned_def mark_abandoned_simps MarkDirty_def setAbandoned_def)

lemma mark_abandoned_keyed: "tx_hash t = c \<Longrightarrow> keyed_by_hash w \<Longrightarrow> keyed_by_hash (mark_abandoned c t w)"
  by (simp add: keyed_by_hash_def mark_abandoned_simps MarkDirty_def setAbandoned_def)

lemma mark_abandoned_invalid: "caches_invalid (mark_abandoned c t w) c"
  by (simp add: caches_invalid_def mark_abandoned_simps MarkDirty_def)

lemma mark_abandoned_other:
  assumes "x \<noteq> c" and "tx_hash t = c"
  shows "recorded_abandoned (mark_abandoned c t w) x = recorded_abandoned w x"
    and "caches_invalid (mark_abandoned c t w) x = caches_invalid w x"
    and "asserts_hold env (mark_abandoned c t w) x = asserts_hold env w x"
    and "abandonable env (mark_abandoned c t w) x = abandonable env w x"
    and "mapWallet (mark_abandoned c t w) x = mapWallet w x"
  using assms
  by (simp_all add: recorded_abandoned_def caches_invalid_def asserts_hold_def abandonable_def
        mark_abandoned_simps)

lemma visit_result:
  assumes "asserts_hold env w c"
  shows "\<exists>t. mapWallet w c = Some t \<and> AbandonTransaction_visit env h c rest done w =
     (if abandonable env w c
      then Inr (fold (\<lambda>x t. if x \<in> set done then t else set_insert x t)
                  (spends_met (mapTxSpends w) h c) rest,
                dirty_inputs (tx_vin t) (mark_abandoned c t w))
      else Inr (rest, w))"
  using assms
  by (auto simp: asserts_hold_def abandonable_def AbandonTransaction_visit_def Let_def
        mark_abandoned_simps split: option.splits)

lemma visit_visited:
  assumes "asserts_hold env w c"
  shows "AbandonTransaction_visit env h c rest done w =
     Inr (if abandonable env w c
          then fold (\<lambda>x t. if x \<in> set done then t else set_insert x t) (spends_met (mapTxSpends w) h c) rest
          else rest, visited env c w)"
  using visit_result[OF assms, of h rest "done"]
  by (auto simp: visited_def)

lemma visited_cases:
  fixes w :: "'a ledger_scheme"
  assumes "keyed_by_hash w"
  obtains (same) "\<not> abandonable env w c" "visited env c w = w"
  | (marked) t where "abandonable env w c" "mapWallet w c = Some t" "tx_hash t = c"
      "visited env c w = dirty_inputs (tx_vin t) (mark_abandoned c t w)"
proof (cases "abandonable env w c")
  case False
  then have "visited env c w = w" by (simp add: visited_def split: option.splits)
  with False show ?thesis by (rule same)
next
  case True
  then obtain t where t: "mapWallet w c = Some t" by (auto simp: abandonable_def split: option.splits)
  with assms have "tx_hash t = c" by (simp add: keyed_by_hash_def)
  moreover from True t have "visited env c w = dirty_inputs (tx_vin t) (mark_abandoned c t w)"
    by (simp add: visited_def)
  ultimately show ?thesis using True t by (intro marked)
qed

lemma visited_spends: "mapTxSpends (visited env c w) = mapTxSpends w"
  using caches_only_dirty_inputs[of "mark_abandoned c t' w" for t']
  by (auto simp: visited_def caches_only_def mark_abandoned_simps split: option.splits)

lemma visited_keyed:
  assumes "keyed_by_hash w"
  shows "keyed_by_hash (visited env c w)"
  using assms
proof (cases rule: visited_cases[of w env c])
  case same
  with assms show ?thesis by simp
next
  case (marked t)
  from marked(3) assms have "keyed_by_hash (mark_abandoned c t w)" by (rule mark_abandoned_keyed)
  with caches_only_dirty_inputs have "keyed_by_hash (dirty_inputs (tx_vin t) (mark_abandoned c t w))"
    by (rule caches_only_keyed)
  with marked show ?thesis by simp
qed

lemma visited_recorded:
  assumes "keyed_by_hash w" and "recorded_abandoned w x"
  shows "recorded_abandoned (visited env c w) x"
  using assms(1)
proof (cases rule: visited_cases[of w env c])
  case same
  with assms show ?thesis by simp
next
  case (marked t)
  have "recorded_abandoned (mark_abandoned c t w) x"
    using assms(2) mark_abandoned_recorded[OF marked(3), of w] mark_abandoned_other(1)[OF _ marked(3), of x w]
    by (cases "x = c") auto
  then have "recorded_abandoned (dirty_inputs (tx_vin t) (mark_abandoned c t w)) x"
    by (rule caches_only_recorded[OF caches_only_dirty_inputs])
  with marked show ?thesis by simp
qed

lemma visited_invalid:
  assumes "keyed_by_hash w" and "caches_invalid w x"
  shows "caches_invalid (visited env c w) x"
  using assms(1)
proof (cases rule: visited_cases[of w env c])
  case same
  with assms show ?thesis by simp
next
  case (marked t)
  have "caches_invalid (mark_abandoned c t w) x"
    using assms(2) mark_abandoned_invalid[of c t w] mark_abandoned_other(2)[OF _ marked(3), of x w]
    by (cases "x = c") auto
  then have "caches_invalid (dirty_inputs (tx_vin t) (mark_abandoned c t w)) x"
    by (rule caches_only_invalid[OF caches_only_dirty_inputs])
  with marked show ?thesis by simp
qed

lemma visited_other:
  assumes "keyed_by_hash w" and "x \<noteq> c"
  shows "asserts_hold env (visited env c w) x = asserts_hold env w x"
    and "abandonable env (visited env c w) x = abandonable env w x"
    and "map_option tx_vin (mapWallet (visited env c w) x) = map_option tx_vin (mapWallet w x)"
proof -
  have "asserts_hold env (visited env c w) x = asserts_hold env w x
    \<and> abandonable env (visited env c w) x = abandonable env w x
    \<and> map_option tx_vin (mapWallet (visited env c w) x) = map_option tx_vin (mapWallet w x)"
    using assms(1)
  proof (cases rule: visited_cases[of w env c])
    case same
    then show ?thesis by simp
  next
    case (marked t)
    let ?m = "mark_abandoned c t w"
    have co: "caches_only ?m (dirty_inputs (tx_vin t) ?m)" by (rule caches_only_dirty_inputs)
    from caches_only_core(1)[OF co, of env x] caches_only_core(2)[OF co, of env x]
      caches_only_core(3)[OF co, of x]
      mark_abandoned_other(3)[OF assms(2) marked(3), of env w]
      mark_abandoned_other(4)[OF assms(2) marked(3), of env w]
      mark_abandoned_other(5)[OF assms(2) marked(3), of w] marked(4)
    show ?thesis by simp
  qed
  then show "asserts_hold env (visited env c w) x = asserts_hold env w x"
    and "abandonable env (visited env c w) x = abandonable env w x"
    and "map_option tx_vin (mapWallet (visited env c w) x) = map_option tx_vin (mapWallet w x)"
    by simp_all
qed

lemma visited_marks:
  assumes "keyed_by_hash w" and "abandonable env w c"
  shows "recorded_abandoned (visited env c w) c"
    and "mapWallet w c = Some t \<Longrightarrow> p \<in> fst ` set (tx_vin t) \<Longrightarrow> caches_invalid (visited env c w) p"
proof -
  from assms(2) obtain t' where t': "mapWallet w c = Some t'"
    by (auto simp: abandonable_def split: option.splits)
  with assms(1) have k: "tx_hash t' = c" by (simp add: keyed_by_hash_def)
  from assms(2) t' have v: "visited env c w = dirty_inputs (tx_vin t') (mark_abandoned c t' w)"
    by (simp add: visited_def)
  show "recorded_abandoned (visited env c w) c"
    unfolding v by (rule caches_only_recorded[OF caches_only_dirty_inputs mark_abandoned_recorded[OF k]])
  show "caches_invalid (visited env c w) p" if "mapWallet w c = Some t" "p \<in> fst ` set (tx_vin t)"
    using that t' caches_invalid_dirty_inputs[of p "tx_vin t'" "mark_abandoned c t' w"] by (simp add: v)
qed

lemma set_insert_props: "set (set_insert x xs) = insert x (set xs)"
  "distinct xs \<Longrightarrow> distinct (set_insert x xs)"
  by (auto simp: set_insert_def set_insort_key distinct_insort)

lemma fold_set_insert:
  "set (fold (\<lambda>x t. if x \<in> D then t else set_insert x t) xs acc) = (set xs - D) \<union> set acc"
  "distinct acc \<Longrightarrow> distinct (fold (\<lambda>x t. if x \<in> D then t else set_insert x t) xs acc)"
  by (induction xs arbitrary: acc) (auto simp: set_insert_props)

lemma children_loop:
  fixes w :: "'a ledger_scheme"
  assumes "keyed_by_hash w" and "spends_sorted (mapTxSpends w)"
    and "set T \<subseteq> spenders_of (mapTxSpends w) h"
    and "h \<notin> set T" and "distinct T" and "\<forall>c \<in> set T. asserts_hold env w c"
  shows "\<exists>w'. AbandonTransaction_loop env h T done w = Some (Inr w')
    \<and> (\<forall>x. recorded_abandoned w x \<longrightarrow> recorded_abandoned w' x)
    \<and> (\<forall>x. caches_invalid w x \<longrightarrow> caches_invalid w' x)
    \<and> (\<forall>c \<in> set T. abandonable env w c \<longrightarrow>
          recorded_abandoned w' c
          \<and> (\<forall>t p. mapWallet w c = Some t \<longrightarrow> p \<in> fst ` set (tx_vin t) \<longrightarrow> caches_invalid w' p))"
  using assms
proof (induction T arbitrary: "done" w)
  case Nil
  show ?case by (subst AbandonTransaction_loop.simps) simp
next
  case (Cons c T)
  let ?w1 = "visited env c w"
  note k = \<open>keyed_by_hash w\<close>
  from Cons.prems have c: "c \<noteq> h" "c \<notin> set T" "asserts_hold env w c"
    and ne: "spenders_of (mapTxSpends w) h \<noteq> {}" by auto
  have met: "spends_met (mapTxSpends w) h c = []"
    using Cons.prems(2) ne c(1) by (rule spends_met_other)
  have visit: "AbandonTransaction_visit env h c T (c # done) w = Inr (T, ?w1)"
    using visit_visited[OF c(3), of h T "c # done"] met by simp
  have unfold: "AbandonTransaction_loop env h (c # T) done w = AbandonTransaction_loop env h T (c # done) ?w1"
    by (subst AbandonTransaction_loop.simps) (simp add: visit)
  have sp: "mapTxSpends ?w1 = mapTxSpends w" by (rule visited_spends)
  have k1: "keyed_by_hash ?w1" using k by (rule visited_keyed)
  have "\<forall>c' \<in> set T. asserts_hold env ?w1 c'"
  proof
    fix c' assume c': "c' \<in> set T"
    with c(2) have "c' \<noteq> c" by auto
    with k have "asserts_hold env ?w1 c' = asserts_hold env w c'" by (rule visited_other(1))
    with Cons.prems(6) c' show "asserts_hold env ?w1 c'" by simp
  qed
  with Cons.IH[of ?w1 "c # done"] Cons.prems sp k1
  obtain w' where w': "AbandonTransaction_loop env h T (c # done) ?w1 = Some (Inr w')"
      "\<forall>x. recorded_abandoned ?w1 x \<longrightarrow> recorded_abandoned w' x"
      "\<forall>x. caches_invalid ?w1 x \<longrightarrow> caches_invalid w' x"
      "\<forall>c' \<in> set T. abandonable env ?w1 c' \<longrightarrow>
          recorded_abandoned w' c'
          \<and> (\<forall>t p. mapWallet ?w1 c' = Some t \<longrightarrow> p \<in> fst ` set (tx_vin t) \<longrightarrow> caches_invalid w' p)"
    by auto
  have r: "\<forall>x. recorded_abandoned w x \<longrightarrow> recorded_abandoned w' x"
    using w'(2) visited_recorded[OF k, of _ env c] by blast
  have i: "\<forall>x. caches_invalid w x \<longrightarrow> caches_invalid w' x"
    using w'(3) visited_invalid[OF k, of _ env c] by blast
  have ch: "recorded_abandoned w' c'
      \<and> (\<forall>t p. mapWallet w c' = Some t \<longrightarrow> p \<in> fst ` set (tx_vin t) \<longrightarrow> caches_invalid w' p)"
    if c': "c' \<in> set (c # T)" and a: "abandonable env w c'" for c'
  proof (cases "c' = c")
    case True
    have "recorded_abandoned ?w1 c" using k a True by (simp add: visited_marks(1))
    moreover have "caches_invalid ?w1 p" if "mapWallet w c = Some t" "p \<in> fst ` set (tx_vin t)" for t p
      using k a True that by (simp add: visited_marks(2))
    ultimately show ?thesis using w'(2,3) True by blast
  next
    case False
    with c' have in_T: "c' \<in> set T" by simp
    from False a k have a1: "abandonable env ?w1 c'" by (simp add: visited_other(2))
    from w'(4) in_T a1 have rec: "recorded_abandoned w' c'"
      and inv: "\<forall>t p. mapWallet ?w1 c' = Some t \<longrightarrow> p \<in> fst ` set (tx_vin t) \<longrightarrow> caches_invalid w' p"
      by blast+
    have "caches_invalid w' p" if t: "mapWallet w c' = Some t" and p: "p \<in> fst ` set (tx_vin t)" for t p
    proof -
      from visited_other(3)[OF k False, of env] t
      obtain t1 where "mapWallet ?w1 c' = Some t1" "tx_vin t1 = tx_vin t" by auto
      with inv p show ?thesis by simp
    qed
    with rec show ?thesis by blast
  qed
  from unfold w'(1) have 1: "AbandonTransaction_loop env h (c # T) done w = Some (Inr w')" by simp
  from 1 r i ch show ?case by blast
qed

lemma AbandonTransaction_refused:
  assumes "mapWallet w h = Some wtx" and "GetDepthInMainChain env wtx > 0 \<or> mempool_Exists env (tx_hash wtx)"
  shows "AbandonTransaction env h w = Some (Inr (False, w))"
  using assms by (auto simp: AbandonTransaction_def)

lemma AbandonTransaction_nothing_to_mark:
  assumes "mapWallet w h = Some wtx"
    and "\<not> (GetDepthInMainChain env wtx > 0 \<or> mempool_Exists env (tx_hash wtx))"
    and "\<not> abandonable env w h"
  shows "AbandonTransaction env h w = Some (Inr (True, w))"
proof -
  from assms have "asserts_hold env w h" by (auto simp: asserts_hold_def)
  from visit_visited[OF this, of h "[]" "[h]"] assms(3)
  have "AbandonTransaction_visit env h h [] [h] w = Inr ([], w)"
    by (simp add: visited_def split: option.splits)
  then have "AbandonTransaction_loop env h [h] [] w = Some (Inr w)"
    by (simp add: AbandonTransaction_loop.simps)
  with assms(1,2) show ?thesis by (auto simp: AbandonTransaction_def)
qed

lemma AbandonTransaction_marks:
  fixes w :: "'a ledger_scheme"
  assumes wtx: "mapWallet w h = Some wtx"
    and ok: "\<not> (GetDepthInMainChain env wtx > 0 \<or> mempool_Exists env (tx_hash wtx))"
    and ab: "abandonable env w h"
    and k: "keyed_by_hash w"
    and sorted: "spends_sorted (mapTxSpends w)"
    and safe: "\<forall>c \<in> spenders_of (mapTxSpends w) h. c \<noteq> h \<longrightarrow> asserts_hold env w c"
  shows "\<exists>w'. AbandonTransaction env h w = Some (Inr (True, w'))
    \<and> (\<forall>c \<in> insert h (spenders_of (mapTxSpends w) h). abandonable env w c \<longrightarrow>
          recorded_abandoned w' c
          \<and> (\<forall>t p. mapWallet w c = Some t \<longrightarrow> p \<in> fst ` set (tx_vin t) \<longrightarrow> caches_invalid w' p))"
proof -
  let ?w1 = "visited env h w"
  let ?T = "fold (\<lambda>x t. if x \<in> set [h] then t else set_insert x t) (spends_met (mapTxSpends w) h h) []"
  from wtx ok have ah: "asserts_hold env w h" by (auto simp: asserts_hold_def)
  from visit_visited[OF ah, of h "[]" "[h]"] ab
  have visit: "AbandonTransaction_visit env h h [] [h] w = Inr (?T, ?w1)" by simp
  have unfold: "AbandonTransaction_loop env h [h] [] w = AbandonTransaction_loop env h ?T [h] ?w1"
    by (subst AbandonTransaction_loop.simps) (simp add: visit)
  have setT: "set ?T = spenders_of (mapTxSpends w) h - {h}"
    using fold_set_insert(1)[of "set [h]" "spends_met (mapTxSpends w) h h" "[]"] spends_met_self[OF sorted, of h]
    by simp
  have dT: "distinct ?T" by (rule fold_set_insert(2)) simp
  have sp: "mapTxSpends ?w1 = mapTxSpends w" by (rule visited_spends)
  have k1: "keyed_by_hash ?w1" using k by (rule visited_keyed)
  have a1: "\<forall>c \<in> set ?T. asserts_hold env ?w1 c"
  proof
    fix c assume c: "c \<in> set ?T"
    with setT have "c \<noteq> h" "c \<in> spenders_of (mapTxSpends w) h" by auto
    with safe visited_other(1)[OF k, of c h env] show "asserts_hold env ?w1 c" by simp
  qed
  from children_loop[of ?w1 ?T h env "[h]"] sorted sp setT dT a1 k1
  obtain w' where w': "AbandonTransaction_loop env h ?T [h] ?w1 = Some (Inr w')"
      "\<forall>x. recorded_abandoned ?w1 x \<longrightarrow> recorded_abandoned w' x"
      "\<forall>x. caches_invalid ?w1 x \<longrightarrow> caches_invalid w' x"
      "\<forall>c \<in> set ?T. abandonable env ?w1 c \<longrightarrow>
          recorded_abandoned w' c
          \<and> (\<forall>t p. mapWallet ?w1 c = Some t \<longrightarrow> p \<in> fst ` set (tx_vin t) \<longrightarrow> caches_invalid w' p)"
    by auto
  have res: "AbandonTransaction env h w = Some (Inr (True, w'))"
    using wtx ok unfold w'(1) by (auto simp: AbandonTransaction_def)
  have ch: "recorded_abandoned w' c
      \<and> (\<forall>t p. mapWallet w c = Some t \<longrightarrow> p \<in> fst ` set (tx_vin t) \<longrightarrow> caches_invalid w' p)"
    if c: "c \<in> insert h (spenders_of (mapTxSpends w) h)" and a: "abandonable env w c" for c
  proof (cases "c = h")
    case True
    have "recorded_abandoned ?w1 h" using k ab by (simp add: visited_marks(1))
    moreover have "caches_invalid ?w1 p" if "mapWallet w h = Some t" "p \<in> fst ` set (tx_vin t)" for t p
      using k ab that by (simp add: visited_marks(2))
    ultimately show ?thesis using w'(2,3) True by blast
  next
    case False
    with c setT have in_T: "c \<in> set ?T" by simp
    from False a k have "abandonable env ?w1 c" by (simp add: visited_other(2))
    with w'(4) in_T have rec: "recorded_abandoned w' c"
      and inv: "\<forall>t p. mapWallet ?w1 c = Some t \<longrightarrow> p \<in> fst ` set (tx_vin t) \<longrightarrow> caches_invalid w' p"
      by blast+
    have "caches_invalid w' p" if t: "mapWallet w c = Some t" and p: "p \<in> fst ` set (tx_vin t)" for t p
    proof -
      from visited_other(3)[OF k False, of env] t
      obtain t1 where "mapWallet ?w1 c = Some t1" "tx_vin t1 = tx_vin t" by auto
      with inv p show ?thesis by simp
    qed
    with rec show ?thesis by blast
  qed
  from res ch show ?thesis by blast
qed

lemmas ledger_run_defs =
  AbandonTransaction_def AbandonTransaction_loop.simps AbandonTransaction_visit_def
  GetDepthInMainChain_def hashUnset_def isAbandoned_def setAbandoned_def MarkDirty_def ABANDON_HASH_def
  mark_abandoned_def dirty_inputs_def dirty_one_def spends_met_def outpoint_less_def set_insert_def
  chain_ledger_def chain_view_def unconfirmed_tx_def Let_def

text \<open>
  C3, as stated, fails: transaction 40 has depth -3 (it conflicts with a block of the
  active chain) and is not in the mempool, so the call is not refused; it returns true
  and leaves the ledger as it was, with 40 not marked abandoned.
\<close>

theorem AbandonTransaction_conflicted_unmarked:
  "mapWallet chain_ledger 40 \<noteq> None
   \<and> \<not> (GetDepthInMainChain chain_view (the (mapWallet chain_ledger 40)) > 0 \<or> mempool_Exists chain_view 40)
   \<and> AbandonTransaction chain_view 40 chain_ledger = Some (Inr (True, chain_ledger))
   \<and> hashBlock (the (mapWallet chain_ledger 40)) \<noteq> ABANDON_HASH"
  by (simp add: ledger_run_defs)

text \<open>
  The loop starts its iterator at \<^verbatim>\<open>lower_bound(MCOutPoint(hashTx, 0))\<close> for every
  transaction it visits (\<^verbatim>\<open>MarkConflicted\<close> starts it at \<^verbatim>\<open>now\<close>). Abandoning 10
  marks 10 and 20; 30, which spends an output of 20, stays as it was.
\<close>

lemma AbandonTransaction_stops_at_direct_spenders:
  "\<exists>w'. AbandonTransaction chain_view 10 chain_ledger = Some (Inr (True, w'))
     \<and> recorded_abandoned w' 10 \<and> recorded_abandoned w' 20 \<and> \<not> recorded_abandoned w' 30
     \<and> mapWallet w' 30 = mapWallet chain_ledger 30"
  by (simp add: ledger_run_defs recorded_abandoned_def)

text \<open>
  C3, amended. For a transaction \<open>h\<close> of a ledger that holds each transaction under its
  hash: \<^verbatim>\<open>AbandonTransaction(h)\<close> returns false and changes nothing when \<open>h\<close> has
  main-chain depth greater than 0 or is in the mempool. Otherwise it returns true; when
  \<open>h\<close> has negative depth or is abandoned already, it changes nothing; when \<open>h\<close> has
  depth 0 and is not abandoned, then (the spend index being in key order, and the
  assertions of the loop holding for the transactions that spend an output of \<open>h\<close>) it
  marks \<open>h\<close> and every in-wallet transaction of depth 0, not yet abandoned, that spends
  an output of \<open>h\<close> as abandoned (in-block index -1, block hash the sentinel), persists
  each of them, and invalidates the cached balances of each of them and of every wallet
  transaction whose output one of them spends.
\<close>

theorem AbandonTransaction_direct_spenders:
  fixes w :: "'a ledger_scheme"
  assumes "mapWallet w h = Some wtx" and "keyed_by_hash w"
  shows "(GetDepthInMainChain env wtx > 0 \<or> mempool_Exists env h
            \<longrightarrow> AbandonTransaction env h w = Some (Inr (False, w)))
    \<and> (\<not> (GetDepthInMainChain env wtx > 0 \<or> mempool_Exists env h) \<and> \<not> abandonable env w h
            \<longrightarrow> AbandonTransaction env h w = Some (Inr (True, w)))
    \<and> (\<not> (GetDepthInMainChain env wtx > 0 \<or> mempool_Exists env h) \<and> abandonable env w h
          \<and> spends_sorted (mapTxSpends w)
          \<and> (\<forall>c \<in> spenders_of (mapTxSpends w) h. c \<noteq> h \<longrightarrow> asserts_hold env w c)
            \<longrightarrow> (\<exists>w'. AbandonTransaction env h w = Some (Inr (True, w'))
                  \<and> (\<forall>c \<in> insert h (spenders_of (mapTxSpends w) h). abandonable env w c \<longrightarrow>
                        recorded_abandoned w' c
                        \<and> (\<forall>t p. mapWallet w c = Some t \<longrightarrow> p \<in> fst ` set (tx_vin t)
                              \<longrightarrow> caches_invalid w' p))))"
proof -
  from assms have h: "tx_hash wtx = h" by (simp add: keyed_by_hash_def)
  show ?thesis
  proof (intro conjI impI)
    assume "GetDepthInMainChain env wtx > 0 \<or> mempool_Exists env h"
    with assms(1) h show "AbandonTransaction env h w = Some (Inr (False, w))"
      by (intro AbandonTransaction_refused) auto
  next
    assume "\<not> (GetDepthInMainChain env wtx > 0 \<or> mempool_Exists env h) \<and> \<not> abandonable env w h"
    with assms(1) h show "AbandonTransaction env h w = Some (Inr (True, w))"
      by (intro AbandonTransaction_nothing_to_mark) auto
  next
    assume a: "\<not> (GetDepthInMainChain env wtx > 0 \<or> mempool_Exists env h) \<and> abandonable env w h
          \<and> spends_sorted (mapTxSpends w)
          \<and> (\<forall>c \<in> spenders_of (mapTxSpends w) h. c \<noteq> h \<longrightarrow> asserts_hold env w c)"
    with h have "\<not> (GetDepthInMainChain env wtx > 0 \<or> mempool_Exists env (tx_hash wtx))" by simp
    with assms a show "\<exists>w'. AbandonTransaction env h w = Some (Inr (True, w'))
                  \<and> (\<forall>c \<in> insert h (spenders_of (mapTxSpends w) h). abandonable env w c \<longrightarrow>
                        recorded_abandoned w' c
                        \<and> (\<forall>t p. mapWallet w c = Some t \<longrightarrow> p \<in> fst ` set (tx_vin t)
                              \<longrightarrow> caches_invalid w' p))"
      by (intro AbandonTransaction_marks) auto
  qed
qed

theorem AbandonTransaction_direct_spenders_witness:
  "keyed_by_hash chain_ledger
   \<and> mapWallet chain_ledger 50 = Some (unconfirmed_tx 50 []) \<and> mempool_Exists chain_view 50
   \<and> AbandonTransaction chain_view 50 chain_ledger = Some (Inr (False, chain_ledger))
   \<and> mapWallet chain_ledger 40 = Some ((unconfirmed_tx 40 [])\<lparr>hashBlock := 7\<rparr>)
   \<and> \<not> abandonable chain_view chain_ledger 40
   \<and> AbandonTransaction chain_view 40 chain_ledger = Some (Inr (True, chain_ledger))
   \<and> mapWallet chain_ledger 10 = Some (unconfirmed_tx 10 [(5, 0)])
   \<and> abandonable chain_view chain_ledger 10 \<and> abandonable chain_view chain_ledger 20
   \<and> spends_sorted (mapTxSpends chain_ledger)
   \<and> spenders_of (mapTxSpends chain_ledger) 10 = {20}
   \<and> asserts_hold chain_view chain_ledger 20
   \<and> (\<exists>w'. AbandonTransaction chain_view 10 chain_ledger = Some (Inr (True, w'))
         \<and> recorded_abandoned w' 10 \<and> recorded_abandoned w' 20
         \<and> caches_invalid w' 5 \<and> caches_invalid w' 10)"
proof -
  have k: "keyed_by_hash chain_ledger"
    by (auto simp: keyed_by_hash_def chain_ledger_def unconfirmed_tx_def split: if_splits)
  have m50: "mapWallet chain_ledger 50 = Some (unconfirmed_tx 50 [])"
    and m40: "mapWallet chain_ledger 40 = Some ((unconfirmed_tx 40 [])\<lparr>hashBlock := 7\<rparr>)"
    and m10: "mapWallet chain_ledger 10 = Some (unconfirmed_tx 10 [(5, 0)])"
    and m20: "mapWallet chain_ledger 20 = Some (unconfirmed_tx 20 [(10, 0)])"
    by (simp_all add: chain_ledger_def)
  have p50: "mempool_Exists chain_view 50" and p40: "\<not> mempool_Exists chain_view 40"
    and p10: "\<not> mempool_Exists chain_view 10"
    by (simp_all add: chain_view_def)
  have d40: "GetDepthInMainChain chain_view ((unconfirmed_tx 40 [])\<lparr>hashBlock := 7\<rparr>) = -3"
    and d10: "GetDepthInMainChain chain_view (unconfirmed_tx 10 [(5, 0)]) = 0"
    by (simp_all add: GetDepthInMainChain_def hashUnset_def ABANDON_HASH_def unconfirmed_tx_def chain_view_def)
  have a40: "\<not> abandonable chain_view chain_ledger 40"
    using d40 by (simp add: abandonable_def m40)
  have a10: "abandonable chain_view chain_ledger 10" and a20: "abandonable chain_view chain_ledger 20"
    by (simp_all add: abandonable_def m10 m20 GetDepthInMainChain_def hashUnset_def isAbandoned_def
          ABANDON_HASH_def unconfirmed_tx_def)
  have s: "spends_sorted (mapTxSpends chain_ledger)"
    by (simp add: spends_sorted_def chain_ledger_def outpoint_less_def)
  have sp: "spenders_of (mapTxSpends chain_ledger) 10 = {20}"
    by (auto simp: spenders_of_def chain_ledger_def intro: rev_image_eqI)
  have h20: "asserts_hold chain_view chain_ledger 20"
    by (simp add: asserts_hold_def m20 GetDepthInMainChain_def hashUnset_def unconfirmed_tx_def chain_view_def)
  from AbandonTransaction_direct_spenders[OF m50 k, of chain_view] p50
  have r50: "AbandonTransaction chain_view 50 chain_ledger = Some (Inr (False, chain_ledger))"
    by blast
  from AbandonTransaction_direct_spenders[OF m40 k, of chain_view] p40 d40 a40
  have r40: "AbandonTransaction chain_view 40 chain_ledger = Some (Inr (True, chain_ledger))"
    by simp
  from AbandonTransaction_direct_spenders[OF m10 k, of chain_view] p10 d10 a10 s sp h20
  obtain w' where w': "AbandonTransaction chain_view 10 chain_ledger = Some (Inr (True, w'))"
    and ch: "\<forall>c \<in> insert 10 {20}. abandonable chain_view chain_ledger c \<longrightarrow>
               recorded_abandoned w' c
               \<and> (\<forall>t p. mapWallet chain_ledger c = Some t \<longrightarrow> p \<in> fst ` set (tx_vin t)
                     \<longrightarrow> caches_invalid w' p)"
    by auto
  from ch a10 a20 have r: "recorded_abandoned w' 10" "recorded_abandoned w' 20" by blast+
  from ch a10 m10 have "caches_invalid w' 5" by (force simp: unconfirmed_tx_def)
  moreover from ch a20 m20 have "caches_invalid w' 10" by (force simp: unconfirmed_tx_def)
  ultimately show ?thesis
    using k m50 p50 r50 m40 a40 r40 m10 a10 a20 s sp h20 w' r by blast
qed

section \<open>Committing a transaction whose admission fails\<close>

lemma grows_refl: "grows env w w"
  by (simp add: grows_def)

lemma grows_trans: "grows env w w1 \<Longrightarrow> grows env w1 w2 \<Longrightarrow> grows env w w2"
  by (auto simp: grows_def)

lemma grows_index: "grows env w (mapWallet_index env h w)"
  by (auto simp: grows_def mapWallet_index_def mapWallet_at_def split: option.splits)

lemma grows_copy: "grows env w (SyncMetaData_copy env c h w)"
proof -
  let ?w1 = "mapWallet_index env h w"
  have g: "grows env w ?w1" by (rule grows_index)
  have "grows env ?w1 (SyncMetaData_copy env c h w)"
    by (auto simp: SyncMetaData_copy_def Let_def grows_def mapWallet_at_def split: option.splits)
  with g show ?thesis by (rule grows_trans)
qed

lemma grows_fold_copy: "grows env w (fold (SyncMetaData_copy env c) hs w)"
proof (induction hs arbitrary: w)
  case Nil
  show ?case by (simp add: grows_refl)
next
  case (Cons h hs)
  have "grows env w (SyncMetaData_copy env c h w)" by (rule grows_copy)
  moreover have "grows env (SyncMetaData_copy env c h w) (fold (SyncMetaData_copy env c) hs (SyncMetaData_copy env c h w))"
    by (rule Cons.IH)
  ultimately show ?case by (simp add: grows_trans)
qed

lemma SyncMetaData_min_fold:
  fixes w :: "'a ledger_scheme"
  shows "grows env w (snd (fold (SyncMetaData_min_step env) hs (acc, w)))
    \<and> ((snd acc \<noteq> None \<or> (\<exists>h \<in> set hs. int_of_int64 (nOrderPos (mapWallet_at env h w)) < fst acc))
         \<longrightarrow> snd (fst (fold (SyncMetaData_min_step env) hs (acc, w))) \<noteq> None)"
proof (induction hs arbitrary: acc w)
  case Nil
  show ?case by (simp add: grows_refl)
next
  case (Cons h hs)
  let ?step = "SyncMetaData_min_step env"
  let ?w1 = "mapWallet_index env h w"
  let ?n = "int_of_int64 (nOrderPos (mapWallet_at env h ?w1))"
  let ?acc1 = "if ?n < fst acc then (?n, Some h) else acc"
  have s: "?step h (acc, w) = (?acc1, ?w1)" by (simp add: SyncMetaData_min_step_def Let_def)
  have g1: "grows env w ?w1" by (rule grows_index)
  then have n: "\<And>x. nOrderPos (mapWallet_at env x ?w1) = nOrderPos (mapWallet_at env x w)"
    by (simp add: grows_def)
  from Cons.IH[of ?w1 ?acc1]
  have g2: "grows env ?w1 (snd (fold ?step hs (?acc1, ?w1)))"
    and c: "(snd ?acc1 \<noteq> None \<or> (\<exists>x \<in> set hs. int_of_int64 (nOrderPos (mapWallet_at env x ?w1)) < fst ?acc1))
         \<longrightarrow> snd (fst (fold ?step hs (?acc1, ?w1))) \<noteq> None" by blast+
  have e: "fold ?step (h # hs) (acc, w) = fold ?step hs (?acc1, ?w1)"
    by (simp only: fold_simps s)
  have "grows env w (snd (fold ?step (h # hs) (acc, w)))"
    unfolding e using g1 g2 by (rule grows_trans)
  moreover have "snd (fst (fold ?step (h # hs) (acc, w))) \<noteq> None"
    if "snd acc \<noteq> None \<or> (\<exists>x \<in> set (h # hs). int_of_int64 (nOrderPos (mapWallet_at env x w)) < fst acc)"
  proof -
    from that have "snd ?acc1 \<noteq> None \<or> (\<exists>x \<in> set hs. int_of_int64 (nOrderPos (mapWallet_at env x ?w1)) < fst ?acc1)"
      by (auto simp: n)
    with c have "snd (fst (fold ?step hs (?acc1, ?w1))) \<noteq> None" by blast
    then show ?thesis unfolding e .
  qed
  ultimately show ?case by blast
qed

lemma SyncMetaData_grows:
  assumes "SyncMetaData env hs w = Inr w'"
  shows "grows env w w'"
proof -
  obtain m c w1 where m: "SyncMetaData_min env hs w = ((m, c), w1)"
    by (cases "SyncMetaData_min env hs w") auto
  from SyncMetaData_min_fold[of env w hs "(2147483647, None)"] m
  have g1: "grows env w w1" by (simp add: SyncMetaData_min_def)
  show ?thesis
  proof (cases hs)
    case Nil
    with assms m g1 show ?thesis by (simp add: SyncMetaData_def)
  next
    case (Cons h rest)
    with assms m obtain c' where "c = Some c'" "w' = fold (SyncMetaData_copy env c') hs w1"
      by (auto simp: SyncMetaData_def split: option.splits)
    with g1 grows_fold_copy[of env w1 c' hs] show ?thesis by (auto intro: grows_trans)
  qed
qed

lemma SyncMetaData_returns:
  assumes "\<exists>h \<in> set hs. int_of_int64 (nOrderPos (mapWallet_at env h w)) < 2147483647"
  shows "\<exists>w'. SyncMetaData env hs w = Inr w'"
proof -
  obtain m c w1 where m: "SyncMetaData_min env hs w = ((m, c), w1)"
    by (cases "SyncMetaData_min env hs w") auto
  from SyncMetaData_min_fold[of env w hs "(2147483647, None)"] m assms
  have "c \<noteq> None" by (simp add: SyncMetaData_min_def)
  with m show ?thesis by (auto simp: SyncMetaData_def split: list.splits)
qed

lemma grows_spends: "grows env w (w\<lparr>mapTxSpends := s\<rparr>)"
  by (simp add: grows_def mapWallet_at_def)

lemma AddToSpends_outpoint_grows:
  assumes "AddToSpends_outpoint env op h w = Inr w'"
  shows "grows env w w'"
  using assms grows_trans[OF grows_spends SyncMetaData_grows]
  by (auto simp: AddToSpends_outpoint_def Let_def)

lemma in_multimap_insert: "e \<in> set (multimap_insert e spends)"
  by (simp add: multimap_insert_def)

lemma AddToSpends_outpoint_returns:
  assumes "int_of_int64 (nOrderPos (mapWallet_at env h w)) < 2147483647"
  shows "\<exists>w'. AddToSpends_outpoint env op h w = Inr w'"
proof -
  let ?w1 = "w\<lparr>mapTxSpends := multimap_insert (op, h) (mapTxSpends w)\<rparr>"
  have "h \<in> set (map snd (filter (\<lambda>e. fst e = op) (mapTxSpends ?w1)))"
    using in_multimap_insert[of "(op, h)" "mapTxSpends w"] by force
  moreover have "int_of_int64 (nOrderPos (mapWallet_at env h ?w1)) < 2147483647"
    using assms by (simp add: mapWallet_at_def)
  ultimately have "\<exists>w'. SyncMetaData env (map snd (filter (\<lambda>e. fst e = op) (mapTxSpends ?w1))) ?w1 = Inr w'"
    by (intro SyncMetaData_returns) blast
  then show ?thesis by (simp add: AddToSpends_outpoint_def Let_def)
qed

lemma AddToSpends_inputs_grows:
  "AddToSpends_inputs env vin h w = Inr w' \<Longrightarrow> grows env w w'"
proof (induction vin arbitrary: w)
  case Nil
  then show ?case by (simp add: grows_refl)
next
  case (Cons op vin)
  then obtain w1 where 1: "AddToSpends_outpoint env op h w = Inr w1"
    and 2: "AddToSpends_inputs env vin h w1 = Inr w'"
    by (auto split: sum.splits)
  from AddToSpends_outpoint_grows[OF 1] Cons.IH[OF 2] show ?case by (rule grows_trans)
qed

lemma AddToSpends_inputs_returns:
  "int_of_int64 (nOrderPos (mapWallet_at env h w)) < 2147483647 \<Longrightarrow> \<exists>w'. AddToSpends_inputs env vin h w = Inr w'"
proof (induction vin arbitrary: w)
  case Nil
  then show ?case by simp
next
  case (Cons op vin)
  from AddToSpends_outpoint_returns[OF Cons.prems, of op]
  obtain w1 where 1: "AddToSpends_outpoint env op h w = Inr w1" by blast
  from AddToSpends_outpoint_grows[OF 1] Cons.prems
  have "int_of_int64 (nOrderPos (mapWallet_at env h w1)) < 2147483647" by (simp add: grows_def)
  from Cons.IH[OF this] 1 show ?case by simp
qed

lemma AddToSpends_grows: "AddToSpends env h w = Inr w' \<Longrightarrow> grows env w w'"
  by (auto simp: AddToSpends_def grows_refl AddToSpends_inputs_grows split: option.splits if_splits)

lemma AddToSpends_returns:
  "mapWallet w h \<noteq> None \<Longrightarrow> int_of_int64 (nOrderPos (mapWallet_at env h w)) < 2147483647
     \<Longrightarrow> \<exists>w'. AddToSpends env h w = Inr w'"
  using AddToSpends_inputs_returns[of env h w]
  by (auto simp: AddToSpends_def split: option.splits)

subsection \<open>What the spend index leaves of the ledger\<close>

lemma same_tx_refl: "same_tx t t"
  by (simp add: same_tx_def)

lemma same_tx_trans: "same_tx a b \<Longrightarrow> same_tx b c \<Longrightarrow> same_tx a c"
  by (simp add: same_tx_def)

lemma same_tx_MarkDirty: "same_tx t (MarkDirty t)"
  by (simp add: same_tx_def MarkDirty_def)

lemma keeps_refl: "keeps w w"
  by (simp add: keeps_def same_tx_refl)

lemma keeps_trans:
  assumes "keeps w w1" and "keeps w1 w2"
  shows "keeps w w2"
proof -
  have "\<exists>t'. mapWallet w2 h = Some t' \<and> same_tx t t'" if "mapWallet w h = Some t" for h t
  proof -
    from assms(1) that obtain t1 where 1: "mapWallet w1 h = Some t1" "same_tx t t1"
      unfolding keeps_def by blast
    from assms(2) 1(1) obtain t2 where 2: "mapWallet w2 h = Some t2" "same_tx t1 t2"
      unfolding keeps_def by blast
    from 1(2) 2 show ?thesis by (blast intro: same_tx_trans)
  qed
  moreover have "set (mapTxSpends w) \<subseteq> set (mapTxSpends w2)" "db_tx w2 = db_tx w"
    using assms unfolding keeps_def by auto
  ultimately show ?thesis unfolding keeps_def by blast
qed

lemma keeps_index: "keeps w (mapWallet_index env h w)"
  by (auto simp: keeps_def mapWallet_index_def same_tx_refl split: option.splits)

lemma keeps_copy: "keeps w (SyncMetaData_copy env c h w)"
proof -
  let ?w1 = "mapWallet_index env h w"
  have "keeps ?w1 (SyncMetaData_copy env c h w)"
    by (auto simp: SyncMetaData_copy_def Let_def keeps_def mapWallet_at_def same_tx_def
             split: option.splits)
  with keeps_index[of w env h] show ?thesis by (rule keeps_trans)
qed

lemma keeps_fold_copy: "keeps w (fold (SyncMetaData_copy env c) hs w)"
proof (induction hs arbitrary: w)
  case Nil
  show ?case by (simp add: keeps_refl)
next
  case (Cons h hs)
  have "keeps w (SyncMetaData_copy env c h w)" by (rule keeps_copy)
  moreover have "keeps (SyncMetaData_copy env c h w)
                   (fold (SyncMetaData_copy env c) hs (SyncMetaData_copy env c h w))"
    by (rule Cons.IH)
  ultimately show ?case by (simp add: keeps_trans)
qed

lemma keeps_min_fold:
  fixes w :: "'a ledger_scheme"
  shows "keeps w (snd (fold (SyncMetaData_min_step env) hs (acc, w)))"
proof (induction hs arbitrary: acc w)
  case Nil
  show ?case by (simp add: keeps_refl)
next
  case (Cons h hs)
  define acc1 where "acc1 = fst (SyncMetaData_min_step env h (acc, w))"
  have s: "SyncMetaData_min_step env h (acc, w) = (acc1, mapWallet_index env h w)"
    by (simp add: acc1_def SyncMetaData_min_step_def Let_def)
  have "keeps (mapWallet_index env h w)
          (snd (fold (SyncMetaData_min_step env) hs (acc1, mapWallet_index env h w)))"
    by (rule Cons.IH)
  with keeps_index[of w env h] show ?case by (simp add: s keeps_trans)
qed

lemma SyncMetaData_keeps:
  assumes "SyncMetaData env hs w = Inr w'"
  shows "keeps w w'"
proof -
  obtain m c w1 where m: "SyncMetaData_min env hs w = ((m, c), w1)"
    by (cases "SyncMetaData_min env hs w") auto
  from keeps_min_fold[of w env hs "(2147483647, None)"] m
  have g1: "keeps w w1" by (simp add: SyncMetaData_min_def)
  show ?thesis
  proof (cases hs)
    case Nil
    with assms m g1 show ?thesis by (simp add: SyncMetaData_def)
  next
    case (Cons h rest)
    with assms m obtain c' where "c = Some c'" "w' = fold (SyncMetaData_copy env c') hs w1"
      by (auto simp: SyncMetaData_def split: option.splits)
    with g1 keeps_fold_copy[of w1 env c' hs] show ?thesis by (auto intro: keeps_trans)
  qed
qed

lemma set_multimap_insert: "set (multimap_insert e spends) = insert e (set spends)"
proof -
  have "set (takeWhile P spends) \<union> set (dropWhile P spends) = set spends" for P
    by (metis set_append takeWhile_dropWhile_id)
  then show ?thesis by (auto simp: multimap_insert_def)
qed

lemma AddToSpends_outpoint_keeps:
  assumes "AddToSpends_outpoint env op h w = Inr w'"
  shows "keeps w w'" and "(op, h) \<in> set (mapTxSpends w')"
proof -
  let ?w1 = "w\<lparr>mapTxSpends := multimap_insert (op, h) (mapTxSpends w)\<rparr>"
  from assms have "SyncMetaData env (map snd (filter (\<lambda>e. fst e = op) (mapTxSpends ?w1))) ?w1 = Inr w'"
    by (simp add: AddToSpends_outpoint_def Let_def)
  from SyncMetaData_keeps[OF this] have k: "keeps ?w1 w'" .
  have k1: "keeps w ?w1" by (auto simp: keeps_def same_tx_refl set_multimap_insert)
  from k1 k show "keeps w w'" by (rule keeps_trans)
  from k show "(op, h) \<in> set (mapTxSpends w')" by (auto simp: keeps_def set_multimap_insert)
qed

lemma AddToSpends_inputs_keeps:
  "AddToSpends_inputs env vin h w = Inr w' \<Longrightarrow>
     keeps w w' \<and> (\<forall>op \<in> set vin. (op, h) \<in> set (mapTxSpends w'))"
proof (induction vin arbitrary: w)
  case Nil
  then show ?case by (simp add: keeps_refl)
next
  case (Cons op vin)
  then obtain w1 where 1: "AddToSpends_outpoint env op h w = Inr w1"
    and 2: "AddToSpends_inputs env vin h w1 = Inr w'"
    by (auto split: sum.splits)
  from Cons.IH[OF 2] have k2: "keeps w1 w'" and in2: "\<forall>op \<in> set vin. (op, h) \<in> set (mapTxSpends w')"
    by blast+
  from AddToSpends_outpoint_keeps[OF 1] have k1: "keeps w w1" and in1: "(op, h) \<in> set (mapTxSpends w1)" .
  from in1 k2 have "(op, h) \<in> set (mapTxSpends w')" by (auto simp: keeps_def)
  with in2 keeps_trans[OF k1 k2] show ?case by simp
qed

lemma AddToSpends_keeps:
  assumes "AddToSpends env h w = Inr w'" and "mapWallet w h = Some t"
  shows "keeps w w'"
    and "\<not> tx_IsCoinBase t \<and> \<not> tx_FromMainStep2 t \<longrightarrow> (\<forall>op \<in> set (tx_vin t). (op, h) \<in> set (mapTxSpends w'))"
  using assms AddToSpends_inputs_keeps[of env "tx_vin t" h w w']
  by (auto simp: AddToSpends_def keeps_refl split: if_splits)

subsection \<open>\<^verbatim>\<open>AddToWallet\<close>\<close>

lemma more_eq_fields:
  fixes w w' :: "'a commit_wallet_scheme"
  assumes "ledger.more w' = ledger.more w"
  shows "setInternalKeyPool w' = setInternalKeyPool w" "setExternalKeyPool w' = setExternalKeyPool w"
   "db_pool w' = db_pool w" "fBroadcastTransactions w' = fBroadcastTransactions w"
   "m_pool_key_to_index w' = m_pool_key_to_index w" "relayed w' = relayed w"
   "nOrderPosNext w' = nOrderPosNext w"
  using assms by (cases w; cases w'; simp)+

lemma grows_same_pool:
  fixes w w' :: "'a commit_wallet_scheme"
  assumes "grows env w w'"
  shows "same_pool w w'" and "nOrderPosNext w' = nOrderPosNext w"
proof -
  from assms have "ledger.more w' = ledger.more w" by (simp add: grows_def)
  from more_eq_fields[OF this] show "same_pool w w'" "nOrderPosNext w' = nOrderPosNext w"
    by (simp_all add: same_pool_def)
qed

lemma same_pool_trans: "same_pool w w1 \<Longrightarrow> same_pool w1 w2 \<Longrightarrow> same_pool w w2"
  by (simp add: same_pool_def)

text \<open>The record that \<^verbatim>\<open>AddToWallet\<close> makes of a transaction that the ledger did not
  have.\<close>

lemma AddToWallet_inserted_result:
  fixes w :: "'a commit_wallet_scheme"
  assumes new: "mapWallet w (tx_hash wtxIn) = None"
    and run: "AddToWallet_inserted env wtxIn w = Inr w'"
  shows "\<exists>rec. mapWallet w' (tx_hash wtxIn) = Some rec
           \<and> same_tx (wtxIn\<lparr>nTimeReceived := GetAdjustedTime env, nOrderPos := nOrderPosNext w\<rparr>) rec"
    and "\<forall>h t. mapWallet w h = Some t \<longrightarrow> (\<exists>t'. mapWallet w' h = Some t' \<and> same_tx t t')"
    and "set (mapTxSpends w) \<subseteq> set (mapTxSpends w')"
    and "db_tx w' = db_tx w"
    and "\<not> tx_IsCoinBase wtxIn \<and> \<not> tx_FromMainStep2 wtxIn
           \<longrightarrow> (\<forall>op \<in> set (tx_vin wtxIn). (op, tx_hash wtxIn) \<in> set (mapTxSpends w'))"
    and "nOrderPosNext w' = nOrderPosNext w + 1"
    and "same_pool w w'"
proof -
  let ?hash = "tx_hash wtxIn"
  let ?new = "wtxIn\<lparr>nTimeReceived := GetAdjustedTime env, nOrderPos := nOrderPosNext w\<rparr>"
  define wtx0 where "wtx0 = (MarkDirty wtxIn)\<lparr>nTimeReceived := GetAdjustedTime env, nOrderPos := nOrderPosNext w\<rparr>"
  define wtx where "wtx = wtx0\<lparr>nTimeSmart := ComputeTimeSmart env wtx0\<rparr>"
  define w3 where "w3 = w\<lparr>mapWallet := (mapWallet w)(?hash \<mapsto> wtx),
                           nOrderPosNext := nOrderPosNext w + 1,
                           db_nOrderPosNext := Some (nOrderPosNext w + 1)\<rparr>"
  have e: "AddToWallet_inserted env wtxIn w = AddToSpends env ?hash w3"
    by (simp add: AddToWallet_inserted_def Let_def w3_def wtx_def wtx0_def)
  with run have sp: "AddToSpends env ?hash w3 = Inr w'" by simp
  have m3: "mapWallet w3 ?hash = Some wtx" by (simp add: w3_def)
  have st: "same_tx ?new wtx" by (simp add: same_tx_def wtx_def wtx0_def MarkDirty_def)
  have tx: "tx_IsCoinBase wtx = tx_IsCoinBase wtxIn" "tx_FromMainStep2 wtx = tx_FromMainStep2 wtxIn"
    "tx_vin wtx = tx_vin wtxIn"
    by (simp_all add: wtx_def wtx0_def MarkDirty_def)
  note k = AddToSpends_keeps[OF sp m3]
  from k(1) m3 obtain rec where rec: "mapWallet w' ?hash = Some rec" "same_tx wtx rec"
    unfolding keeps_def by blast
  from rec st show "\<exists>rec. mapWallet w' ?hash = Some rec \<and> same_tx ?new rec"
    by (blast intro: same_tx_trans)
  have k3: "keeps w w3" using new by (auto simp: keeps_def w3_def same_tx_refl)
  from keeps_trans[OF k3 k(1)] have kw: "keeps w w'" .
  from kw show "\<forall>h t. mapWallet w h = Some t \<longrightarrow> (\<exists>t'. mapWallet w' h = Some t' \<and> same_tx t t')"
    "set (mapTxSpends w) \<subseteq> set (mapTxSpends w')" "db_tx w' = db_tx w"
    unfolding keeps_def by blast+
  from k(2) show "\<not> tx_IsCoinBase wtxIn \<and> \<not> tx_FromMainStep2 wtxIn
           \<longrightarrow> (\<forall>op \<in> set (tx_vin wtxIn). (op, tx_hash wtxIn) \<in> set (mapTxSpends w'))"
    unfolding tx .
  from AddToSpends_grows[OF sp] have g: "grows env w3 w'" .
  from grows_same_pool(2)[OF g] show "nOrderPosNext w' = nOrderPosNext w + 1" by (simp add: w3_def)
  have p3: "same_pool w w3" by (simp add: same_pool_def w3_def)
  from grows_same_pool(1)[OF g] p3 show "same_pool w w'" by (simp add: same_pool_def)
qed

lemma AddToWallet_inserted_returns:
  fixes w :: "'a commit_wallet_scheme"
  assumes "int_of_int64 (nOrderPosNext w) < 2147483647"
  shows "\<exists>w'. AddToWallet_inserted env wtxIn w = Inr w'"
proof -
  let ?hash = "tx_hash wtxIn"
  define wtx0 where "wtx0 = (MarkDirty wtxIn)\<lparr>nTimeReceived := GetAdjustedTime env, nOrderPos := nOrderPosNext w\<rparr>"
  define wtx where "wtx = wtx0\<lparr>nTimeSmart := ComputeTimeSmart env wtx0\<rparr>"
  define w3 where "w3 = w\<lparr>mapWallet := (mapWallet w)(?hash \<mapsto> wtx),
                           nOrderPosNext := nOrderPosNext w + 1,
                           db_nOrderPosNext := Some (nOrderPosNext w + 1)\<rparr>"
  have e: "AddToWallet_inserted env wtxIn w = AddToSpends env ?hash w3"
    by (simp add: AddToWallet_inserted_def Let_def w3_def wtx_def wtx0_def)
  have n: "nOrderPos wtx = nOrderPosNext w" by (simp add: wtx_def wtx0_def)
  have m3: "mapWallet w3 ?hash = Some wtx" by (simp add: w3_def)
  then have in3: "mapWallet w3 ?hash \<noteq> None" by simp
  have n3: "int_of_int64 (nOrderPos (mapWallet_at env ?hash w3)) < 2147483647"
    using assms m3 n by (simp add: mapWallet_at_def)
  from AddToSpends_returns[OF in3 n3] e show ?thesis by simp
qed

text \<open>The write to the database and the marking of the caches.\<close>

lemma AddToWallet_written_result:
  fixes w :: "'a commit_wallet_scheme"
  assumes "mapWallet w hash = Some t"
  shows "\<exists>t'. mapWallet (snd (AddToWallet_written env hash n u w)) hash = Some t' \<and> same_tx t t'"
    and "\<forall>h. h \<noteq> hash \<longrightarrow> mapWallet (snd (AddToWallet_written env hash n u w)) h = mapWallet w h"
    and "mapTxSpends (snd (AddToWallet_written env hash n u w)) = mapTxSpends w"
    and "(n \<or> u) \<and> WriteTx_ok env
           \<longrightarrow> db_tx (snd (AddToWallet_written env hash n u w)) (tx_hash t) = Some t"
    and "\<forall>h. db_tx w h \<noteq> None \<longrightarrow> db_tx (snd (AddToWallet_written env hash n u w)) h \<noteq> None"
    and "same_pool w (snd (AddToWallet_written env hash n u w))"
    and "nOrderPosNext (snd (AddToWallet_written env hash n u w)) = nOrderPosNext w"
  using assms
  by (auto simp add: AddToWallet_written_def Let_def same_pool_def mapWallet_at_def same_tx_MarkDirty
        same_tx_refl)

lemma AddToWallet_merge_keeps:
  "nOrderPos (fst (AddToWallet_merge wtxIn t)) = nOrderPos t"
  "nTimeReceived (fst (AddToWallet_merge wtxIn t)) = nTimeReceived t"
  by (simp_all add: AddToWallet_merge_def Let_def)

text \<open>What \<^verbatim>\<open>AddToWallet\<close> leaves when it returns, and that it returns.\<close>

lemma AddToWallet_result:
  fixes w :: "'a commit_wallet_scheme"
  assumes run: "AddToWallet env wtxIn w = Inr (b, w')"
  shows "\<exists>rec. mapWallet w' (tx_hash wtxIn) = Some rec
           \<and> (case mapWallet w (tx_hash wtxIn) of
                 None \<Rightarrow> same_tx (wtxIn\<lparr>nTimeReceived := GetAdjustedTime env,
                                        nOrderPos := nOrderPosNext w\<rparr>) rec
               | Some old \<Rightarrow> nOrderPos rec = nOrderPos old \<and> nTimeReceived rec = nTimeReceived old)"
    and "\<forall>h t. h \<noteq> tx_hash wtxIn \<and> mapWallet w h = Some t
           \<longrightarrow> (\<exists>t'. mapWallet w' h = Some t' \<and> same_tx t t')"
    and "set (mapTxSpends w) \<subseteq> set (mapTxSpends w')"
    and "mapWallet w (tx_hash wtxIn) = None \<and> \<not> tx_IsCoinBase wtxIn \<and> \<not> tx_FromMainStep2 wtxIn
           \<longrightarrow> (\<forall>op \<in> set (tx_vin wtxIn). (op, tx_hash wtxIn) \<in> set (mapTxSpends w'))"
    and "mapWallet w (tx_hash wtxIn) = None \<longrightarrow> nOrderPosNext w' = nOrderPosNext w + 1"
    and "mapWallet w (tx_hash wtxIn) = None \<and> WriteTx_ok env
           \<longrightarrow> (\<exists>d. db_tx w' (tx_hash wtxIn) = Some d
                  \<and> same_tx (wtxIn\<lparr>nTimeReceived := GetAdjustedTime env,
                                    nOrderPos := nOrderPosNext w\<rparr>) d)"
    and "\<forall>h. db_tx w h \<noteq> None \<longrightarrow> db_tx w' h \<noteq> None"
    and "same_pool w w'"
proof -
  let ?hash = "tx_hash wtxIn"
  let ?new = "wtxIn\<lparr>nTimeReceived := GetAdjustedTime env, nOrderPos := nOrderPosNext w\<rparr>"
  have "(\<exists>rec. mapWallet w' ?hash = Some rec
           \<and> (case mapWallet w ?hash of
                 None \<Rightarrow> same_tx ?new rec
               | Some old \<Rightarrow> nOrderPos rec = nOrderPos old \<and> nTimeReceived rec = nTimeReceived old))
      \<and> (\<forall>h t. h \<noteq> ?hash \<and> mapWallet w h = Some t
           \<longrightarrow> (\<exists>t'. mapWallet w' h = Some t' \<and> same_tx t t'))
      \<and> set (mapTxSpends w) \<subseteq> set (mapTxSpends w')
      \<and> (mapWallet w ?hash = None \<and> \<not> tx_IsCoinBase wtxIn \<and> \<not> tx_FromMainStep2 wtxIn
           \<longrightarrow> (\<forall>op \<in> set (tx_vin wtxIn). (op, ?hash) \<in> set (mapTxSpends w')))
      \<and> (mapWallet w ?hash = None \<longrightarrow> nOrderPosNext w' = nOrderPosNext w + 1)
      \<and> (mapWallet w ?hash = None \<and> WriteTx_ok env
           \<longrightarrow> (\<exists>d. db_tx w' ?hash = Some d \<and> same_tx ?new d))
      \<and> (\<forall>h. db_tx w h \<noteq> None \<longrightarrow> db_tx w' h \<noteq> None)
      \<and> same_pool w w'"
  proof (cases "mapWallet w ?hash")
    case None
    from run None obtain w1 where ins: "AddToWallet_inserted env wtxIn w = Inr w1"
      and w': "w' = snd (AddToWallet_written env ?hash True False w1)"
      by (auto simp: AddToWallet_def split: sum.splits)
    note i = AddToWallet_inserted_result[OF None ins]
    from i(1) obtain rec where rec: "mapWallet w1 ?hash = Some rec" "same_tx ?new rec" by blast
    note r = AddToWallet_written_result[OF rec(1), where env = env and n = True and u = False]
    from r(1) obtain rec' where rec': "mapWallet w' ?hash = Some rec'" "same_tx rec rec'"
      unfolding w' by blast
    have a: "\<exists>rec. mapWallet w' ?hash = Some rec
           \<and> (case mapWallet w ?hash of
                 None \<Rightarrow> same_tx ?new rec
               | Some old \<Rightarrow> nOrderPos rec = nOrderPos old \<and> nTimeReceived rec = nTimeReceived old)"
      using rec' rec(2) None by (auto intro: same_tx_trans)
    have b: "\<forall>h t. h \<noteq> ?hash \<and> mapWallet w h = Some t
           \<longrightarrow> (\<exists>t'. mapWallet w' h = Some t' \<and> same_tx t t')"
      using i(2) r(2) unfolding w' by auto
    have c: "set (mapTxSpends w) \<subseteq> set (mapTxSpends w')" using i(3) r(3) unfolding w' by simp
    have d: "\<not> tx_IsCoinBase wtxIn \<and> \<not> tx_FromMainStep2 wtxIn
           \<longrightarrow> (\<forall>op \<in> set (tx_vin wtxIn). (op, ?hash) \<in> set (mapTxSpends w'))"
      using i(5) r(3) unfolding w' by simp
    have e: "nOrderPosNext w' = nOrderPosNext w + 1" using i(6) r(7) unfolding w' by simp
    have hrec: "tx_hash rec = ?hash" using rec(2) by (simp add: same_tx_def)
    have f: "WriteTx_ok env \<longrightarrow> (\<exists>d. db_tx w' ?hash = Some d \<and> same_tx ?new d)"
      using r(4) rec(2) unfolding w' hrec by auto
    have g: "\<forall>h. db_tx w h \<noteq> None \<longrightarrow> db_tx w' h \<noteq> None" using r(5) i(4) unfolding w' by simp
    have h: "same_pool w w'" using i(7) r(6) unfolding w' by (rule same_pool_trans)
    from a b c d e f g h show ?thesis by blast
  next
    case (Some old)
    define m where "m = AddToWallet_merge wtxIn (MarkDirty old)"
    let ?w1 = "w\<lparr>mapWallet := (mapWallet w)(?hash \<mapsto> fst m)\<rparr>"
    from run Some have w': "w' = snd (AddToWallet_written env ?hash False (snd m) ?w1)"
      by (simp add: AddToWallet_def Let_def m_def)
    have m1: "mapWallet ?w1 ?hash = Some (fst m)" by simp
    note r = AddToWallet_written_result[OF m1, where env = env and n = False and u = "snd m"]
    from r(1) obtain rec' where rec': "mapWallet w' ?hash = Some rec'" "same_tx (fst m) rec'"
      unfolding w' by blast
    have mk: "nOrderPos (fst m) = nOrderPos old" "nTimeReceived (fst m) = nTimeReceived old"
      by (simp_all add: m_def AddToWallet_merge_keeps MarkDirty_def)
    have a: "\<exists>rec. mapWallet w' ?hash = Some rec
           \<and> (case mapWallet w ?hash of
                 None \<Rightarrow> same_tx ?new rec
               | Some old \<Rightarrow> nOrderPos rec = nOrderPos old \<and> nTimeReceived rec = nTimeReceived old)"
      using rec' mk Some by (auto simp: same_tx_def)
    have b: "\<forall>h t. h \<noteq> ?hash \<and> mapWallet w h = Some t
           \<longrightarrow> (\<exists>t'. mapWallet w' h = Some t' \<and> same_tx t t')"
      using r(2) unfolding w' by (auto simp: same_tx_refl)
    have c: "set (mapTxSpends w) \<subseteq> set (mapTxSpends w')" using r(3) unfolding w' by simp
    have g: "\<forall>h. db_tx w h \<noteq> None \<longrightarrow> db_tx w' h \<noteq> None" using r(5) unfolding w' by simp
    have h: "same_pool w w'" using r(6) unfolding w' by (simp add: same_pool_def)
    from a b c g h Some show ?thesis by simp
  qed
  then show "\<exists>rec. mapWallet w' (tx_hash wtxIn) = Some rec
           \<and> (case mapWallet w (tx_hash wtxIn) of
                 None \<Rightarrow> same_tx (wtxIn\<lparr>nTimeReceived := GetAdjustedTime env,
                                        nOrderPos := nOrderPosNext w\<rparr>) rec
               | Some old \<Rightarrow> nOrderPos rec = nOrderPos old \<and> nTimeReceived rec = nTimeReceived old)"
    and "\<forall>h t. h \<noteq> tx_hash wtxIn \<and> mapWallet w h = Some t
           \<longrightarrow> (\<exists>t'. mapWallet w' h = Some t' \<and> same_tx t t')"
    and "set (mapTxSpends w) \<subseteq> set (mapTxSpends w')"
    and "mapWallet w (tx_hash wtxIn) = None \<and> \<not> tx_IsCoinBase wtxIn \<and> \<not> tx_FromMainStep2 wtxIn
           \<longrightarrow> (\<forall>op \<in> set (tx_vin wtxIn). (op, tx_hash wtxIn) \<in> set (mapTxSpends w'))"
    and "mapWallet w (tx_hash wtxIn) = None \<longrightarrow> nOrderPosNext w' = nOrderPosNext w + 1"
    and "mapWallet w (tx_hash wtxIn) = None \<and> WriteTx_ok env
           \<longrightarrow> (\<exists>d. db_tx w' (tx_hash wtxIn) = Some d
                  \<and> same_tx (wtxIn\<lparr>nTimeReceived := GetAdjustedTime env,
                                    nOrderPos := nOrderPosNext w\<rparr>) d)"
    and "\<forall>h. db_tx w h \<noteq> None \<longrightarrow> db_tx w' h \<noteq> None"
    and "same_pool w w'"
    by blast+
qed

lemma AddToWallet_returns:
  fixes w :: "'a commit_wallet_scheme"
  assumes "int_of_int64 (nOrderPosNext w) < 2147483647"
  shows "\<exists>b w'. AddToWallet env wtxIn w = Inr (b, w')"
proof (cases "mapWallet w (tx_hash wtxIn)")
  case None
  from AddToWallet_inserted_returns[OF assms, of env wtxIn]
  obtain w1 where "AddToWallet_inserted env wtxIn w = Inr w1" by blast
  with None show ?thesis by (simp add: AddToWallet_def)
next
  case (Some wtx)
  then show ?thesis by (simp add: AddToWallet_def Let_def)
qed

subsection \<open>The signals for the spent coins\<close>

lemma notify_spent_coin_keeps:
  fixes w :: "'a commit_wallet_scheme"
  shows "keeps w (notify_spent_coin env p w)"
    and "same_pool w (notify_spent_coin env p w)"
    and "nOrderPosNext (notify_spent_coin env p w) = nOrderPosNext w"
proof -
  let ?w1 = "mapWallet_index env p w"
  have "keeps ?w1 (notify_spent_coin env p w)"
    by (auto simp: notify_spent_coin_def Let_def keeps_def mapWallet_at_def same_tx_MarkDirty
          same_tx_refl split: option.splits)
  with keeps_index[of w env p] show "keeps w (notify_spent_coin env p w)" by (rule keeps_trans)
  show "same_pool w (notify_spent_coin env p w)"
    "nOrderPosNext (notify_spent_coin env p w) = nOrderPosNext w"
    by (auto simp: notify_spent_coin_def mapWallet_index_def Let_def same_pool_def split: option.splits)
qed

lemma fold_notify_keeps:
  fixes w :: "'a commit_wallet_scheme"
  shows "keeps w (fold (\<lambda>prevout. notify_spent_coin env (fst prevout)) vin w)
    \<and> same_pool w (fold (\<lambda>prevout. notify_spent_coin env (fst prevout)) vin w)
    \<and> nOrderPosNext (fold (\<lambda>prevout. notify_spent_coin env (fst prevout)) vin w) = nOrderPosNext w"
proof (induction vin arbitrary: w)
  case Nil
  show ?case by (simp add: keeps_refl same_pool_def)
next
  case (Cons p vin)
  let ?w1 = "notify_spent_coin env (fst p) w"
  note n = notify_spent_coin_keeps[where w = w and env = env and p = "fst p"]
  from Cons.IH[of ?w1] n show ?case
    by (auto intro: keeps_trans same_pool_trans)
qed

subsection \<open>The claim\<close>

text \<open>
  C9. With broadcasting enabled and a mempool that refuses the transaction,
  \<^verbatim>\<open>CommitTransaction\<close> returns false, and nothing is rolled back. The ledger holds a
  record of the transaction: if it had none before, the record is the transaction as
  committed, with the time of receipt and with the order position taken from the
  counter, which has advanced by one; if it had one, that record has kept its order
  position and its time of receipt. Every other record of the ledger is still there
  with its transaction, every entry of the spend index is still there, and for a new
  transaction that is neither a coinbase nor the second step of a transfer from the main
  chain every input is entered in the spend index as spent by it. If the database took
  the write, it holds the new record; no record of the database is gone. The reserve key
  has given up its index, the pool entry is erased from the database, the index is in
  neither pool set, and the return of the key by its destructor changes nothing. The
  order counter is taken to be an \<^verbatim>\<open>int64_t\<close> that can be incremented and that, as an
  \<^verbatim>\<open>int\<close>, is below \<^verbatim>\<open>INT_MAX\<close>, so that \<^verbatim>\<open>SyncMetaData\<close> finds a transaction to copy from.
\<close>

theorem CommitTransaction_admission_fails:
  fixes w :: "'a commit_wallet_scheme"
  assumes "fBroadcastTransactions w" and "\<not> AcceptToMemoryPool_ok env wtxNew"
    and "- 9223372036854775808 \<le> nOrderPosNext w" and "nOrderPosNext w < 9223372036854775807"
    and "int_of_int64 (nOrderPosNext w) < 2147483647"
  shows "\<exists>rk' w'. CommitTransaction env wtxNew reservekey w = Inr (False, rk', w')
    \<and> (\<exists>rec. mapWallet w' (tx_hash wtxNew) = Some rec
          \<and> (case mapWallet w (tx_hash wtxNew) of
                None \<Rightarrow> same_tx (wtxNew\<lparr>nTimeReceived := GetAdjustedTime env,
                                        nOrderPos := nOrderPosNext w\<rparr>) rec
              | Some old \<Rightarrow> nOrderPos rec = nOrderPos old \<and> nTimeReceived rec = nTimeReceived old))
    \<and> (\<forall>h t. h \<noteq> tx_hash wtxNew \<and> mapWallet w h = Some t
           \<longrightarrow> (\<exists>t'. mapWallet w' h = Some t' \<and> same_tx t t'))
    \<and> set (mapTxSpends w) \<subseteq> set (mapTxSpends w')
    \<and> (mapWallet w (tx_hash wtxNew) = None \<and> \<not> tx_IsCoinBase wtxNew \<and> \<not> tx_FromMainStep2 wtxNew
           \<longrightarrow> (\<forall>op \<in> set (tx_vin wtxNew). (op, tx_hash wtxNew) \<in> set (mapTxSpends w')))
    \<and> (mapWallet w (tx_hash wtxNew) = None \<longrightarrow> nOrderPosNext w' = nOrderPosNext w + 1)
    \<and> (mapWallet w (tx_hash wtxNew) = None \<and> WriteTx_ok env
           \<longrightarrow> (\<exists>d. db_tx w' (tx_hash wtxNew) = Some d
                  \<and> same_tx (wtxNew\<lparr>nTimeReceived := GetAdjustedTime env,
                                     nOrderPos := nOrderPosNext w\<rparr>) d))
    \<and> (\<forall>h. db_tx w h \<noteq> None \<longrightarrow> db_tx w' h \<noteq> None)
    \<and> rk_nIndex rk' = -1
    \<and> db_pool w' = (if rk_nIndex reservekey = -1 then db_pool w
                    else (db_pool w)(rk_nIndex reservekey := None))
    \<and> setInternalKeyPool w' = setInternalKeyPool w
    \<and> setExternalKeyPool w' = setExternalKeyPool w
    \<and> ReserveKey_ReturnKey rk' w' = (rk', w')"
proof -
  let ?hash = "tx_hash wtxNew"
  let ?new = "wtxNew\<lparr>nTimeReceived := GetAdjustedTime env, nOrderPos := nOrderPosNext w\<rparr>"
  let ?rk = "reservekey\<lparr>rk_nIndex := -1, rk_vchPubKey := None\<rparr>"
  let ?w1 = "if rk_nIndex reservekey \<noteq> -1
             then w\<lparr>db_pool := (db_pool w)(rk_nIndex reservekey := None)\<rparr> else w"
  have keep: "ReserveKey_KeepKey reservekey w = (?rk, ?w1)"
    by (simp add: ReserveKey_KeepKey_def)
  have w1: "mapWallet ?w1 = mapWallet w" "mapTxSpends ?w1 = mapTxSpends w" "db_tx ?w1 = db_tx w"
    "nOrderPosNext ?w1 = nOrderPosNext w" "fBroadcastTransactions ?w1 = fBroadcastTransactions w"
    by simp_all
  have n1: "int_of_int64 (nOrderPosNext ?w1) < 2147483647" using assms(5) by simp
  from AddToWallet_returns[OF n1, of env wtxNew]
  obtain b w2 where run: "AddToWallet env wtxNew ?w1 = Inr (b, w2)" by blast
  note a = AddToWallet_result[OF run, unfolded w1]
  let ?w3 = "fold (\<lambda>prevout. notify_spent_coin env (fst prevout)) (tx_vin wtxNew) w2"
  let ?w4 = "?w3\<lparr>mapRequestCount := (mapRequestCount ?w3)(tx_hash wtxNew \<mapsto> 0)\<rparr>"
  from fold_notify_keeps[of w2 env "tx_vin wtxNew"]
  have k: "keeps w2 ?w3" and p3: "same_pool w2 ?w3" and o3: "nOrderPosNext ?w3 = nOrderPosNext w2"
    by blast+
  have w4: "mapWallet ?w4 = mapWallet ?w3" "mapTxSpends ?w4 = mapTxSpends ?w3" "db_tx ?w4 = db_tx ?w3"
    "nOrderPosNext ?w4 = nOrderPosNext ?w3"
    by simp_all
  from a(8) p3 have p13: "same_pool ?w1 ?w3" by (rule same_pool_trans)
  from p13 assms(1) have b4: "fBroadcastTransactions ?w4" by (simp add: same_pool_def)
  have res: "CommitTransaction env wtxNew reservekey w = Inr (False, ?rk, ?w4)"
    using keep run b4 assms(2) by (simp add: CommitTransaction_def Let_def)
  have c1: "\<exists>rec. mapWallet ?w4 ?hash = Some rec
          \<and> (case mapWallet w ?hash of
                None \<Rightarrow> same_tx ?new rec
              | Some old \<Rightarrow> nOrderPos rec = nOrderPos old \<and> nTimeReceived rec = nTimeReceived old)"
  proof -
    from a(1) obtain rec2 where r2: "mapWallet w2 ?hash = Some rec2"
      "case mapWallet w ?hash of
                None \<Rightarrow> same_tx ?new rec2
              | Some old \<Rightarrow> nOrderPos rec2 = nOrderPos old \<and> nTimeReceived rec2 = nTimeReceived old"
      by blast
    from k r2(1) obtain rec where r: "mapWallet ?w3 ?hash = Some rec" "same_tx rec2 rec"
      unfolding keeps_def by blast
    have "case mapWallet w ?hash of
                None \<Rightarrow> same_tx ?new rec
              | Some old \<Rightarrow> nOrderPos rec = nOrderPos old \<and> nTimeReceived rec = nTimeReceived old"
    proof (cases "mapWallet w ?hash")
      case None
      with r2(2) r(2) show ?thesis by (auto intro: same_tx_trans)
    next
      case (Some old)
      with r2(2) r(2) show ?thesis by (simp add: same_tx_def)
    qed
    with r(1) show ?thesis unfolding w4 by blast
  qed
  have c2: "\<forall>h t. h \<noteq> ?hash \<and> mapWallet w h = Some t
           \<longrightarrow> (\<exists>t'. mapWallet ?w4 h = Some t' \<and> same_tx t t')"
  proof (intro allI impI)
    fix h t assume "h \<noteq> ?hash \<and> mapWallet w h = Some t"
    with a(2) obtain t2 where t2: "mapWallet w2 h = Some t2" "same_tx t t2" by blast
    from k t2(1) obtain t3 where "mapWallet ?w3 h = Some t3" "same_tx t2 t3"
      unfolding keeps_def by blast
    with t2(2) show "\<exists>t'. mapWallet ?w4 h = Some t' \<and> same_tx t t'"
      unfolding w4 by (blast intro: same_tx_trans)
  qed
  from k have sp: "set (mapTxSpends w2) \<subseteq> set (mapTxSpends ?w4)" and db: "db_tx ?w4 = db_tx w2"
    unfolding keeps_def w4 by blast+
  have c3: "set (mapTxSpends w) \<subseteq> set (mapTxSpends ?w4)" using a(3) sp by blast
  have c4: "mapWallet w ?hash = None \<and> \<not> tx_IsCoinBase wtxNew \<and> \<not> tx_FromMainStep2 wtxNew
           \<longrightarrow> (\<forall>op \<in> set (tx_vin wtxNew). (op, ?hash) \<in> set (mapTxSpends ?w4))"
    using a(4) sp by blast
  have c5: "mapWallet w ?hash = None \<longrightarrow> nOrderPosNext ?w4 = nOrderPosNext w + 1"
    using a(5) o3 by simp
  have c6: "mapWallet w ?hash = None \<and> WriteTx_ok env
           \<longrightarrow> (\<exists>d. db_tx ?w4 ?hash = Some d \<and> same_tx ?new d)"
    using a(6) unfolding db .
  have c7: "\<forall>h. db_tx w h \<noteq> None \<longrightarrow> db_tx ?w4 h \<noteq> None"
    using a(7) unfolding db .
  have c8: "rk_nIndex ?rk = -1" by simp
  have c9: "db_pool ?w4 = (if rk_nIndex reservekey = -1 then db_pool w
                    else (db_pool w)(rk_nIndex reservekey := None))"
    using p13 by (simp add: same_pool_def)
  have c10: "setInternalKeyPool ?w4 = setInternalKeyPool w" "setExternalKeyPool ?w4 = setExternalKeyPool w"
    using p13 by (simp_all add: same_pool_def)
  have c11: "ReserveKey_ReturnKey ?rk ?w4 = (?rk, ?w4)"
    by (simp add: ReserveKey_ReturnKey_def)
  show ?thesis
    by (intro exI[of _ ?rk] exI[of _ ?w4] conjI)
       (fact res c1 c2 c3 c4 c5 c6 c7 c8 c9 c10 c11)+
qed

theorem CommitTransaction_admission_fails_witness:
  "fBroadcastTransactions pending_wallet
   \<and> \<not> AcceptToMemoryPool_ok refusing_env (unconfirmed_tx 60 [(20, 1)])
   \<and> nOrderPosNext pending_wallet = 6 \<and> int_of_int64 6 = 6
   \<and> mapWallet pending_wallet 60 = None \<and> WriteTx_ok refusing_env
   \<and> (\<exists>rk' w'. CommitTransaction refusing_env (unconfirmed_tx 60 [(20, 1)]) change_key pending_wallet
                   = Inr (False, rk', w')
         \<and> (\<exists>rec. mapWallet w' 60 = Some rec \<and> tx_hash rec = 60 \<and> tx_vin rec = [(20, 1)]
                \<and> nOrderPos rec = 6 \<and> nTimeReceived rec = 1000)
         \<and> (\<exists>t'. mapWallet w' 20 = Some t' \<and> tx_vin t' = [(10, 0)])
         \<and> ((20, 1), 60) \<in> set (mapTxSpends w') \<and> ((20, 0), 30) \<in> set (mapTxSpends w')
         \<and> nOrderPosNext w' = 7
         \<and> (\<exists>d. db_tx w' 60 = Some d \<and> tx_vin d = [(20, 1)] \<and> nOrderPos d = 6)
         \<and> rk_nIndex rk' = -1 \<and> db_pool w' 3 = None
         \<and> setInternalKeyPool w' = {4, 5} \<and> setExternalKeyPool w' = {1, 2}
         \<and> ReserveKey_ReturnKey rk' w' = (rk', w'))"
proof -
  let ?tx = "unconfirmed_tx 60 [(20, 1)]"
  have b: "fBroadcastTransactions pending_wallet" and n: "nOrderPosNext pending_wallet = 6"
    and new: "mapWallet pending_wallet 60 = None"
    and t20: "mapWallet pending_wallet 20 = Some (unconfirmed_tx 20 [(10, 0)])"
    and s30: "((20, 0), 30) \<in> set (mapTxSpends pending_wallet)"
    by (simp_all add: pending_wallet_def chain_ledger_def)
  have a: "\<not> AcceptToMemoryPool_ok refusing_env ?tx" and ok: "WriteTx_ok refusing_env"
    and time: "GetAdjustedTime refusing_env = 1000"
    by (simp_all add: refusing_env_def)
  have i6: "int_of_int64 6 = 6" by (simp add: int_of_int64_def)
  have lo: "- 9223372036854775808 \<le> nOrderPosNext pending_wallet"
    and hi: "nOrderPosNext pending_wallet < 9223372036854775807"
    and i32: "int_of_int64 (nOrderPosNext pending_wallet) < 2147483647"
    by (simp_all add: n i6)
  have tx: "tx_hash ?tx = 60" "tx_vin ?tx = [(20, 1)]" "\<not> tx_IsCoinBase ?tx" "\<not> tx_FromMainStep2 ?tx"
    by (simp_all add: unconfirmed_tx_def)
  from CommitTransaction_admission_fails[OF b a lo hi i32, of change_key]
  obtain rk' w' where all: "CommitTransaction refusing_env ?tx change_key pending_wallet = Inr (False, rk', w')
    \<and> (\<exists>rec. mapWallet w' (tx_hash ?tx) = Some rec
          \<and> (case mapWallet pending_wallet (tx_hash ?tx) of
                None \<Rightarrow> same_tx (?tx\<lparr>nTimeReceived := GetAdjustedTime refusing_env,
                                      nOrderPos := nOrderPosNext pending_wallet\<rparr>) rec
              | Some old \<Rightarrow> nOrderPos rec = nOrderPos old \<and> nTimeReceived rec = nTimeReceived old))
    \<and> (\<forall>h t. h \<noteq> tx_hash ?tx \<and> mapWallet pending_wallet h = Some t
           \<longrightarrow> (\<exists>t'. mapWallet w' h = Some t' \<and> same_tx t t'))
    \<and> set (mapTxSpends pending_wallet) \<subseteq> set (mapTxSpends w')
    \<and> (mapWallet pending_wallet (tx_hash ?tx) = None \<and> \<not> tx_IsCoinBase ?tx \<and> \<not> tx_FromMainStep2 ?tx
           \<longrightarrow> (\<forall>op \<in> set (tx_vin ?tx). (op, tx_hash ?tx) \<in> set (mapTxSpends w')))
    \<and> (mapWallet pending_wallet (tx_hash ?tx) = None
           \<longrightarrow> nOrderPosNext w' = nOrderPosNext pending_wallet + 1)
    \<and> (mapWallet pending_wallet (tx_hash ?tx) = None \<and> WriteTx_ok refusing_env
           \<longrightarrow> (\<exists>d. db_tx w' (tx_hash ?tx) = Some d
                  \<and> same_tx (?tx\<lparr>nTimeReceived := GetAdjustedTime refusing_env,
                                  nOrderPos := nOrderPosNext pending_wallet\<rparr>) d))
    \<and> (\<forall>h. db_tx pending_wallet h \<noteq> None \<longrightarrow> db_tx w' h \<noteq> None)
    \<and> rk_nIndex rk' = -1
    \<and> db_pool w' = (if rk_nIndex change_key = -1 then db_pool pending_wallet
                    else (db_pool pending_wallet)(rk_nIndex change_key := None))
    \<and> setInternalKeyPool w' = setInternalKeyPool pending_wallet
    \<and> setExternalKeyPool w' = setExternalKeyPool pending_wallet
    \<and> ReserveKey_ReturnKey rk' w' = (rk', w')"
    by (elim exE) (erule that)
  note r = all[THEN conjunct1] all[THEN conjunct2, THEN conjunct1]
    all[THEN conjunct2, THEN conjunct2, THEN conjunct1]
    all[THEN conjunct2, THEN conjunct2, THEN conjunct2, THEN conjunct1]
    all[THEN conjunct2, THEN conjunct2, THEN conjunct2, THEN conjunct2, THEN conjunct1]
    all[THEN conjunct2, THEN conjunct2, THEN conjunct2, THEN conjunct2, THEN conjunct2, THEN conjunct1]
    all[THEN conjunct2, THEN conjunct2, THEN conjunct2, THEN conjunct2, THEN conjunct2, THEN conjunct2,
        THEN conjunct1]
    all[THEN conjunct2, THEN conjunct2, THEN conjunct2, THEN conjunct2, THEN conjunct2, THEN conjunct2,
        THEN conjunct2, THEN conjunct2, THEN conjunct1]
    all[THEN conjunct2, THEN conjunct2, THEN conjunct2, THEN conjunct2, THEN conjunct2, THEN conjunct2,
        THEN conjunct2, THEN conjunct2, THEN conjunct2, THEN conjunct1]
    all[THEN conjunct2, THEN conjunct2, THEN conjunct2, THEN conjunct2, THEN conjunct2, THEN conjunct2,
        THEN conjunct2, THEN conjunct2, THEN conjunct2, THEN conjunct2, THEN conjunct1]
    all[THEN conjunct2, THEN conjunct2, THEN conjunct2, THEN conjunct2, THEN conjunct2, THEN conjunct2,
        THEN conjunct2, THEN conjunct2, THEN conjunct2, THEN conjunct2, THEN conjunct2, THEN conjunct1]
    all[THEN conjunct2, THEN conjunct2, THEN conjunct2, THEN conjunct2, THEN conjunct2, THEN conjunct2,
        THEN conjunct2, THEN conjunct2, THEN conjunct2, THEN conjunct2, THEN conjunct2, THEN conjunct2]
  from r(2) obtain rec where rec: "mapWallet w' 60 = Some rec"
    "same_tx (?tx\<lparr>nTimeReceived := 1000, nOrderPos := 6\<rparr>) rec"
    unfolding tx new n time by auto
  then have c1: "\<exists>rec. mapWallet w' 60 = Some rec \<and> tx_hash rec = 60 \<and> tx_vin rec = [(20, 1)]
                \<and> nOrderPos rec = 6 \<and> nTimeReceived rec = 1000"
    by (simp add: same_tx_def unconfirmed_tx_def)
  have "(20::nat) \<noteq> tx_hash ?tx \<and> mapWallet pending_wallet 20 = Some (unconfirmed_tx 20 [(10, 0)])"
    using t20 by (simp add: unconfirmed_tx_def)
  with r(3) have "\<exists>t'. mapWallet w' 20 = Some t' \<and> same_tx (unconfirmed_tx 20 [(10, 0)]) t'"
    by blast
  then obtain t' where "mapWallet w' 20 = Some t'" "same_tx (unconfirmed_tx 20 [(10, 0)]) t'"
    by blast
  then have c2: "\<exists>t'. mapWallet w' 20 = Some t' \<and> tx_vin t' = [(10, 0)]"
    by (simp add: same_tx_def unconfirmed_tx_def)
  from r(5) new have c3: "((20, 1), 60) \<in> set (mapTxSpends w')" by (simp add: unconfirmed_tx_def)
  from r(4) s30 have c4: "((20, 0), 30) \<in> set (mapTxSpends w')" by blast
  from r(6) new n have c5: "nOrderPosNext w' = 7" by (simp add: unconfirmed_tx_def)
  from r(7) new ok obtain d where "db_tx w' 60 = Some d"
    "same_tx (?tx\<lparr>nTimeReceived := 1000, nOrderPos := 6\<rparr>) d"
    unfolding tx n time by auto
  then have c6: "\<exists>d. db_tx w' 60 = Some d \<and> tx_vin d = [(20, 1)] \<and> nOrderPos d = 6"
    by (simp add: same_tx_def unconfirmed_tx_def)
  from r(9) have c7: "db_pool w' 3 = None" by (simp add: change_key_def pending_wallet_def)
  from r(10,11) have c8: "setInternalKeyPool w' = {4, 5}" "setExternalKeyPool w' = {1, 2}"
    by (simp_all add: pending_wallet_def)
  from r(1) c1 c2 c3 c4 c5 c6 r(8) c7 c8 r(12)
  have "\<exists>rk' w'. CommitTransaction refusing_env ?tx change_key pending_wallet = Inr (False, rk', w')
         \<and> (\<exists>rec. mapWallet w' 60 = Some rec \<and> tx_hash rec = 60 \<and> tx_vin rec = [(20, 1)]
                \<and> nOrderPos rec = 6 \<and> nTimeReceived rec = 1000)
         \<and> (\<exists>t'. mapWallet w' 20 = Some t' \<and> tx_vin t' = [(10, 0)])
         \<and> ((20, 1), 60) \<in> set (mapTxSpends w') \<and> ((20, 0), 30) \<in> set (mapTxSpends w')
         \<and> nOrderPosNext w' = 7
         \<and> (\<exists>d. db_tx w' 60 = Some d \<and> tx_vin d = [(20, 1)] \<and> nOrderPos d = 6)
         \<and> rk_nIndex rk' = -1 \<and> db_pool w' 3 = None
         \<and> setInternalKeyPool w' = {4, 5} \<and> setExternalKeyPool w' = {1, 2}
         \<and> ReserveKey_ReturnKey rk' w' = (rk', w')"
    by blast
  with b a n i6 new ok show ?thesis by blast
qed

section \<open>Key generation on an HD wallet\<close>

subsection \<open>The derivation loop\<close>

lemma derive_next_eq:
  "derive_next env internal ck md w = derived_at env internal ck md w (chain_counter internal (hdChain w))"
  by (simp add: derive_next_def derived_at_def chain_counter_def set_chain_counter_def)

lemma HaveKey_set_chain_counter [simp]:
  "HaveKey (set_chain_counter internal c w) = HaveKey w"
  by (simp add: HaveKey_def set_chain_counter_def fun_eq_iff)

lemma chain_counter_set [simp]:
  "chain_counter internal (hdChain (set_chain_counter internal c w)) = c"
  by (simp add: chain_counter_def set_chain_counter_def)

lemma chain_counter_set_other:
  "chain_counter (\<not> internal) (hdChain (set_chain_counter internal c w))
     = chain_counter (\<not> internal) (hdChain w)"
  by (simp add: chain_counter_def set_chain_counter_def)

lemma set_chain_counter_twice [simp]:
  "set_chain_counter internal c (set_chain_counter internal c' w) = set_chain_counter internal c w"
  by (simp add: set_chain_counter_def)

lemma set_chain_counter_fields [simp]:
  "mapKeys (set_chain_counter internal c w) = mapKeys w"
  "mapKeyMetadata (set_chain_counter internal c w) = mapKeyMetadata w"
  "nWalletVersion (set_chain_counter internal c w) = nWalletVersion w"
  "nWalletMaxVersion (set_chain_counter internal c w) = nWalletMaxVersion w"
  "fCryptedKeys (set_chain_counter internal c w) = fCryptedKeys w"
  "masterKeyID (hdChain (set_chain_counter internal c w)) = masterKeyID (hdChain w)"
  by (simp_all add: set_chain_counter_def)

lemma derived_at_again:
  "derived_at env internal ck (md\<lparr>hdKeypath := p\<rparr>) (set_chain_counter internal c w) k
     = derived_at env internal ck md w k"
  by (simp add: derived_at_def)

lemma leaf_id_child:
  "leaf_id env master internal k = child_id env (chain_child_key env master internal) k"
  by (simp add: leaf_id_def hardened_leaf_def child_id_def)

lemma loop_unfold:
  "DeriveNewChildKey_loop env internal ck md w =
     (if HaveKey w (child_id env ck (chain_counter internal (hdChain w)))
      then DeriveNewChildKey_loop env internal ck
             (md\<lparr>hdKeypath := keypath internal (unat (chain_counter internal (hdChain w)))\<rparr>)
             (set_chain_counter internal (chain_counter internal (hdChain w) + 1) w)
      else Some (derived_at env internal ck md w (chain_counter internal (hdChain w))))"
  by (subst DeriveNewChildKey_loop.simps)
     (simp add: derive_next_eq, simp add: derived_at_def child_id_def)

text \<open>If the loop ends, it has skipped some number \<open>n\<close> of children that the wallet
  knows and stopped at the first one that it does not know.\<close>

lemma DeriveNewChildKey_loop_result:
  assumes "DeriveNewChildKey_loop env internal ck md w = Some r"
  shows "\<exists>n. (\<forall>i<n. HaveKey w (child_id env ck (chain_counter internal (hdChain w) + of_nat i)))
           \<and> \<not> HaveKey w (child_id env ck (chain_counter internal (hdChain w) + of_nat n))
           \<and> r = derived_at env internal ck md w (chain_counter internal (hdChain w) + of_nat n)"
proof -
  let ?P = "\<lambda>env internal ck md w r.
      \<exists>n. (\<forall>i<n. HaveKey w (child_id env ck (chain_counter internal (hdChain w) + of_nat i)))
           \<and> \<not> HaveKey w (child_id env ck (chain_counter internal (hdChain w) + of_nat n))
           \<and> r = derived_at env internal ck md w (chain_counter internal (hdChain w) + of_nat n)"
  have "?P env internal ck md w r"
  proof (rule DeriveNewChildKey_loop.raw_induct[where P = ?P, OF _ assms])
    fix f env internal ck md w r
    assume IH: "\<And>env internal ck md w r. f env internal ck md w = Some r \<Longrightarrow> ?P env internal ck md w r"
      and body: "(case derive_next env internal ck md w of
                    (childKey, metadata', w') \<Rightarrow>
                      if HaveKey w' (PubKey_GetID env (GetPubKey env (ExtKey_key env childKey)))
                      then f env internal ck metadata' w'
                      else Some (childKey, metadata', w')) = Some r"
    let ?c = "chain_counter internal (hdChain w)"
    let ?w1 = "set_chain_counter internal (?c + 1) w"
    let ?md1 = "md\<lparr>hdKeypath := keypath internal (unat ?c)\<rparr>"
    show "?P env internal ck md w r"
    proof (cases "HaveKey w (child_id env ck ?c)")
      case False
      with body have "r = derived_at env internal ck md w ?c"
        by (simp add: derive_next_eq) (simp add: derived_at_def child_id_def)
      with False show ?thesis by (intro exI[of _ 0]) simp
    next
      case True
      with body have "f env internal ck ?md1 ?w1 = Some r"
        by (simp add: derive_next_eq) (simp add: derived_at_def child_id_def)
      from IH[OF this] obtain n where
        sk: "\<forall>i<n. HaveKey w (child_id env ck (?c + 1 + of_nat i))"
        and st: "\<not> HaveKey w (child_id env ck (?c + 1 + of_nat n))"
        and r: "r = derived_at env internal ck md w (?c + 1 + of_nat n)"
        unfolding chain_counter_set HaveKey_set_chain_counter derived_at_again by blast
      have eq: "?c + 1 + of_nat j = ?c + of_nat (Suc j)" for j by simp
      have "HaveKey w (child_id env ck (?c + of_nat i))" if "i < Suc n" for i
      proof (cases i)
        case 0 with True show ?thesis by simp
      next
        case (Suc j)
        with that sk have "HaveKey w (child_id env ck (?c + 1 + of_nat j))" by simp
        with Suc show ?thesis unfolding eq by simp
      qed
      with st r show ?thesis unfolding eq by (intro exI[of _ "Suc n"]) blast
    qed
  qed
  then show ?thesis .
qed

text \<open>Conversely the loop ends as soon as the wallet does not know a child.\<close>

lemma DeriveNewChildKey_loop_returns:
  assumes "\<forall>i<n. HaveKey w (child_id env ck (chain_counter internal (hdChain w) + of_nat i))"
    and "\<not> HaveKey w (child_id env ck (chain_counter internal (hdChain w) + of_nat n))"
  shows "DeriveNewChildKey_loop env internal ck md w
           = Some (derived_at env internal ck md w (chain_counter internal (hdChain w) + of_nat n))"
  using assms
proof (induction n arbitrary: w md)
  case 0
  then show ?case by (subst loop_unfold) simp
next
  case (Suc n)
  let ?c = "chain_counter internal (hdChain w)"
  let ?w1 = "set_chain_counter internal (?c + 1) w"
  let ?md1 = "md\<lparr>hdKeypath := keypath internal (unat ?c)\<rparr>"
  have eq: "?c + 1 + of_nat j = ?c + of_nat (Suc j)" for j by simp
  from Suc.prems(1) have "HaveKey w (child_id env ck (?c + of_nat 0))" by blast
  then have first: "HaveKey w (child_id env ck ?c)" by simp
  have "HaveKey w (child_id env ck (?c + of_nat (Suc i)))" if "i < n" for i
    using Suc.prems(1) that by (simp del: of_nat_Suc)
  then have sk: "\<forall>i<n. HaveKey ?w1 (child_id env ck (chain_counter internal (hdChain ?w1) + of_nat i))"
    unfolding chain_counter_set HaveKey_set_chain_counter eq by blast
  have st: "\<not> HaveKey ?w1 (child_id env ck (chain_counter internal (hdChain ?w1) + of_nat n))"
    unfolding chain_counter_set HaveKey_set_chain_counter eq using Suc.prems(2) by simp
  have "DeriveNewChildKey_loop env internal ck md w = DeriveNewChildKey_loop env internal ck ?md1 ?w1"
    using first by (subst loop_unfold) simp
  also have "\<dots> = Some (derived_at env internal ck md w (?c + of_nat (Suc n)))"
    using Suc.IH[OF sk st, of ?md1] unfolding chain_counter_set derived_at_again eq .
  finally show ?case .
qed

subsection \<open>The index of a leaf\<close>

lemma hardened_index_ge: "BIP32_HARDENED_KEY_LIMIT \<le> (k OR BIP32_HARDENED_KEY_LIMIT)"
  by (rule le_word_or1)

lemma hardened_index_offset:
  assumes "k < 0x80000000"
  shows "(k OR BIP32_HARDENED_KEY_LIMIT) = BIP32_HARDENED_KEY_LIMIT + k"
proof -
  have "k < 2 ^ 31" using assms by simp
  then have m: "k AND mask 31 = k" by (rule less_mask_eq)
  have "(mask 31 :: 32 word) AND 0x80000000 = 0" by (simp add: mask_eq_exp_minus_1)
  then have "(k AND mask 31) AND 0x80000000 = 0" by (simp add: and.assoc)
  then have "k AND 0x80000000 = 0" using m by simp
  then have "k + 0x80000000 = k OR 0x80000000" by (rule disjunctive_add_eq_or)
  then show ?thesis by (simp add: BIP32_HARDENED_KEY_LIMIT_def add.commute)
qed

subsection \<open>\<^verbatim>\<open>DeriveNewChildKey\<close>\<close>

lemma DeriveNewChildKey_result:
  assumes "DeriveNewChildKey env md internal w = Some (Inr (secret, md', w'))"
  shows "\<exists>master n.
           GetKey w (masterKeyID (hdChain w)) = Some master
         \<and> (\<forall>i<n. HaveKey w (leaf_id env master internal (chain_counter internal (hdChain w) + of_nat i)))
         \<and> \<not> HaveKey w (leaf_id env master internal (chain_counter internal (hdChain w) + of_nat n))
         \<and> secret = hardened_leaf env master internal (chain_counter internal (hdChain w) + of_nat n)
         \<and> md' = md\<lparr>hdKeypath := keypath internal (unat (chain_counter internal (hdChain w) + of_nat n)),
                     hdMasterKeyID := masterKeyID (hdChain w)\<rparr>
         \<and> w' = (set_chain_counter internal (chain_counter internal (hdChain w) + of_nat n + 1) w)
                  \<lparr>db_hdchain := Some (hdChain (set_chain_counter internal
                                   (chain_counter internal (hdChain w) + of_nat n + 1) w))\<rparr>"
proof -
  from assms obtain master where mk: "GetKey w (masterKeyID (hdChain w)) = Some master"
    by (cases "GetKey w (masterKeyID (hdChain w))") (simp_all add: DeriveNewChildKey_def)
  let ?ck = "chain_child_key env master internal"
  from assms mk obtain r where
    loop: "DeriveNewChildKey_loop env internal ?ck md w = Some r"
    by (cases "DeriveNewChildKey_loop env internal ?ck md w")
       (simp_all add: DeriveNewChildKey_def split: if_splits)
  from DeriveNewChildKey_loop_result[OF loop] obtain n where
    sk: "\<forall>i<n. HaveKey w (child_id env ?ck (chain_counter internal (hdChain w) + of_nat i))"
    and st: "\<not> HaveKey w (child_id env ?ck (chain_counter internal (hdChain w) + of_nat n))"
    and r: "r = derived_at env internal ?ck md w (chain_counter internal (hdChain w) + of_nat n)"
    by blast
  from assms mk loop r have
    "secret = hardened_leaf env master internal (chain_counter internal (hdChain w) + of_nat n)"
    "md' = md\<lparr>hdKeypath := keypath internal (unat (chain_counter internal (hdChain w) + of_nat n)),
                hdMasterKeyID := masterKeyID (hdChain w)\<rparr>"
    "w' = (set_chain_counter internal (chain_counter internal (hdChain w) + of_nat n + 1) w)
             \<lparr>db_hdchain := Some (hdChain (set_chain_counter internal
                              (chain_counter internal (hdChain w) + of_nat n + 1) w))\<rparr>"
    by (simp_all add: DeriveNewChildKey_def derived_at_def hardened_leaf_def split: if_splits)
  with mk sk st show ?thesis unfolding leaf_id_child by blast
qed

lemma DeriveNewChildKey_returns:
  assumes "GetKey w (masterKeyID (hdChain w)) = Some master"
    and "internal \<longrightarrow> CanSupportFeature w FEATURE_HD_SPLIT"
    and "WriteHDChain_ok env"
    and "\<forall>i<n. HaveKey w (leaf_id env master internal (chain_counter internal (hdChain w) + of_nat i))"
    and "\<not> HaveKey w (leaf_id env master internal (chain_counter internal (hdChain w) + of_nat n))"
  shows "DeriveNewChildKey env md internal w =
           Some (Inr (hardened_leaf env master internal (chain_counter internal (hdChain w) + of_nat n),
                      md\<lparr>hdKeypath := keypath internal (unat (chain_counter internal (hdChain w) + of_nat n)),
                         hdMasterKeyID := masterKeyID (hdChain w)\<rparr>,
                      (set_chain_counter internal (chain_counter internal (hdChain w) + of_nat n + 1) w)
                        \<lparr>db_hdchain := Some (hdChain (set_chain_counter internal
                                   (chain_counter internal (hdChain w) + of_nat n + 1) w))\<rparr>))"
proof -
  let ?ck = "chain_child_key env master internal"
  from assms(4,5) have
    "DeriveNewChildKey_loop env internal ?ck md w
       = Some (derived_at env internal ?ck md w (chain_counter internal (hdChain w) + of_nat n))"
    unfolding leaf_id_child by (rule DeriveNewChildKey_loop_returns)
  with assms(1,2,3) show ?thesis
    by (simp add: DeriveNewChildKey_def derived_at_def hardened_leaf_def)
qed

subsection \<open>Storing the generated key\<close>

lemma RemoveWatchOnly_if_watched_fields [simp]:
  "hdChain (RemoveWatchOnly_if_watched s w) = hdChain w"
  "mapKeys (RemoveWatchOnly_if_watched s w) = mapKeys w"
  "mapKeyMetadata (RemoveWatchOnly_if_watched s w) = mapKeyMetadata w"
  "nWalletMaxVersion (RemoveWatchOnly_if_watched s w) = nWalletMaxVersion w"
  "fCryptedKeys (RemoveWatchOnly_if_watched s w) = fCryptedKeys w"
  "db_hdchain (RemoveWatchOnly_if_watched s w) = db_hdchain w"
  by (simp_all add: RemoveWatchOnly_if_watched_def)

lemma UpdateTimeFirstKey_fields [simp]:
  "hdChain (UpdateTimeFirstKey t w) = hdChain w"
  "mapKeys (UpdateTimeFirstKey t w) = mapKeys w"
  "mapKeyMetadata (UpdateTimeFirstKey t w) = mapKeyMetadata w"
  "nWalletMaxVersion (UpdateTimeFirstKey t w) = nWalletMaxVersion w"
  "fCryptedKeys (UpdateTimeFirstKey t w) = fCryptedKeys w"
  "db_hdchain (UpdateTimeFirstKey t w) = db_hdchain w"
  by (simp_all add: UpdateTimeFirstKey_def)

lemma SetMinVersion_fields [simp]:
  "hdChain (SetMinVersion v w) = hdChain w"
  "mapKeys (SetMinVersion v w) = mapKeys w"
  "mapKeyMetadata (SetMinVersion v w) = mapKeyMetadata w"
  "fCryptedKeys (SetMinVersion v w) = fCryptedKeys w"
  "db_hdchain (SetMinVersion v w) = db_hdchain w"
  by (simp_all add: SetMinVersion_def Let_def)

lemma SetMinVersion_max:
  "v \<le> nWalletMaxVersion w \<Longrightarrow> nWalletMaxVersion (SetMinVersion v w) = nWalletMaxVersion w"
  by (simp add: SetMinVersion_def Let_def)

lemma AddKeyPubKeyWithDB_fields:
  assumes "AddKeyPubKeyWithDB env secret pubkey w = (True, w')"
    and "mapKeyMetadata w (PubKey_GetID env pubkey) = Some md"
  shows "hdChain w' = hdChain w" "db_hdchain w' = db_hdchain w"
    "mapKeyMetadata w' = mapKeyMetadata w"
    "mapKeys w' = (mapKeys w)(PubKey_GetID env pubkey \<mapsto> secret)"
    "fCryptedKeys w' = fCryptedKeys w" "nWalletMaxVersion w' = nWalletMaxVersion w"
  using assms
  by (auto simp add: AddKeyPubKeyWithDB_def KeyStore_AddKeyPubKey_def mapKeyMetadata_index_def
        Let_def split: if_splits)

lemma AddKeyPubKeyWithDB_ok:
  assumes "KeyStore_AddKeyPubKey_ok env" and "fCryptedKeys w \<or> WriteKey_ok env"
  shows "fst (AddKeyPubKeyWithDB env secret pubkey w)"
  using assms
  by (auto simp add: AddKeyPubKeyWithDB_def KeyStore_AddKeyPubKey_def mapKeyMetadata_index_def
        Let_def)

lemma GenerateNewKey_store_fields:
  assumes "GenerateNewKey_store env fc secret md w = Inr (p, w')"
    and "fc \<longrightarrow> CanSupportFeature w FEATURE_COMPRPUBKEY"
  shows "p = GetPubKey env secret" "hdChain w' = hdChain w" "db_hdchain w' = db_hdchain w"
    "mapKeyMetadata w' = (mapKeyMetadata w)(PubKey_GetID env (GetPubKey env secret) \<mapsto> md)"
    "mapKeys w' = (mapKeys w)(PubKey_GetID env (GetPubKey env secret) \<mapsto> secret)"
    "fCryptedKeys w' = fCryptedKeys w" "nWalletMaxVersion w' = nWalletMaxVersion w"
proof -
  let ?w1 = "if fc then SetMinVersion FEATURE_COMPRPUBKEY w else w"
  let ?pub = "GetPubKey env secret"
  let ?w3 = "UpdateTimeFirstKey (nCreateTime md)
               (?w1\<lparr>mapKeyMetadata := (mapKeyMetadata ?w1)(PubKey_GetID env ?pub \<mapsto> md)\<rparr>)"
  from assms(1) have add: "AddKeyPubKeyWithDB env secret ?pub ?w3 = (True, w')" and p: "p = ?pub"
    by (auto simp add: GenerateNewKey_store_def Let_def split: if_splits prod.splits bool.splits)
  have mx: "nWalletMaxVersion ?w1 = nWalletMaxVersion w"
    using assms(2) by (simp add: SetMinVersion_max CanSupportFeature_def)
  have md: "mapKeyMetadata ?w3 (PubKey_GetID env ?pub) = Some md" by simp
  note add = add md
  show "p = GetPubKey env secret" by (rule p)
  show "hdChain w' = hdChain w" using AddKeyPubKeyWithDB_fields(1)[OF add] by simp
  show "db_hdchain w' = db_hdchain w" using AddKeyPubKeyWithDB_fields(2)[OF add] by simp
  show "mapKeyMetadata w' = (mapKeyMetadata w)(PubKey_GetID env ?pub \<mapsto> md)"
    using AddKeyPubKeyWithDB_fields(3)[OF add] by simp
  show "mapKeys w' = (mapKeys w)(PubKey_GetID env ?pub \<mapsto> secret)"
    using AddKeyPubKeyWithDB_fields(4)[OF add] by simp
  show "fCryptedKeys w' = fCryptedKeys w" using AddKeyPubKeyWithDB_fields(5)[OF add] by simp
  show "nWalletMaxVersion w' = nWalletMaxVersion w"
    using AddKeyPubKeyWithDB_fields(6)[OF add] mx by simp
qed

lemma GenerateNewKey_store_ok:
  assumes "VerifyPubKey env secret (GetPubKey env secret)"
    and "KeyStore_AddKeyPubKey_ok env" and "fCryptedKeys w \<or> WriteKey_ok env"
  shows "\<exists>w'. GenerateNewKey_store env fc secret md w = Inr (GetPubKey env secret, w')"
proof -
  let ?w1 = "if fc then SetMinVersion FEATURE_COMPRPUBKEY w else w"
  let ?pub = "GetPubKey env secret"
  let ?w3 = "UpdateTimeFirstKey (nCreateTime md)
               (?w1\<lparr>mapKeyMetadata := (mapKeyMetadata ?w1)(PubKey_GetID env ?pub \<mapsto> md)\<rparr>)"
  have "fCryptedKeys ?w3 \<or> WriteKey_ok env" using assms(3) by simp
  from AddKeyPubKeyWithDB_ok[OF assms(2) this, of secret ?pub]
  obtain w' where "AddKeyPubKeyWithDB env secret ?pub ?w3 = (True, w')"
    by (cases "AddKeyPubKeyWithDB env secret ?pub ?w3") simp
  with assms(1) show ?thesis by (simp add: GenerateNewKey_store_def Let_def)
qed

subsection \<open>\<^verbatim>\<open>GenerateNewKey\<close>\<close>

lemma GenerateNewKey_hd:
  assumes "IsHDEnabled w"
  shows "GenerateNewKey env internal w =
           (case DeriveNewChildKey env (CKeyMetadata_init (GetTime env))
                   (internal \<and> CanSupportFeature w FEATURE_HD_SPLIT) w of
              None \<Rightarrow> None
            | Some (Inl e) \<Rightarrow> Some (Inl e)
            | Some (Inr (secret, metadata', w')) \<Rightarrow>
                Some (GenerateNewKey_store env (CanSupportFeature w FEATURE_COMPRPUBKEY)
                        secret metadata' w'))"
proof -
  have "(if CanSupportFeature w FEATURE_HD_SPLIT then internal else False)
          = (internal \<and> CanSupportFeature w FEATURE_HD_SPLIT)" by simp
  with assms show ?thesis by (simp add: GenerateNewKey_def Let_def)
qed

text \<open>What a successful call on an HD wallet has done; \<open>internal_chain\<close> tells whether the
  internal chain was used, \<open>n\<close> is the number of leaves skipped.\<close>

lemma GenerateNewKey_result:
  assumes hd: "IsHDEnabled w"
    and g: "GenerateNewKey env internal w = Some (Inr (pubkey, w'))"
    and chain: "internal_chain = (internal \<and> CanSupportFeature w FEATURE_HD_SPLIT)"
    and c: "c = chain_counter internal_chain (hdChain w)"
  shows "\<exists>master n.
           GetKey w (masterKeyID (hdChain w)) = Some master
         \<and> (\<forall>i<n. HaveKey w (leaf_id env master internal_chain (c + of_nat i)))
         \<and> \<not> HaveKey w (leaf_id env master internal_chain (c + of_nat n))
         \<and> pubkey = GetPubKey env (hardened_leaf env master internal_chain (c + of_nat n))
         \<and> mapKeyMetadata w' (leaf_id env master internal_chain (c + of_nat n))
             = Some ((CKeyMetadata_init (GetTime env))
                       \<lparr>hdKeypath := keypath internal_chain (unat (c + of_nat n)),
                        hdMasterKeyID := masterKeyID (hdChain w)\<rparr>)
         \<and> mapKeys w' = (mapKeys w)(leaf_id env master internal_chain (c + of_nat n)
                                       \<mapsto> hardened_leaf env master internal_chain (c + of_nat n))
         \<and> hdChain w' = hdChain (set_chain_counter internal_chain (c + of_nat n + 1) w)
         \<and> db_hdchain w' = Some (hdChain w')"
proof -
  let ?md = "CKeyMetadata_init (GetTime env)"
  let ?fc = "CanSupportFeature w FEATURE_COMPRPUBKEY"
  from g obtain secret md1 w1 where
    d: "DeriveNewChildKey env ?md internal_chain w = Some (Inr (secret, md1, w1))"
    and s: "GenerateNewKey_store env ?fc secret md1 w1 = Inr (pubkey, w')"
    unfolding GenerateNewKey_hd[OF hd] chain
    by (auto split: option.splits sum.splits)
  from DeriveNewChildKey_result[OF d] obtain master n where
    mk: "GetKey w (masterKeyID (hdChain w)) = Some master"
    and sk: "\<forall>i<n. HaveKey w (leaf_id env master internal_chain (c + of_nat i))"
    and st: "\<not> HaveKey w (leaf_id env master internal_chain (c + of_nat n))"
    and secret: "secret = hardened_leaf env master internal_chain (c + of_nat n)"
    and md1: "md1 = ?md\<lparr>hdKeypath := keypath internal_chain (unat (c + of_nat n)),
                         hdMasterKeyID := masterKeyID (hdChain w)\<rparr>"
    and w1: "w1 = (set_chain_counter internal_chain (c + of_nat n + 1) w)
                    \<lparr>db_hdchain := Some (hdChain (set_chain_counter internal_chain (c + of_nat n + 1) w))\<rparr>"
    unfolding c by blast
  have fc: "?fc \<longrightarrow> CanSupportFeature w1 FEATURE_COMPRPUBKEY"
    by (simp add: w1 CanSupportFeature_def)
  note f = GenerateNewKey_store_fields[OF s fc]
  have id: "PubKey_GetID env (GetPubKey env secret) = leaf_id env master internal_chain (c + of_nat n)"
    by (simp add: secret leaf_id_def)
  have "pubkey = GetPubKey env (hardened_leaf env master internal_chain (c + of_nat n))"
    using f(1) secret by simp
  moreover have "mapKeyMetadata w' (leaf_id env master internal_chain (c + of_nat n)) = Some md1"
    using f(4) id by simp
  moreover have "mapKeys w' = (mapKeys w)(leaf_id env master internal_chain (c + of_nat n)
                                       \<mapsto> hardened_leaf env master internal_chain (c + of_nat n))"
    using f(5) id secret by (simp add: w1)
  moreover have "hdChain w' = hdChain (set_chain_counter internal_chain (c + of_nat n + 1) w)"
    using f(2) by (simp add: w1)
  moreover have "db_hdchain w' = Some (hdChain w')"
    using f(2,3) by (simp add: w1)
  ultimately show ?thesis using mk sk st md1 by blast
qed

text \<open>The call succeeds when the master key is there, some leaf from the counter on
  is not known, and the key store and the database accept what they are given.\<close>

lemma GenerateNewKey_returns:
  assumes hd: "IsHDEnabled w"
    and mk: "GetKey w (masterKeyID (hdChain w)) = Some master"
    and chain: "internal_chain = (internal \<and> CanSupportFeature w FEATURE_HD_SPLIT)"
    and c: "c = chain_counter internal_chain (hdChain w)"
    and sk: "\<forall>i<n. HaveKey w (leaf_id env master internal_chain (c + of_nat i))"
    and st: "\<not> HaveKey w (leaf_id env master internal_chain (c + of_nat n))"
    and ok: "WriteHDChain_ok env" "KeyStore_AddKeyPubKey_ok env" "fCryptedKeys w \<or> WriteKey_ok env"
      "VerifyPubKey env (hardened_leaf env master internal_chain (c + of_nat n))
         (GetPubKey env (hardened_leaf env master internal_chain (c + of_nat n)))"
  shows "\<exists>w'. GenerateNewKey env internal w
                = Some (Inr (GetPubKey env (hardened_leaf env master internal_chain (c + of_nat n)), w'))"
proof -
  let ?md = "CKeyMetadata_init (GetTime env)"
  let ?w1 = "(set_chain_counter internal_chain (c + of_nat n + 1) w)
                    \<lparr>db_hdchain := Some (hdChain (set_chain_counter internal_chain (c + of_nat n + 1) w))\<rparr>"
  have "internal_chain \<longrightarrow> CanSupportFeature w FEATURE_HD_SPLIT" using chain by simp
  from DeriveNewChildKey_returns[OF mk this ok(1) sk[unfolded c] st[unfolded c], of ?md]
  have d: "DeriveNewChildKey env ?md internal_chain w =
           Some (Inr (hardened_leaf env master internal_chain (c + of_nat n),
                      ?md\<lparr>hdKeypath := keypath internal_chain (unat (c + of_nat n)),
                          hdMasterKeyID := masterKeyID (hdChain w)\<rparr>, ?w1))"
    unfolding c .
  have "fCryptedKeys ?w1 \<or> WriteKey_ok env" using ok(3) by simp
  from GenerateNewKey_store_ok[OF ok(4) ok(2) this]
  show ?thesis unfolding GenerateNewKey_hd[OF hd] chain[symmetric] d by simp
qed

text \<open>One external derivation when the leaf at the counter is not known: the key
  path is that of the counter, the counter advances by one and is persisted, and the
  wallet is again one on which the next derivation can run.\<close>

lemma GenerateNewKey_external_fresh:
  assumes hd: "IsHDEnabled w"
    and mk: "GetKey w (masterKeyID (hdChain w)) = Some master"
    and c: "nExternalChainCounter (hdChain w) = c"
    and st: "\<not> HaveKey w (leaf_id env master False c)"
    and ok: "WriteHDChain_ok env" "KeyStore_AddKeyPubKey_ok env" "fCryptedKeys w \<or> WriteKey_ok env"
      "VerifyPubKey env (hardened_leaf env master False c) (GetPubKey env (hardened_leaf env master False c))"
  shows "\<exists>w'. GenerateNewKey env False w
                  = Some (Inr (GetPubKey env (hardened_leaf env master False c), w'))
           \<and> keypath_of env w' (GetPubKey env (hardened_leaf env master False c))
                = Some (keypath False (unat c))
           \<and> nExternalChainCounter (hdChain w') = c + 1
           \<and> db_hdchain w' = Some (hdChain w')
           \<and> IsHDEnabled w' \<and> GetKey w' (masterKeyID (hdChain w')) = Some master
           \<and> (fCryptedKeys w' \<or> WriteKey_ok env)
           \<and> (\<forall>x. HaveKey w' x = (x = leaf_id env master False c \<or> HaveKey w x))"
proof -
  have chain: "False = (False \<and> CanSupportFeature w FEATURE_HD_SPLIT)" by simp
  have c': "c = chain_counter False (hdChain w)" using c by (simp add: chain_counter_def)
  have sk0: "\<forall>i<0. HaveKey w (leaf_id env master False (c + of_nat i))" by simp
  have st0: "\<not> HaveKey w (leaf_id env master False (c + of_nat 0))" using st by simp
  have v0: "VerifyPubKey env (hardened_leaf env master False (c + of_nat 0))
              (GetPubKey env (hardened_leaf env master False (c + of_nat 0)))" using ok(4) by simp
  from GenerateNewKey_returns[OF hd mk chain c' sk0 st0 ok(1,2,3) v0]
  obtain w' where g: "GenerateNewKey env False w
                       = Some (Inr (GetPubKey env (hardened_leaf env master False c), w'))"
    by auto
  let ?p = "GetPubKey env (hardened_leaf env master False c)"
  from GenerateNewKey_result[OF hd g chain c'] obtain m' n where
    mk': "GetKey w (masterKeyID (hdChain w)) = Some m'"
    and sk: "\<forall>i<n. HaveKey w (leaf_id env m' False (c + of_nat i))"
    and r: "mapKeyMetadata w' (leaf_id env m' False (c + of_nat n))
             = Some ((CKeyMetadata_init (GetTime env))
                       \<lparr>hdKeypath := keypath False (unat (c + of_nat n)),
                        hdMasterKeyID := masterKeyID (hdChain w)\<rparr>)"
       "mapKeys w' = (mapKeys w)(leaf_id env m' False (c + of_nat n)
                                       \<mapsto> hardened_leaf env m' False (c + of_nat n))"
       "hdChain w' = hdChain (set_chain_counter False (c + of_nat n + 1) w)"
       "db_hdchain w' = Some (hdChain w')"
    by blast
  from mk mk' have m': "m' = master" by simp
  have n: "n = 0"
  proof (rule ccontr)
    assume "n \<noteq> 0"
    then have "0 < n" by simp
    with sk have "HaveKey w (leaf_id env m' False (c + of_nat 0))" by blast
    with st m' show False by simp
  qed
  note r = r[unfolded m' n, simplified]
  have crypt: "fCryptedKeys w' = fCryptedKeys w"
  proof -
    from g hd obtain secret md1 w1 where
      d: "DeriveNewChildKey env (CKeyMetadata_init (GetTime env)) False w = Some (Inr (secret, md1, w1))"
      and s: "GenerateNewKey_store env (CanSupportFeature w FEATURE_COMPRPUBKEY) secret md1 w1 = Inr (?p, w')"
      unfolding GenerateNewKey_hd[OF hd] by (auto split: option.splits sum.splits)
    from DeriveNewChildKey_result[OF d] have w1: "fCryptedKeys w1 = fCryptedKeys w"
      "nWalletMaxVersion w1 = nWalletMaxVersion w" by auto
    then have "CanSupportFeature w FEATURE_COMPRPUBKEY \<longrightarrow> CanSupportFeature w1 FEATURE_COMPRPUBKEY"
      by (simp add: CanSupportFeature_def)
    from GenerateNewKey_store_fields(6)[OF s this] w1 show ?thesis by simp
  qed
  have id: "PubKey_GetID env ?p = leaf_id env master False c" by (simp add: leaf_id_def)
  have "keypath_of env w' ?p = Some (keypath False (unat c))"
    using r(1) by (simp add: keypath_of_def id)
  moreover have "nExternalChainCounter (hdChain w') = c + 1"
    using r(3) by (simp add: set_chain_counter_def)
  moreover have "IsHDEnabled w'" using hd r(3) by (simp add: IsHDEnabled_def)
  moreover have "GetKey w' (masterKeyID (hdChain w')) = Some master"
  proof -
    have "masterKeyID (hdChain w) \<noteq> leaf_id env master False c"
      using mk st by (auto simp add: GetKey_def HaveKey_def)
    with mk r(2,3) show ?thesis by (simp add: GetKey_def)
  qed
  moreover have "\<forall>x. HaveKey w' x = (x = leaf_id env master False c \<or> HaveKey w x)"
    using r(2) by (auto simp add: HaveKey_def)
  ultimately show ?thesis using g r(4) crypt ok(3) by blast
qed

subsection \<open>The number in a key path\<close>

lemma digit_value: "d < 10 \<Longrightarrow> (of_char (digit_char d) :: nat) - 48 = d"
proof -
  assume "d < 10"
  then have "d \<in> {0,1,2,3,4,5,6,7,8,9}" by auto
  then show ?thesis by (auto simp add: digit_char_def)
qed

lemma decimal_value_snoc: "decimal_value (s @ [ch]) = 10 * decimal_value s + (of_char ch - 48)"
  by (simp add: decimal_value_def)

lemma decimal_value_to_string: "decimal_value (to_string n) = n"
proof (induction n rule: to_string.induct)
  case (1 n)
  show ?case
  proof (cases "n < 10")
    case True
    then show ?thesis by (subst to_string.simps) (simp add: decimal_value_def digit_value)
  next
    case False
    then have "decimal_value (to_string (n div 10)) = n div 10" by (rule 1)
    with False show ?thesis
      by (subst to_string.simps) (simp add: decimal_value_snoc digit_value)
  qed
qed

subsection \<open>The claim\<close>

text \<open>
  Claim C6. When HD is enabled, every \<^verbatim>\<open>GenerateNewKey\<close> that returns a key has derived
  it from the master key by three hardened derivations: at \<^verbatim>\<open>0x80000000\<close> (\<^verbatim>\<open>m/0'\<close>),
  then at \<^verbatim>\<open>0x80000000\<close> (\<^verbatim>\<open>m/0'/0'\<close>) or, when the internal chain is asked for and the
  wallet's version is at least 139900 (the chain split), at \<^verbatim>\<open>0x80000001\<close>
  (\<^verbatim>\<open>m/0'/1'\<close>), then at the index \<open>k\<close> with the bit \<^verbatim>\<open>0x80000000\<close> set, which is
  \<^verbatim>\<open>0x80000000 + k\<close> for \<open>k\<close> below \<^verbatim>\<open>0x80000000\<close>. The key path recorded for the key
  is \<^verbatim>\<open>m/0'/0'/\<close> or \<^verbatim>\<open>m/0'/1'/\<close>, a decimal numeral that denotes \<open>k\<close>, and an
  apostrophe. Here \<open>k\<close> is the counter of the chain plus the number \<open>n\<close> of leaves that
  were skipped: the wallet had the keys of all of them and did not have the key of the
  leaf at \<open>k\<close>, which it has on return. On return the counter of that chain is \<open>k + 1\<close>,
  the counter of the other chain and the master key id are as before, and the HD chain
  written to the database is the one of the wallet. Moreover, on a wallet with external
  counter 0 that has none of the keys of the external leaves 0, 1, 2, whose ids differ,
  and with a key store and a database that accept what they are given, three calls for
  an external key in a row return these three leaves, with the key paths \<^verbatim>\<open>m/0'/0'/0'\<close>,
  \<^verbatim>\<open>m/0'/0'/1'\<close>, \<^verbatim>\<open>m/0'/0'/2'\<close> in this order, the counter going to 1, 2, 3, and the HD
  chain persisted after each call.
\<close>

theorem GenerateNewKey_hd_derivation:
  "(IsHDEnabled w \<and> GenerateNewKey env internal w = Some (Inr (pubkey, w')) \<longrightarrow>
      (\<exists>master n md.
         let internal_chain = (internal \<and> 139900 \<le> nWalletMaxVersion w);
             c = (if internal_chain then nInternalChainCounter (hdChain w)
                  else nExternalChainCounter (hdChain w));
             k = c + of_nat n;
             chain_key = Derive env (Derive env (SetMaster env master) 0x80000000)
                           (if internal_chain then 0x80000001 else 0x80000000);
             leaf = (\<lambda>j. ExtKey_key env (Derive env chain_key (j OR 0x80000000)))
         in mapKeys w (masterKeyID (hdChain w)) = Some master
          \<and> pubkey = GetPubKey env (leaf k)
          \<and> (k < 0x80000000 \<longrightarrow>
                pubkey = GetPubKey env (ExtKey_key env (Derive env chain_key (0x80000000 + k))))
          \<and> mapKeyMetadata w' (PubKey_GetID env pubkey) = Some md
          \<and> hdKeypath md = ''m/0'' @ [CHR 0x27] @ (if internal_chain then ''/1'' else ''/0'')
                             @ [CHR 0x27] @ ''/'' @ to_string (unat k) @ [CHR 0x27]
          \<and> decimal_value (to_string (unat k)) = unat k
          \<and> hdMasterKeyID md = masterKeyID (hdChain w)
          \<and> (\<forall>i<n. mapKeys w (PubKey_GetID env (GetPubKey env (leaf (c + of_nat i)))) \<noteq> None)
          \<and> mapKeys w (PubKey_GetID env pubkey) = None
          \<and> mapKeys w' (PubKey_GetID env pubkey) = Some (leaf k)
          \<and> (if internal_chain
              then nInternalChainCounter (hdChain w') = k + 1
                 \<and> nExternalChainCounter (hdChain w') = nExternalChainCounter (hdChain w)
              else nExternalChainCounter (hdChain w') = k + 1
                 \<and> nInternalChainCounter (hdChain w') = nInternalChainCounter (hdChain w))
          \<and> masterKeyID (hdChain w') = masterKeyID (hdChain w)
          \<and> db_hdchain w' = Some (hdChain w')))
   \<and> (let chain_key = Derive env (Derive env (SetMaster env m) 0x80000000) 0x80000000;
           leaf = (\<lambda>j. ExtKey_key env (Derive env chain_key (0x80000000 + j)));
           leaf_pub = (\<lambda>j. GetPubKey env (leaf j));
           leaf_id = (\<lambda>j. PubKey_GetID env (leaf_pub j))
       in IsHDEnabled v \<and> mapKeys v (masterKeyID (hdChain v)) = Some m
        \<and> nExternalChainCounter (hdChain v) = 0
        \<and> mapKeys v (leaf_id 0) = None \<and> mapKeys v (leaf_id 1) = None \<and> mapKeys v (leaf_id 2) = None
        \<and> distinct [leaf_id 0, leaf_id 1, leaf_id 2]
        \<and> VerifyPubKey env (leaf 0) (leaf_pub 0) \<and> VerifyPubKey env (leaf 1) (leaf_pub 1)
        \<and> VerifyPubKey env (leaf 2) (leaf_pub 2)
        \<and> KeyStore_AddKeyPubKey_ok env \<and> WriteHDChain_ok env \<and> (fCryptedKeys v \<or> WriteKey_ok env)
      \<longrightarrow> (\<exists>w1 w2 w3 md1 md2 md3.
             GenerateNewKey env False v = Some (Inr (leaf_pub 0, w1))
           \<and> GenerateNewKey env False w1 = Some (Inr (leaf_pub 1, w2))
           \<and> GenerateNewKey env False w2 = Some (Inr (leaf_pub 2, w3))
           \<and> mapKeyMetadata w1 (leaf_id 0) = Some md1
           \<and> hdKeypath md1 = ''m/0'/0'/0'' @ [CHR 0x27]
           \<and> mapKeyMetadata w2 (leaf_id 1) = Some md2
           \<and> hdKeypath md2 = ''m/0'/0'/1'' @ [CHR 0x27]
           \<and> mapKeyMetadata w3 (leaf_id 2) = Some md3
           \<and> hdKeypath md3 = ''m/0'/0'/2'' @ [CHR 0x27]
           \<and> nExternalChainCounter (hdChain w1) = 1 \<and> db_hdchain w1 = Some (hdChain w1)
           \<and> nExternalChainCounter (hdChain w2) = 2 \<and> db_hdchain w2 = Some (hdChain w2)
           \<and> nExternalChainCounter (hdChain w3) = 3 \<and> db_hdchain w3 = Some (hdChain w3)))"
proof (rule conjI)
  show "IsHDEnabled w \<and> GenerateNewKey env internal w = Some (Inr (pubkey, w')) \<longrightarrow>
      (\<exists>master n md.
         let internal_chain = (internal \<and> 139900 \<le> nWalletMaxVersion w);
             c = (if internal_chain then nInternalChainCounter (hdChain w)
                  else nExternalChainCounter (hdChain w));
             k = c + of_nat n;
             chain_key = Derive env (Derive env (SetMaster env master) 0x80000000)
                           (if internal_chain then 0x80000001 else 0x80000000);
             leaf = (\<lambda>j. ExtKey_key env (Derive env chain_key (j OR 0x80000000)))
         in mapKeys w (masterKeyID (hdChain w)) = Some master
          \<and> pubkey = GetPubKey env (leaf k)
          \<and> (k < 0x80000000 \<longrightarrow>
                pubkey = GetPubKey env (ExtKey_key env (Derive env chain_key (0x80000000 + k))))
          \<and> mapKeyMetadata w' (PubKey_GetID env pubkey) = Some md
          \<and> hdKeypath md = ''m/0'' @ [CHR 0x27] @ (if internal_chain then ''/1'' else ''/0'')
                             @ [CHR 0x27] @ ''/'' @ to_string (unat k) @ [CHR 0x27]
          \<and> decimal_value (to_string (unat k)) = unat k
          \<and> hdMasterKeyID md = masterKeyID (hdChain w)
          \<and> (\<forall>i<n. mapKeys w (PubKey_GetID env (GetPubKey env (leaf (c + of_nat i)))) \<noteq> None)
          \<and> mapKeys w (PubKey_GetID env pubkey) = None
          \<and> mapKeys w' (PubKey_GetID env pubkey) = Some (leaf k)
          \<and> (if internal_chain
              then nInternalChainCounter (hdChain w') = k + 1
                 \<and> nExternalChainCounter (hdChain w') = nExternalChainCounter (hdChain w)
              else nExternalChainCounter (hdChain w') = k + 1
                 \<and> nInternalChainCounter (hdChain w') = nInternalChainCounter (hdChain w))
          \<and> masterKeyID (hdChain w') = masterKeyID (hdChain w)
          \<and> db_hdchain w' = Some (hdChain w'))"
  proof (rule impI)
    assume a: "IsHDEnabled w \<and> GenerateNewKey env internal w = Some (Inr (pubkey, w'))"
    define ic where "ic = (internal \<and> CanSupportFeature w FEATURE_HD_SPLIT)"
    define c where "c = chain_counter ic (hdChain w)"
    have ic': "(internal \<and> 139900 \<le> nWalletMaxVersion w) = ic"
      by (simp add: ic_def CanSupportFeature_def FEATURE_HD_SPLIT_def)
    have c': "(if ic then nInternalChainCounter (hdChain w) else nExternalChainCounter (hdChain w)) = c"
      by (simp add: c_def chain_counter_def)
    from GenerateNewKey_result[OF conjunct1[OF a] conjunct2[OF a] ic_def c_def]
    obtain master n where
      mk: "GetKey w (masterKeyID (hdChain w)) = Some master"
      and sk: "\<forall>i<n. HaveKey w (leaf_id env master ic (c + of_nat i))"
      and st: "\<not> HaveKey w (leaf_id env master ic (c + of_nat n))"
      and p: "pubkey = GetPubKey env (hardened_leaf env master ic (c + of_nat n))"
      and md: "mapKeyMetadata w' (leaf_id env master ic (c + of_nat n))
               = Some ((CKeyMetadata_init (GetTime env))
                         \<lparr>hdKeypath := keypath ic (unat (c + of_nat n)),
                          hdMasterKeyID := masterKeyID (hdChain w)\<rparr>)"
      and keys: "mapKeys w' = (mapKeys w)(leaf_id env master ic (c + of_nat n)
                                         \<mapsto> hardened_leaf env master ic (c + of_nat n))"
      and hc: "hdChain w' = hdChain (set_chain_counter ic (c + of_nat n + 1) w)"
      and db: "db_hdchain w' = Some (hdChain w')"
      by blast
    define k where "k = c + of_nat n"
    define chain_key where "chain_key = Derive env (Derive env (SetMaster env master) 0x80000000)
                           (if ic then 0x80000001 else 0x80000000)"
    define leaf where "leaf = (\<lambda>j. ExtKey_key env (Derive env chain_key (j OR 0x80000000)))"
    define md' where "md' = (CKeyMetadata_init (GetTime env))
                         \<lparr>hdKeypath := keypath ic (unat k), hdMasterKeyID := masterKeyID (hdChain w)\<rparr>"
    have ck: "chain_child_key env master ic = chain_key"
      by (simp add: chain_child_key_def chain_key_def BIP32_HARDENED_KEY_LIMIT_def Let_def)
    have hl: "hardened_leaf env master ic j = leaf j" for j
      by (simp add: hardened_leaf_def ck leaf_def BIP32_HARDENED_KEY_LIMIT_def)
    have li: "leaf_id env master ic j = PubKey_GetID env (GetPubKey env (leaf j))" for j
      by (simp add: leaf_id_def hl)
    have f1: "mapKeys w (masterKeyID (hdChain w)) = Some master" using mk by (simp add: GetKey_def)
    have f2: "pubkey = GetPubKey env (leaf k)" using p by (simp add: hl k_def)
    have f3: "k < 0x80000000 \<longrightarrow>
                pubkey = GetPubKey env (ExtKey_key env (Derive env chain_key (0x80000000 + k)))"
      using hardened_index_offset[of k] f2
      by (auto simp add: leaf_def BIP32_HARDENED_KEY_LIMIT_def)
    have f4: "mapKeyMetadata w' (PubKey_GetID env pubkey) = Some md'"
      using md by (simp add: li f2 k_def md'_def)
    have f5: "hdKeypath md' = ''m/0'' @ [CHR 0x27] @ (if ic then ''/1'' else ''/0'')
                             @ [CHR 0x27] @ ''/'' @ to_string (unat k) @ [CHR 0x27]"
      by (simp add: md'_def keypath_def)
    have f6: "decimal_value (to_string (unat k)) = unat k" by (rule decimal_value_to_string)
    have f7: "hdMasterKeyID md' = masterKeyID (hdChain w)" by (simp add: md'_def)
    have f8: "\<forall>i<n. mapKeys w (PubKey_GetID env (GetPubKey env (leaf (c + of_nat i)))) \<noteq> None"
      using sk by (simp add: li HaveKey_def)
    have f9: "mapKeys w (PubKey_GetID env pubkey) = None"
      using st by (simp add: li HaveKey_def f2 k_def)
    have f10: "mapKeys w' (PubKey_GetID env pubkey) = Some (leaf k)"
      by (simp add: keys li hl f2 k_def)
    have f11: "if ic
              then nInternalChainCounter (hdChain w') = k + 1
                 \<and> nExternalChainCounter (hdChain w') = nExternalChainCounter (hdChain w)
              else nExternalChainCounter (hdChain w') = k + 1
                 \<and> nInternalChainCounter (hdChain w') = nInternalChainCounter (hdChain w)"
      by (simp add: hc set_chain_counter_def k_def)
    have f12: "masterKeyID (hdChain w') = masterKeyID (hdChain w)" by (simp add: hc)
    show "\<exists>master n md.
         let internal_chain = (internal \<and> 139900 \<le> nWalletMaxVersion w);
             c = (if internal_chain then nInternalChainCounter (hdChain w)
                  else nExternalChainCounter (hdChain w));
             k = c + of_nat n;
             chain_key = Derive env (Derive env (SetMaster env master) 0x80000000)
                           (if internal_chain then 0x80000001 else 0x80000000);
             leaf = (\<lambda>j. ExtKey_key env (Derive env chain_key (j OR 0x80000000)))
         in mapKeys w (masterKeyID (hdChain w)) = Some master
          \<and> pubkey = GetPubKey env (leaf k)
          \<and> (k < 0x80000000 \<longrightarrow>
                pubkey = GetPubKey env (ExtKey_key env (Derive env chain_key (0x80000000 + k))))
          \<and> mapKeyMetadata w' (PubKey_GetID env pubkey) = Some md
          \<and> hdKeypath md = ''m/0'' @ [CHR 0x27] @ (if internal_chain then ''/1'' else ''/0'')
                             @ [CHR 0x27] @ ''/'' @ to_string (unat k) @ [CHR 0x27]
          \<and> decimal_value (to_string (unat k)) = unat k
          \<and> hdMasterKeyID md = masterKeyID (hdChain w)
          \<and> (\<forall>i<n. mapKeys w (PubKey_GetID env (GetPubKey env (leaf (c + of_nat i)))) \<noteq> None)
          \<and> mapKeys w (PubKey_GetID env pubkey) = None
          \<and> mapKeys w' (PubKey_GetID env pubkey) = Some (leaf k)
          \<and> (if internal_chain
              then nInternalChainCounter (hdChain w') = k + 1
                 \<and> nExternalChainCounter (hdChain w') = nExternalChainCounter (hdChain w)
              else nExternalChainCounter (hdChain w') = k + 1
                 \<and> nInternalChainCounter (hdChain w') = nInternalChainCounter (hdChain w))
          \<and> masterKeyID (hdChain w') = masterKeyID (hdChain w)
          \<and> db_hdchain w' = Some (hdChain w')"
      unfolding Let_def ic' c'
      apply (rule exI[of _ master], rule exI[of _ n], rule exI[of _ md'])
      unfolding k_def[symmetric] chain_key_def[symmetric]
      using f1 f2 f3 f4 f5 f6 f7 f8 f9 f10 f11 f12 db
      unfolding leaf_def
      apply (intro conjI)
      apply assumption+
      done
  qed
next
  define chain_key where "chain_key = Derive env (Derive env (SetMaster env m) 0x80000000) 0x80000000"
  define leaf where "leaf = (\<lambda>j::32 word. ExtKey_key env (Derive env chain_key (0x80000000 + j)))"
  define leaf_pub where "leaf_pub = (\<lambda>j. GetPubKey env (leaf j))"
  define lid where "lid = (\<lambda>j. PubKey_GetID env (leaf_pub j))"
  have ck: "chain_child_key env m False = chain_key"
    by (simp add: chain_child_key_def chain_key_def BIP32_HARDENED_KEY_LIMIT_def Let_def)
  have hl: "hardened_leaf env m False 0 = leaf 0" "hardened_leaf env m False 1 = leaf 1"
    "hardened_leaf env m False 2 = leaf 2"
    by (simp_all add: hardened_leaf_def ck leaf_def BIP32_HARDENED_KEY_LIMIT_def)
  have li: "leaf_id env m False 0 = lid 0" "leaf_id env m False 1 = lid 1"
    "leaf_id env m False 2 = lid 2"
    by (simp_all add: leaf_id_def hl lid_def leaf_pub_def)
  have main: "\<exists>w1 w2 w3 md1 md2 md3.
             GenerateNewKey env False v = Some (Inr (leaf_pub 0, w1))
           \<and> GenerateNewKey env False w1 = Some (Inr (leaf_pub 1, w2))
           \<and> GenerateNewKey env False w2 = Some (Inr (leaf_pub 2, w3))
           \<and> mapKeyMetadata w1 (lid 0) = Some md1
           \<and> hdKeypath md1 = ''m/0'/0'/0'' @ [CHR 0x27]
           \<and> mapKeyMetadata w2 (lid 1) = Some md2
           \<and> hdKeypath md2 = ''m/0'/0'/1'' @ [CHR 0x27]
           \<and> mapKeyMetadata w3 (lid 2) = Some md3
           \<and> hdKeypath md3 = ''m/0'/0'/2'' @ [CHR 0x27]
           \<and> nExternalChainCounter (hdChain w1) = 1 \<and> db_hdchain w1 = Some (hdChain w1)
           \<and> nExternalChainCounter (hdChain w2) = 2 \<and> db_hdchain w2 = Some (hdChain w2)
           \<and> nExternalChainCounter (hdChain w3) = 3 \<and> db_hdchain w3 = Some (hdChain w3)"
    if a: "IsHDEnabled v \<and> mapKeys v (masterKeyID (hdChain v)) = Some m
        \<and> nExternalChainCounter (hdChain v) = 0
        \<and> mapKeys v (lid 0) = None \<and> mapKeys v (lid 1) = None \<and> mapKeys v (lid 2) = None
        \<and> distinct [lid 0, lid 1, lid 2]
        \<and> VerifyPubKey env (leaf 0) (leaf_pub 0) \<and> VerifyPubKey env (leaf 1) (leaf_pub 1)
        \<and> VerifyPubKey env (leaf 2) (leaf_pub 2)
        \<and> KeyStore_AddKeyPubKey_ok env \<and> WriteHDChain_ok env \<and> (fCryptedKeys v \<or> WriteKey_ok env)"
  proof -
    from a have hd0: "IsHDEnabled v" and mk0: "GetKey v (masterKeyID (hdChain v)) = Some m"
      and c0: "nExternalChainCounter (hdChain v) = 0"
      and n0: "\<not> HaveKey v (leaf_id env m False 0)" and n1: "\<not> HaveKey v (leaf_id env m False 1)"
      and n2: "\<not> HaveKey v (leaf_id env m False 2)"
      and d01: "leaf_id env m False 1 \<noteq> leaf_id env m False 0"
      and d02: "leaf_id env m False 2 \<noteq> leaf_id env m False 0"
      and d12: "leaf_id env m False 2 \<noteq> leaf_id env m False 1"
      and v0: "VerifyPubKey env (hardened_leaf env m False 0) (GetPubKey env (hardened_leaf env m False 0))"
      and v1: "VerifyPubKey env (hardened_leaf env m False 1) (GetPubKey env (hardened_leaf env m False 1))"
      and v2: "VerifyPubKey env (hardened_leaf env m False 2) (GetPubKey env (hardened_leaf env m False 2))"
      and ks: "KeyStore_AddKeyPubKey_ok env" and wh: "WriteHDChain_ok env"
      and wk0: "fCryptedKeys v \<or> WriteKey_ok env"
      unfolding li hl by (auto simp add: GetKey_def HaveKey_def leaf_pub_def)
    from GenerateNewKey_external_fresh[OF hd0 mk0 c0 n0 wh ks wk0 v0]
    obtain w1 where g1: "GenerateNewKey env False v = Some (Inr (GetPubKey env (leaf 0), w1))"
      and k1: "keypath_of env w1 (GetPubKey env (leaf 0)) = Some (keypath False (unat (0::32 word)))"
      and c1: "nExternalChainCounter (hdChain w1) = 0 + 1"
      and db1: "db_hdchain w1 = Some (hdChain w1)"
      and hd1: "IsHDEnabled w1" and mk1: "GetKey w1 (masterKeyID (hdChain w1)) = Some m"
      and wk1: "fCryptedKeys w1 \<or> WriteKey_ok env"
      and h1: "\<forall>x. HaveKey w1 x = (x = leaf_id env m False 0 \<or> HaveKey v x)"
      unfolding hl by blast
    have c1': "nExternalChainCounter (hdChain w1) = 1" using c1 by simp
    have n1': "\<not> HaveKey w1 (leaf_id env m False 1)" using h1 n1 d01 by simp
    from GenerateNewKey_external_fresh[OF hd1 mk1 c1' n1' wh ks wk1 v1]
    obtain w2 where g2: "GenerateNewKey env False w1 = Some (Inr (GetPubKey env (leaf 1), w2))"
      and k2: "keypath_of env w2 (GetPubKey env (leaf 1)) = Some (keypath False (unat (1::32 word)))"
      and c2: "nExternalChainCounter (hdChain w2) = 1 + 1"
      and db2: "db_hdchain w2 = Some (hdChain w2)"
      and hd2: "IsHDEnabled w2" and mk2: "GetKey w2 (masterKeyID (hdChain w2)) = Some m"
      and wk2: "fCryptedKeys w2 \<or> WriteKey_ok env"
      and h2: "\<forall>x. HaveKey w2 x = (x = leaf_id env m False 1 \<or> HaveKey w1 x)"
      unfolding hl by blast
    have c2': "nExternalChainCounter (hdChain w2) = 2" using c2 by simp
    have n2': "\<not> HaveKey w2 (leaf_id env m False 2)" using h2 h1 n2 d02 d12 by simp
    from GenerateNewKey_external_fresh[OF hd2 mk2 c2' n2' wh ks wk2 v2]
    obtain w3 where g3: "GenerateNewKey env False w2 = Some (Inr (GetPubKey env (leaf 2), w3))"
      and k3: "keypath_of env w3 (GetPubKey env (leaf 2)) = Some (keypath False (unat (2::32 word)))"
      and c3: "nExternalChainCounter (hdChain w3) = 2 + 1"
      and db3: "db_hdchain w3 = Some (hdChain w3)"
      unfolding hl by blast
    have c3': "nExternalChainCounter (hdChain w3) = 3" using c3 by simp
    have p0: "keypath False (unat (0::32 word)) = ''m/0'/0'/0'' @ [CHR 0x27]"
      by (simp add: keypath_def to_string.simps digit_char_def)
    have p1: "keypath False (unat (1::32 word)) = ''m/0'/0'/1'' @ [CHR 0x27]"
      by (simp add: keypath_def to_string.simps digit_char_def)
    have p2: "keypath False (unat (2::32 word)) = ''m/0'/0'/2'' @ [CHR 0x27]"
      by (simp add: keypath_def to_string.simps digit_char_def)
    from k1 obtain md1 where m1: "mapKeyMetadata w1 (PubKey_GetID env (GetPubKey env (leaf 0))) = Some md1"
      "hdKeypath md1 = ''m/0'/0'/0'' @ [CHR 0x27]"
      unfolding p0 keypath_of_def by auto
    from k2 obtain md2 where m2: "mapKeyMetadata w2 (PubKey_GetID env (GetPubKey env (leaf 1))) = Some md2"
      "hdKeypath md2 = ''m/0'/0'/1'' @ [CHR 0x27]"
      unfolding p1 keypath_of_def by auto
    from k3 obtain md3 where m3: "mapKeyMetadata w3 (PubKey_GetID env (GetPubKey env (leaf 2))) = Some md3"
      "hdKeypath md3 = ''m/0'/0'/2'' @ [CHR 0x27]"
      unfolding p2 keypath_of_def by auto
    from g1 g2 g3 m1 m2 m3 c1' c2' c3' db1 db2 db3 show ?thesis
      unfolding lid_def leaf_pub_def by blast
  qed
  show "let chain_key = Derive env (Derive env (SetMaster env m) 0x80000000) 0x80000000;
           leaf = (\<lambda>j. ExtKey_key env (Derive env chain_key (0x80000000 + j)));
           leaf_pub = (\<lambda>j. GetPubKey env (leaf j));
           leaf_id = (\<lambda>j. PubKey_GetID env (leaf_pub j))
       in IsHDEnabled v \<and> mapKeys v (masterKeyID (hdChain v)) = Some m
        \<and> nExternalChainCounter (hdChain v) = 0
        \<and> mapKeys v (leaf_id 0) = None \<and> mapKeys v (leaf_id 1) = None \<and> mapKeys v (leaf_id 2) = None
        \<and> distinct [leaf_id 0, leaf_id 1, leaf_id 2]
        \<and> VerifyPubKey env (leaf 0) (leaf_pub 0) \<and> VerifyPubKey env (leaf 1) (leaf_pub 1)
        \<and> VerifyPubKey env (leaf 2) (leaf_pub 2)
        \<and> KeyStore_AddKeyPubKey_ok env \<and> WriteHDChain_ok env \<and> (fCryptedKeys v \<or> WriteKey_ok env)
      \<longrightarrow> (\<exists>w1 w2 w3 md1 md2 md3.
             GenerateNewKey env False v = Some (Inr (leaf_pub 0, w1))
           \<and> GenerateNewKey env False w1 = Some (Inr (leaf_pub 1, w2))
           \<and> GenerateNewKey env False w2 = Some (Inr (leaf_pub 2, w3))
           \<and> mapKeyMetadata w1 (leaf_id 0) = Some md1
           \<and> hdKeypath md1 = ''m/0'/0'/0'' @ [CHR 0x27]
           \<and> mapKeyMetadata w2 (leaf_id 1) = Some md2
           \<and> hdKeypath md2 = ''m/0'/0'/1'' @ [CHR 0x27]
           \<and> mapKeyMetadata w3 (leaf_id 2) = Some md3
           \<and> hdKeypath md3 = ''m/0'/0'/2'' @ [CHR 0x27]
           \<and> nExternalChainCounter (hdChain w1) = 1 \<and> db_hdchain w1 = Some (hdChain w1)
           \<and> nExternalChainCounter (hdChain w2) = 2 \<and> db_hdchain w2 = Some (hdChain w2)
           \<and> nExternalChainCounter (hdChain w3) = 3 \<and> db_hdchain w3 = Some (hdChain w3))"
    unfolding Let_def
    unfolding chain_key_def[symmetric]
    using main unfolding lid_def leaf_pub_def leaf_def
    by (rule impI)
qed

theorem GenerateNewKey_hd_derivation_witness:
  "IsHDEnabled hd_wallet_knowing_leaf_0
   \<and> mapKeys hd_wallet_knowing_leaf_0 277298568809148553616406085633 \<noteq> None
   \<and> (\<exists>w' md. GenerateNewKey toy_env False hd_wallet_knowing_leaf_0
                   = Some (Inr (277298568809148553616406085634, w'))
          \<and> mapKeyMetadata w' 277298568809148553616406085634 = Some md
          \<and> hdKeypath md = ''m/0'/0'/1'' @ [CHR 0x27]
          \<and> mapKeys w' 277298568809148553616406085634 = Some 277298568809148553616406085633
          \<and> nExternalChainCounter (hdChain w') = 2 \<and> nInternalChainCounter (hdChain w') = 0
          \<and> db_hdchain w' = Some (hdChain w'))
   \<and> IsHDEnabled hd_split_wallet
   \<and> (\<exists>w' md. GenerateNewKey toy_env True hd_split_wallet
                   = Some (Inr (277298568809148553620701052929, w'))
          \<and> mapKeyMetadata w' 277298568809148553620701052929 = Some md
          \<and> hdKeypath md = ''m/0'/1'/0'' @ [CHR 0x27]
          \<and> nInternalChainCounter (hdChain w') = 1 \<and> nExternalChainCounter (hdChain w') = 0
          \<and> db_hdchain w' = Some (hdChain w'))
   \<and> IsHDEnabled hd_wallet \<and> mapKeys hd_wallet (masterKeyID (hdChain hd_wallet)) = Some 3
   \<and> nExternalChainCounter (hdChain hd_wallet) = 0
   \<and> (\<exists>w1 w2 w3 md1 md2 md3.
             GenerateNewKey toy_env False hd_wallet = Some (Inr (277298568809148553616406085633, w1))
           \<and> GenerateNewKey toy_env False w1 = Some (Inr (277298568809148553616406085634, w2))
           \<and> GenerateNewKey toy_env False w2 = Some (Inr (277298568809148553616406085635, w3))
           \<and> mapKeyMetadata w1 277298568809148553616406085633 = Some md1
           \<and> hdKeypath md1 = ''m/0'/0'/0'' @ [CHR 0x27]
           \<and> mapKeyMetadata w2 277298568809148553616406085634 = Some md2
           \<and> hdKeypath md2 = ''m/0'/0'/1'' @ [CHR 0x27]
           \<and> mapKeyMetadata w3 277298568809148553616406085635 = Some md3
           \<and> hdKeypath md3 = ''m/0'/0'/2'' @ [CHR 0x27]
           \<and> nExternalChainCounter (hdChain w1) = 1 \<and> db_hdchain w1 = Some (hdChain w1)
           \<and> nExternalChainCounter (hdChain w2) = 2 \<and> db_hdchain w2 = Some (hdChain w2)
           \<and> nExternalChainCounter (hdChain w3) = 3 \<and> db_hdchain w3 = Some (hdChain w3))"
proof -
  let ?W = "hd_wallet_knowing_leaf_0"
  let ?S = "hd_split_wallet"
  let ?P = "277298568809148553616406085634 :: nat"
  let ?Q = "277298568809148553620701052929 :: nat"
  have toy: "SetMaster toy_env = (\<lambda>k. k)" "Derive toy_env = (\<lambda>e i. 4294967296 * e + unat i)"
    "ExtKey_key toy_env = (\<lambda>e. e)" "GetPubKey toy_env = (\<lambda>k. k + 1)" "PubKey_GetID toy_env = (\<lambda>p. p)"
    "VerifyPubKey toy_env = (\<lambda>k p. p = k + 1)"
    "KeyStore_AddKeyPubKey_ok toy_env" "WriteHDChain_ok toy_env" "WriteKey_ok toy_env"
    by (simp_all add: toy_env_def)
  have leaf: "hardened_leaf toy_env 3 False k = 277298568809148553614258601984 + unat (k OR 0x80000000)"
    "hardened_leaf toy_env 3 True k = 277298568809148553618553569280 + unat (k OR 0x80000000)" for k
    by (simp_all add: hardened_leaf_def chain_child_key_def toy BIP32_HARDENED_KEY_LIMIT_def Let_def)
  have lid: "leaf_id toy_env 3 False k = 277298568809148553614258601985 + unat (k OR 0x80000000)"
    "leaf_id toy_env 3 True k = 277298568809148553618553569281 + unat (k OR 0x80000000)" for k
    by (simp_all add: leaf_id_def leaf toy)
  have H: "masterKeyID (hdChain hd_wallet) = 4" "nExternalChainCounter (hdChain hd_wallet) = 0"
    "nInternalChainCounter (hdChain hd_wallet) = 0" "nWalletMaxVersion hd_wallet = 60000"
    "mapKeys hd_wallet = [4 \<mapsto> 3]" "IsHDEnabled hd_wallet" "\<not> fCryptedKeys hd_wallet"
    by (simp_all add: hd_wallet_def IsHDEnabled_def)
  have W: "masterKeyID (hdChain ?W) = 4" "nExternalChainCounter (hdChain ?W) = 0"
    "nInternalChainCounter (hdChain ?W) = 0" "nWalletMaxVersion ?W = 60000"
    "mapKeys ?W = [4 \<mapsto> 3, 277298568809148553616406085633 \<mapsto> 277298568809148553616406085632]"
    "IsHDEnabled ?W" "\<not> fCryptedKeys ?W"
    by (simp_all add: hd_wallet_knowing_leaf_0_def H lid leaf IsHDEnabled_def)
  have S: "masterKeyID (hdChain ?S) = 4" "nExternalChainCounter (hdChain ?S) = 0"
    "nInternalChainCounter (hdChain ?S) = 0" "nWalletMaxVersion ?S = 139900"
    "mapKeys ?S = [4 \<mapsto> 3]" "IsHDEnabled ?S" "\<not> fCryptedKeys ?S"
    by (simp_all add: hd_split_wallet_def H IsHDEnabled_def)

  text \<open>The external chain, with the leaf 0 skipped.\<close>
  have "\<exists>w'. GenerateNewKey toy_env False ?W
               = Some (Inr (GetPubKey toy_env (hardened_leaf toy_env 3 False (0 + of_nat 1)), w'))"
    by (rule GenerateNewKey_returns[where master = 3 and internal_chain = False and n = 1])
       (simp_all add: W toy lid GetKey_def HaveKey_def chain_counter_def CanSupportFeature_def
          FEATURE_HD_SPLIT_def)
  then obtain w' where g: "GenerateNewKey toy_env False ?W = Some (Inr (?P, w'))"
    by (auto simp add: leaf toy)
  note inst = GenerateNewKey_hd_derivation[where w = ?W and env = toy_env and internal = False
      and pubkey = ?P and w' = w' and v = hd_wallet and m = 3]
  note c1 = conjunct1[OF inst, rule_format, OF conjI[OF W(6) g], unfolded Let_def,
      simplified toy W, simplified]
  from c1 obtain n md where
    n1: "unat (of_nat n OR 2147483648 :: 32 word) = 2147483649"
    and md: "mapKeyMetadata w' ?P = Some md"
      "hdKeypath md = ''m/0'/0'/'' @ to_string (unat (of_nat n :: 32 word)) @ [CHR 0x27]"
    and sk: "\<forall>i<n. unat (of_nat i OR 2147483648 :: 32 word) = 2147483648"
    and rest: "mapKeys w' ?P = Some (277298568809148553614258601984 + unat (of_nat n OR 2147483648 :: 32 word))"
      "nExternalChainCounter (hdChain w') = of_nat n + 1" "nInternalChainCounter (hdChain w') = 0"
      "db_hdchain w' = Some (hdChain w')"
    by (auto split: if_splits)
  have n: "n = 1"
  proof -
    have "n \<noteq> 0"
    proof
      assume "n = 0"
      with n1 have "unat (of_nat 0 OR 2147483648 :: 32 word) = 2147483649" by simp
      then show False by simp
    qed
    moreover have "\<not> 1 < n"
    proof
      assume "1 < n"
      with sk have "unat (of_nat 1 OR 2147483648 :: 32 word) = 2147483648" by blast
      then show False by simp
    qed
    ultimately show ?thesis by simp
  qed
  have part1: "\<exists>w' md. GenerateNewKey toy_env False ?W = Some (Inr (?P, w'))
          \<and> mapKeyMetadata w' ?P = Some md
          \<and> hdKeypath md = ''m/0'/0'/1'' @ [CHR 0x27]
          \<and> mapKeys w' ?P = Some 277298568809148553616406085633
          \<and> nExternalChainCounter (hdChain w') = 2 \<and> nInternalChainCounter (hdChain w') = 0
          \<and> db_hdchain w' = Some (hdChain w')"
    using g md rest unfolding n
    by (intro exI[of _ w'] exI[of _ md]) (simp add: to_string.simps digit_char_def)
  have known: "mapKeys ?W 277298568809148553616406085633 \<noteq> None" by (simp add: W)

  text \<open>The internal chain of a wallet that supports the chain split.\<close>
  have "\<exists>w'. GenerateNewKey toy_env True ?S
               = Some (Inr (GetPubKey toy_env (hardened_leaf toy_env 3 True (0 + of_nat 0)), w'))"
    by (rule GenerateNewKey_returns[where master = 3 and internal_chain = True and n = 0])
       (simp_all add: S toy lid GetKey_def HaveKey_def chain_counter_def CanSupportFeature_def
          FEATURE_HD_SPLIT_def)
  then obtain u' where gi: "GenerateNewKey toy_env True ?S = Some (Inr (?Q, u'))"
    by (auto simp add: leaf toy)
  note insti = GenerateNewKey_hd_derivation[where w = ?S and env = toy_env and internal = True
      and pubkey = ?Q and w' = u' and v = hd_wallet and m = 3]
  note ci = conjunct1[OF insti, rule_format, OF conjI[OF S(6) gi], unfolded Let_def,
      simplified toy S, simplified]
  from ci obtain ni mdi where
    ni1: "unat (of_nat ni OR 2147483648 :: 32 word) = 2147483648"
    and mdi: "mapKeyMetadata u' ?Q = Some mdi"
      "hdKeypath mdi = ''m/0'/1'/'' @ to_string (unat (of_nat ni :: 32 word)) @ [CHR 0x27]"
    and ski: "\<forall>i<ni. False"
    and resti: "nInternalChainCounter (hdChain u') = of_nat ni + 1"
      "nExternalChainCounter (hdChain u') = 0" "db_hdchain u' = Some (hdChain u')"
    by (auto split: if_splits)
  from ski have ni: "ni = 0" by auto
  have part1i: "\<exists>w' md. GenerateNewKey toy_env True ?S = Some (Inr (?Q, w'))
          \<and> mapKeyMetadata w' ?Q = Some md
          \<and> hdKeypath md = ''m/0'/1'/0'' @ [CHR 0x27]
          \<and> nInternalChainCounter (hdChain w') = 1 \<and> nExternalChainCounter (hdChain w') = 0
          \<and> db_hdchain w' = Some (hdChain w')"
    using gi mdi resti unfolding ni
    by (intro exI[of _ u'] exI[of _ mdi]) (simp add: to_string.simps digit_char_def)

  text \<open>Three external keys in a row.\<close>
  have part2: "\<exists>w1 w2 w3 md1 md2 md3.
             GenerateNewKey toy_env False hd_wallet = Some (Inr (277298568809148553616406085633, w1))
           \<and> GenerateNewKey toy_env False w1 = Some (Inr (277298568809148553616406085634, w2))
           \<and> GenerateNewKey toy_env False w2 = Some (Inr (277298568809148553616406085635, w3))
           \<and> mapKeyMetadata w1 277298568809148553616406085633 = Some md1
           \<and> hdKeypath md1 = ''m/0'/0'/0'' @ [CHR 0x27]
           \<and> mapKeyMetadata w2 277298568809148553616406085634 = Some md2
           \<and> hdKeypath md2 = ''m/0'/0'/1'' @ [CHR 0x27]
           \<and> mapKeyMetadata w3 277298568809148553616406085635 = Some md3
           \<and> hdKeypath md3 = ''m/0'/0'/2'' @ [CHR 0x27]
           \<and> nExternalChainCounter (hdChain w1) = 1 \<and> db_hdchain w1 = Some (hdChain w1)
           \<and> nExternalChainCounter (hdChain w2) = 2 \<and> db_hdchain w2 = Some (hdChain w2)
           \<and> nExternalChainCounter (hdChain w3) = 3 \<and> db_hdchain w3 = Some (hdChain w3)"
    using conjunct2[OF inst] by (simp add: Let_def toy H)
  have h3: "mapKeys hd_wallet (masterKeyID (hdChain hd_wallet)) = Some 3" by (simp add: H)
  show ?thesis
    by (intro conjI) (fact W(6) known part1 S(6) part1i H(6) h3 H(2) part2)+
qed

section \<open>Coin selection: the first three tiers\<close>

subsection \<open>The loop over the coins\<close>

lemma MCInputCoin_new_has_output:
  "has_output outp \<Longrightarrow> MCInputCoin_new outp = Inr (coin_of outp)"
  by (simp add: MCInputCoin_new_def has_output_def coin_of_def)

lemma lowest_of_Nil [simp]: "lowest_of l [] = l"
  by (simp add: lowest_of_def)

lemma lowest_of_Cons:
  "lowest_of l (coin # coins)
     = lowest_of (if l = None \<or> txout_nValue coin < txout_nValue (the l) then Some coin else l) coins"
  by (simp add: lowest_of_def)

text \<open>When a candidate has the value of the target, the loop stops at the first such
  candidate.\<close>

lemma scan_matched:
  assumes "\<forall>outp \<in> set outs. passes_filters env m t a outp \<longrightarrow> has_output outp"
    and "\<exists>outp \<in> set outs. passes_filters env m t a outp
            \<and> txout_nValue (coin_of outp) = target"
  shows "\<exists>outp \<in> set outs. passes_filters env m t a outp
            \<and> txout_nValue (coin_of outp) = target
            \<and> SelectCoinsMinConf_scan env target m t a outs s = Inr (Matched (coin_of outp))"
  using assms
proof (induction outs arbitrary: s)
  case Nil
  then show ?case by simp
next
  case (Cons outp rest)
  show ?case
  proof (cases "passes_filters env m t a outp")
    case False
    then have step: "SelectCoinsMinConf_scan env target m t a (outp # rest) s'
                      = SelectCoinsMinConf_scan env target m t a rest s'" for s'
      by (auto simp add: passes_filters_def)
    from False Cons.prems have
      "\<forall>outp \<in> set rest. passes_filters env m t a outp \<longrightarrow> has_output outp"
      "\<exists>outp \<in> set rest. passes_filters env m t a outp
            \<and> txout_nValue (coin_of outp) = target"
      by auto
    from Cons.IH[OF this, of s] show ?thesis unfolding step by auto
  next
    case True
    with Cons.prems(1) have new: "MCInputCoin_new outp = Inr (coin_of outp)"
      by (simp add: MCInputCoin_new_has_output)
    show ?thesis
    proof (cases "txout_nValue (coin_of outp) = target")
      case eq: True
      with True new have "SelectCoinsMinConf_scan env target m t a (outp # rest) s
                            = Inr (Matched (coin_of outp))"
        by (simp add: passes_filters_def)
      with True eq show ?thesis by auto
    next
      case ne: False
      let ?s' = "if txout_nValue (coin_of outp) < target + MIN_CHANGE env
                 then s\<lparr>vValue := vValue s @ [coin_of outp],
                        nTotalLower := nTotalLower s + txout_nValue (coin_of outp)\<rparr>
                 else if coinLowestLarger s = None
                         \<or> txout_nValue (coin_of outp) < txout_nValue (the (coinLowestLarger s))
                 then s\<lparr>coinLowestLarger := Some (coin_of outp)\<rparr> else s"
      from True new ne have
        step: "SelectCoinsMinConf_scan env target m t a (outp # rest) s
                 = SelectCoinsMinConf_scan env target m t a rest ?s'"
        by (simp add: passes_filters_def)
      from ne Cons.prems have
        "\<forall>outp \<in> set rest. passes_filters env m t a outp \<longrightarrow> has_output outp"
        "\<exists>outp \<in> set rest. passes_filters env m t a outp
              \<and> txout_nValue (coin_of outp) = target"
        by auto
      from Cons.IH[OF this, of ?s'] show ?thesis unfolding step by auto
    qed
  qed
qed

text \<open>When no candidate has the value of the target, the loop gathers the candidates
  below the target plus \<^verbatim>\<open>MIN_CHANGE\<close> with their total, and the lowest of the others.\<close>

lemma scan_gathers:
  assumes "\<forall>outp \<in> set outs. passes_filters env m t a outp \<longrightarrow>
             has_output outp \<and> txout_nValue (coin_of outp) \<noteq> target"
  shows "SelectCoinsMinConf_scan env target m t a outs s =
           Inr (Scanned
             \<lparr>vValue = vValue s @ filter (\<lambda>c. txout_nValue c < target + MIN_CHANGE env)
                                    (map coin_of (filter (passes_filters env m t a) outs)),
              nTotalLower = nTotalLower s
                + sum_list (map txout_nValue (filter (\<lambda>c. txout_nValue c < target + MIN_CHANGE env)
                                    (map coin_of (filter (passes_filters env m t a) outs)))),
              coinLowestLarger = lowest_of (coinLowestLarger s)
                 (filter (\<lambda>c. \<not> txout_nValue c < target + MIN_CHANGE env)
                                    (map coin_of (filter (passes_filters env m t a) outs)))\<rparr>)"
  using assms
proof (induction outs arbitrary: s)
  case Nil
  then show ?case by simp
next
  case (Cons outp rest)
  from Cons.prems have rest:
    "\<forall>outp \<in> set rest. passes_filters env m t a outp \<longrightarrow>
             has_output outp \<and> txout_nValue (coin_of outp) \<noteq> target" by simp
  note IH = Cons.IH[OF rest]
  show ?case
  proof (cases "passes_filters env m t a outp")
    case False
    then have step: "SelectCoinsMinConf_scan env target m t a (outp # rest) s
                      = SelectCoinsMinConf_scan env target m t a rest s"
      by (auto simp add: passes_filters_def)
    show ?thesis unfolding step IH using False by simp
  next
    case True
    with Cons.prems have new: "MCInputCoin_new outp = Inr (coin_of outp)"
      and ne: "txout_nValue (coin_of outp) \<noteq> target"
      by (simp_all add: MCInputCoin_new_has_output)
    show ?thesis
    proof (cases "txout_nValue (coin_of outp) < target + MIN_CHANGE env")
      case low: True
      with True new ne have step: "SelectCoinsMinConf_scan env target m t a (outp # rest) s
          = SelectCoinsMinConf_scan env target m t a rest
              (s\<lparr>vValue := vValue s @ [coin_of outp],
                 nTotalLower := nTotalLower s + txout_nValue (coin_of outp)\<rparr>)"
        by (simp add: passes_filters_def)
      show ?thesis unfolding step IH using True low by simp
    next
      case high: False
      let ?l = "if coinLowestLarger s = None
                   \<or> txout_nValue (coin_of outp) < txout_nValue (the (coinLowestLarger s))
                then Some (coin_of outp) else coinLowestLarger s"
      from True new ne high have step: "SelectCoinsMinConf_scan env target m t a (outp # rest) s
          = SelectCoinsMinConf_scan env target m t a rest (s\<lparr>coinLowestLarger := ?l\<rparr>)"
        by (auto simp add: passes_filters_def)
      show ?thesis unfolding step IH using True high by (simp add: lowest_of_Cons)
    qed
  qed
qed

subsection \<open>The lowest of the larger coins\<close>

lemma lowest_of_Some: "lowest_of (Some c) coins \<noteq> None"
  by (induction coins arbitrary: c) (simp_all add: lowest_of_Cons)

lemma lowest_of_None_iff: "lowest_of None coins = None \<longleftrightarrow> coins = []"
  by (cases coins) (simp_all add: lowest_of_Cons lowest_of_Some)

lemma lowest_of_least:
  assumes "lowest_of l coins = Some c"
  shows "(Some c = l \<or> c \<in> set coins)
         \<and> (\<forall>c' \<in> set coins. txout_nValue c \<le> txout_nValue c')
         \<and> (\<forall>c'. l = Some c' \<longrightarrow> txout_nValue c \<le> txout_nValue c')"
  using assms
proof (induction coins arbitrary: l)
  case Nil
  then show ?case by simp
next
  case (Cons coin coins)
  let ?l = "if l = None \<or> txout_nValue coin < txout_nValue (the l) then Some coin else l"
  from Cons.prems have "lowest_of ?l coins = Some c" by (simp add: lowest_of_Cons)
  from Cons.IH[OF this] have
    a: "Some c = ?l \<or> c \<in> set coins"
    and b: "\<forall>c' \<in> set coins. txout_nValue c \<le> txout_nValue c'"
    and d: "\<forall>c'. ?l = Some c' \<longrightarrow> txout_nValue c \<le> txout_nValue c'"
    by blast+
  show ?case
  proof (cases "l = None \<or> txout_nValue coin < txout_nValue (the l)")
    case True
    with a d have "Some c = Some coin \<or> c \<in> set coins" "txout_nValue c \<le> txout_nValue coin"
      by simp_all
    moreover have "\<forall>c'. l = Some c' \<longrightarrow> txout_nValue c \<le> txout_nValue c'"
      using True \<open>txout_nValue c \<le> txout_nValue coin\<close> by auto
    ultimately show ?thesis using b by auto
  next
    case False
    then obtain c0 where l: "l = Some c0" and ge: "txout_nValue c0 \<le> txout_nValue coin" by auto
    with a d have "Some c = l \<or> c \<in> set coins" "txout_nValue c \<le> txout_nValue c0" by simp_all
    then show ?thesis using b l ge by auto
  qed
qed

subsection \<open>Putting coins into the returned set\<close>

lemma insert_coin_first: "insert_coin coin ([], 0) = ([coin], txout_nValue coin)"
  by (simp add: insert_coin_def)

lemma fold_insert_coin:
  "snd (fold insert_coin coins ret) = snd ret + sum_list (map txout_nValue coins)
   \<and> set (fst (fold insert_coin coins ret)) \<subseteq> set (fst ret) \<union> set coins
   \<and> coin_outpoint ` set (fst (fold insert_coin coins ret))
       = coin_outpoint ` set (fst ret) \<union> coin_outpoint ` set coins"
proof (induction coins arbitrary: ret)
  case Nil
  then show ?case by simp
next
  case (Cons coin coins)
  have s: "snd (insert_coin coin ret) = snd ret + txout_nValue coin"
    and f: "set (fst (insert_coin coin ret)) \<subseteq> set (fst ret) \<union> {coin}"
    and o: "coin_outpoint ` set (fst (insert_coin coin ret))
              = coin_outpoint ` set (fst ret) \<union> {coin_outpoint coin}"
    by (auto simp add: insert_coin_def)
  from Cons.IH[of "insert_coin coin ret"] s f o show ?case by auto
qed

lemma fold_insert_coin_distinct:
  assumes "distinct (map coin_outpoint coins)"
    and "coin_outpoint ` set (fst ret) \<inter> coin_outpoint ` set coins = {}"
  shows "fst (fold insert_coin coins ret) = fst ret @ coins"
  using assms
proof (induction coins arbitrary: ret)
  case Nil
  then show ?case by simp
next
  case (Cons coin coins)
  from Cons.prems(2) have f: "fst (insert_coin coin ret) = fst ret @ [coin]"
    by (auto simp add: insert_coin_def)
  have "coin_outpoint ` set (fst (insert_coin coin ret)) \<inter> coin_outpoint ` set coins = {}"
    using Cons.prems unfolding f by auto
  from Cons.IH[OF _ this] Cons.prems(1) show ?case unfolding f by simp
qed

lemma in_set_not_Nil: "x \<in> set xs \<Longrightarrow> xs \<noteq> []"
  by auto

lemma member_le_sum_list_int:
  fixes xs :: "int list"
  assumes "\<forall>x \<in> set xs. 0 \<le> x" and "y \<in> set xs"
  shows "y \<le> sum_list xs"
  using assms
proof (induction xs)
  case Nil
  then show ?case by simp
next
  case (Cons x xs)
  have "0 \<le> sum_list xs" using Cons.prems(1) by (simp add: sum_list_nonneg)
  with Cons show ?case by auto
qed

subsection \<open>The claim\<close>

text \<open>
  Claim C1. The candidates of a call to \<^verbatim>\<open>SelectCoinsMinConf\<close> are the outputs that are
  spendable, deep enough (\<^verbatim>\<open>nConfMine\<close> for a transaction from the wallet, \<^verbatim>\<open>nConfTheirs\<close>
  otherwise) and within the ancestor limit, in the order in which the shuffle leaves
  them; each has the output it names, of a value that is not negative, and \<^verbatim>\<open>MIN_CHANGE\<close>
  is not negative. Then: if some candidate has exactly the value of the target, the
  call returns true with one such coin alone and the target as the total. Otherwise, if
  the values of the candidates below the target plus \<^verbatim>\<open>MIN_CHANGE\<close> add up to the target,
  the call returns true with the target as the total and a set that holds a coin at each
  outpoint of these candidates and no other coin (all of them, when their outpoints
  differ). Otherwise, if they add up to less than the target, the call returns true with
  one coin alone, a candidate of least value among those of at least the target, and its
  value as the total, and it returns false with nothing selected when no candidate has at
  least the value of the target.
\<close>

theorem SelectCoinsMinConf_tiers:
  assumes cands: "cands = filter (\<lambda>out. fSpendable out
                      \<and> (if tx_IsFromMe out then nConfMine else nConfTheirs) \<le> nDepth out
                      \<and> TransactionWithinChainLimit env (tx_GetHash out) nMaxAncestors)
                    (random_shuffle env vCoins)"
    and coins: "coins = map (\<lambda>out. \<lparr>coin_outpoint = (tx_GetHash out, unat (i out)),
                                   txout_nValue = tx_vout_nValue out ! unat (i out)\<rparr>) cands"
    and valid: "\<forall>out \<in> set cands. unat (i out) < length (tx_vout_nValue out)"
    and nonneg: "\<forall>c \<in> set coins. 0 \<le> txout_nValue c"
    and min_change: "0 \<le> MIN_CHANGE env"
    and lower: "lower = filter (\<lambda>c. txout_nValue c < target + MIN_CHANGE env) coins"
  shows "((\<exists>c \<in> set coins. txout_nValue c = target) \<longrightarrow>
            (\<exists>c \<in> set coins. txout_nValue c = target
               \<and> SelectCoinsMinConf env target nConfMine nConfTheirs nMaxAncestors vCoins
                   = Inr (True, [c], target)))
       \<and> ((\<forall>c \<in> set coins. txout_nValue c \<noteq> target) \<and> sum_list (map txout_nValue lower) = target \<longrightarrow>
            (\<exists>sel. SelectCoinsMinConf env target nConfMine nConfTheirs nMaxAncestors vCoins
                     = Inr (True, sel, target)
               \<and> set sel \<subseteq> set lower
               \<and> coin_outpoint ` set sel = coin_outpoint ` set lower
               \<and> (distinct (map coin_outpoint lower) \<longrightarrow> sel = lower)))
       \<and> ((\<forall>c \<in> set coins. txout_nValue c \<noteq> target) \<and> sum_list (map txout_nValue lower) < target \<longrightarrow>
            ((\<exists>c \<in> set coins. target \<le> txout_nValue c) \<longrightarrow>
               (\<exists>c \<in> set coins. target \<le> txout_nValue c
                  \<and> (\<forall>c' \<in> set coins. target \<le> txout_nValue c' \<longrightarrow> txout_nValue c \<le> txout_nValue c')
                  \<and> SelectCoinsMinConf env target nConfMine nConfTheirs nMaxAncestors vCoins
                      = Inr (True, [c], txout_nValue c)))
          \<and> ((\<forall>c \<in> set coins. txout_nValue c < target) \<longrightarrow>
               SelectCoinsMinConf env target nConfMine nConfTheirs nMaxAncestors vCoins
                 = Inr (False, [], 0)))"
proof -
  let ?passes = "passes_filters env nConfMine nConfTheirs nMaxAncestors"
  let ?outs = "random_shuffle env vCoins"
  let ?s0 = "\<lparr>vValue = [], nTotalLower = 0, coinLowestLarger = None\<rparr>"
  let ?S = "SelectCoinsMinConf env target nConfMine nConfTheirs nMaxAncestors vCoins"
  let ?scan = "SelectCoinsMinConf_scan env target nConfMine nConfTheirs nMaxAncestors ?outs ?s0"
  let ?higher = "filter (\<lambda>c. \<not> txout_nValue c < target + MIN_CHANGE env) coins"
  have p: "?passes = (\<lambda>out. fSpendable out
                      \<and> (if tx_IsFromMe out then nConfMine else nConfTheirs) \<le> nDepth out
                      \<and> TransactionWithinChainLimit env (tx_GetHash out) nMaxAncestors)"
    by (auto simp add: passes_filters_def fun_eq_iff)
  have cands': "cands = filter ?passes ?outs" unfolding p by (rule cands)
  have co: "coin_of = (\<lambda>out. \<lparr>coin_outpoint = (tx_GetHash out, unat (i out)),
                                   txout_nValue = tx_vout_nValue out ! unat (i out)\<rparr>)"
    by (simp add: coin_of_def fun_eq_iff)
  have coins': "coins = map coin_of (filter ?passes ?outs)" unfolding co cands'[symmetric] by (rule coins)
  have v: "\<forall>out \<in> set ?outs. ?passes out \<longrightarrow> has_output out"
    using valid by (simp add: cands' has_output_def)
  have in_coins: "coin_of out \<in> set coins" if "out \<in> set ?outs" "?passes out" for out
    using that by (simp add: coins')
  have tier1: "\<exists>c \<in> set coins. txout_nValue c = target \<and> ?S = Inr (True, [c], target)"
    if "\<exists>c \<in> set coins. txout_nValue c = target"
  proof -
    from that have "\<exists>out \<in> set ?outs. ?passes out \<and> txout_nValue (coin_of out) = target"
      by (auto simp add: coins')
    from scan_matched[OF v this, of ?s0] obtain out where
      out: "out \<in> set ?outs" "?passes out" "txout_nValue (coin_of out) = target"
      "?scan = Inr (Matched (coin_of out))" by blast
    from out(4,3) have "?S = Inr (True, [coin_of out], target)"
      by (simp add: SelectCoinsMinConf_def insert_coin_first)
    with in_coins[OF out(1,2)] out(3) show ?thesis by blast
  qed
  have gathered: "?scan = Inr (Scanned \<lparr>vValue = lower, nTotalLower = sum_list (map txout_nValue lower),
                                        coinLowestLarger = lowest_of None ?higher\<rparr>)"
    if ne: "\<forall>c \<in> set coins. txout_nValue c \<noteq> target"
  proof -
    have "\<forall>out \<in> set ?outs. ?passes out \<longrightarrow> has_output out \<and> txout_nValue (coin_of out) \<noteq> target"
      using v ne in_coins by blast
    from scan_gathers[OF this, of ?s0] show ?thesis by (simp add: lower coins')
  qed
  have tier2: "\<exists>sel. ?S = Inr (True, sel, target) \<and> set sel \<subseteq> set lower
               \<and> coin_outpoint ` set sel = coin_outpoint ` set lower
               \<and> (distinct (map coin_outpoint lower) \<longrightarrow> sel = lower)"
    if ne: "\<forall>c \<in> set coins. txout_nValue c \<noteq> target" and eq: "sum_list (map txout_nValue lower) = target"
  proof -
    let ?r = "fold insert_coin lower ([], 0)"
    from gathered[OF ne] eq have S: "?S = Inr (True, ?r)" by (simp add: SelectCoinsMinConf_def)
    from fold_insert_coin[of lower "([], 0)"] eq have
      r: "snd ?r = target" "set (fst ?r) \<subseteq> set lower"
         "coin_outpoint ` set (fst ?r) = coin_outpoint ` set lower" by simp_all
    have d: "distinct (map coin_outpoint lower) \<longrightarrow> fst ?r = lower"
      using fold_insert_coin_distinct[of lower "([], 0)"] by simp
    from S r(1) have "?S = Inr (True, fst ?r, target)" by (metis prod.collapse)
    with r(2,3) d show ?thesis by blast
  qed
  have low_small: "txout_nValue c < target" if "sum_list (map txout_nValue lower) < target" "c \<in> set lower" for c
  proof -
    have "\<forall>x \<in> set (map txout_nValue lower). 0 \<le> x" using nonneg by (auto simp add: lower)
    moreover have "txout_nValue c \<in> set (map txout_nValue lower)" using that(2) by simp
    ultimately have "txout_nValue c \<le> sum_list (map txout_nValue lower)" by (rule member_le_sum_list_int)
    with that(1) show ?thesis by simp
  qed
  have tier3a: "\<exists>c \<in> set coins. target \<le> txout_nValue c
                  \<and> (\<forall>c' \<in> set coins. target \<le> txout_nValue c' \<longrightarrow> txout_nValue c \<le> txout_nValue c')
                  \<and> ?S = Inr (True, [c], txout_nValue c)"
    if ne: "\<forall>c \<in> set coins. txout_nValue c \<noteq> target" and lt: "sum_list (map txout_nValue lower) < target"
      and ex: "\<exists>c \<in> set coins. target \<le> txout_nValue c"
  proof -
    have big: "c \<in> set ?higher" if "c \<in> set coins" "target \<le> txout_nValue c" for c
    proof -
      from that(2) low_small[OF lt, of c] have "c \<notin> set lower" by auto
      with that(1) show ?thesis by (simp add: lower)
    qed
    from ex obtain c1 where "c1 \<in> set coins" "target \<le> txout_nValue c1" by blast
    from big[OF this] have "?higher \<noteq> []" by (rule in_set_not_Nil)
    then obtain c0 where c0: "lowest_of None ?higher = Some c0"
      using lowest_of_None_iff[of ?higher] by auto
    from lowest_of_least[OF c0] have in0: "c0 \<in> set ?higher"
      and least: "\<forall>c' \<in> set ?higher. txout_nValue c0 \<le> txout_nValue c'" by auto
    from in0 min_change have "c0 \<in> set coins" "target \<le> txout_nValue c0" by auto
    moreover have "\<forall>c' \<in> set coins. target \<le> txout_nValue c' \<longrightarrow> txout_nValue c0 \<le> txout_nValue c'"
      using big least by blast
    moreover from gathered[OF ne] lt c0 have "?S = Inr (True, [c0], txout_nValue c0)"
      by (simp add: SelectCoinsMinConf_def insert_coin_first)
    ultimately show ?thesis by blast
  qed
  have tier3b: "?S = Inr (False, [], 0)"
    if ne: "\<forall>c \<in> set coins. txout_nValue c \<noteq> target" and lt: "sum_list (map txout_nValue lower) < target"
      and none: "\<forall>c \<in> set coins. txout_nValue c < target"
  proof -
    have "?higher = []" using none min_change by (auto simp add: filter_empty_conv)
    then have "lowest_of None ?higher = None" by simp
    with gathered[OF ne] lt show ?thesis by (simp add: SelectCoinsMinConf_def)
  qed
  from tier1 tier2 tier3a tier3b show ?thesis by blast
qed

theorem SelectCoinsMinConf_tiers_witness:
  "0 \<le> MIN_CHANGE plain_coin_env
   \<and> map (\<lambda>out. tx_vout_nValue out ! unat (i out)) (random_shuffle plain_coin_env three_coins) = [9, 4, 1]
   \<and> SelectCoinsMinConf plain_coin_env 9 1 6 25 three_coins
       = Inr (True, [\<lparr>coin_outpoint = (13, 0), txout_nValue = 9\<rparr>], 9)
   \<and> SelectCoinsMinConf plain_coin_env 5 1 6 25 three_coins
       = Inr (True, [\<lparr>coin_outpoint = (12, 0), txout_nValue = 4\<rparr>,
                     \<lparr>coin_outpoint = (11, 0), txout_nValue = 1\<rparr>], 5)
   \<and> SelectCoinsMinConf plain_coin_env 6 1 6 25 three_coins
       = Inr (True, [\<lparr>coin_outpoint = (13, 0), txout_nValue = 9\<rparr>], 9)
   \<and> SelectCoinsMinConf plain_coin_env 20 1 6 25 three_coins = Inr (False, [], 0)"
proof -
  let ?c9 = "\<lparr>coin_outpoint = (13, 0), txout_nValue = 9\<rparr> :: MCInputCoin"
  let ?c4 = "\<lparr>coin_outpoint = (12, 0), txout_nValue = 4\<rparr> :: MCInputCoin"
  let ?c1 = "\<lparr>coin_outpoint = (11, 0), txout_nValue = 1\<rparr> :: MCInputCoin"
  let ?cands = "[plain_output 13 9, plain_output 12 4, plain_output 11 1]"
  let ?coins = "[?c9, ?c4, ?c1]"
  have mc: "0 \<le> MIN_CHANGE plain_coin_env" by (simp add: plain_coin_env_def)
  have sh: "map (\<lambda>out. tx_vout_nValue out ! unat (i out)) (random_shuffle plain_coin_env three_coins)
              = [9, 4, 1]"
    by (simp add: plain_coin_env_def three_coins_def plain_output_def)
  have cands: "?cands = filter (\<lambda>out. fSpendable out
                      \<and> (if tx_IsFromMe out then 1 else 6) \<le> nDepth out
                      \<and> TransactionWithinChainLimit plain_coin_env (tx_GetHash out) 25)
                    (random_shuffle plain_coin_env three_coins)"
    by (simp add: plain_coin_env_def three_coins_def plain_output_def)
  have coins: "?coins = map (\<lambda>out. \<lparr>coin_outpoint = (tx_GetHash out, unat (i out)),
                                   txout_nValue = tx_vout_nValue out ! unat (i out)\<rparr>) ?cands"
    by (simp add: plain_output_def)
  have valid: "\<forall>out \<in> set ?cands. unat (i out) < length (tx_vout_nValue out)"
    by (simp add: plain_output_def)
  have nonneg: "\<forall>c \<in> set ?coins. 0 \<le> txout_nValue c" by simp
  have l9: "?coins = filter (\<lambda>c. txout_nValue c < 9 + MIN_CHANGE plain_coin_env) ?coins"
    and l5: "[?c4, ?c1] = filter (\<lambda>c. txout_nValue c < 5 + MIN_CHANGE plain_coin_env) ?coins"
    and l6: "[?c4, ?c1] = filter (\<lambda>c. txout_nValue c < 6 + MIN_CHANGE plain_coin_env) ?coins"
    and l20: "?coins = filter (\<lambda>c. txout_nValue c < 20 + MIN_CHANGE plain_coin_env) ?coins"
    by (simp_all add: plain_coin_env_def)
  note t9 = SelectCoinsMinConf_tiers[OF cands coins valid nonneg mc l9]
  note t5 = SelectCoinsMinConf_tiers[OF cands coins valid nonneg mc l5]
  note t6 = SelectCoinsMinConf_tiers[OF cands coins valid nonneg mc l6]
  note t20 = SelectCoinsMinConf_tiers[OF cands coins valid nonneg mc l20]
  have r9: "SelectCoinsMinConf plain_coin_env 9 1 6 25 three_coins = Inr (True, [?c9], 9)"
    using conjunct1[OF t9] by auto
  have r5: "SelectCoinsMinConf plain_coin_env 5 1 6 25 three_coins = Inr (True, [?c4, ?c1], 5)"
    using conjunct1[OF conjunct2[OF t5]] by auto
  have r6: "SelectCoinsMinConf plain_coin_env 6 1 6 25 three_coins = Inr (True, [?c9], 9)"
    using conjunct1[OF conjunct2[OF conjunct2[OF t6], rule_format]] by auto
  have r20: "SelectCoinsMinConf plain_coin_env 20 1 6 25 three_coins = Inr (False, [], 0)"
    using conjunct2[OF conjunct2[OF conjunct2[OF t20], rule_format]] by auto
  from mc sh r9 r5 r6 r20 show ?thesis by blast
qed

section \<open>The peer address manager: the quota of \<^verbatim>\<open>GetAddr\<close> and the ports of \<^verbatim>\<open>Good\<close>\<close>

subsection \<open>Counting along a sample\<close>

lemma length_filter_sample:
  assumes "distinct order" and "set order = {..<length xs}"
  shows "length (filter P (map (\<lambda>k. xs ! k) order)) = length (filter P xs)"
proof -
  have "length (filter P (map (\<lambda>k. xs ! k) order)) = length (filter (\<lambda>k. P (xs ! k)) order)"
    by (simp add: filter_map comp_def)
  also have "\<dots> = card ({k. P (xs ! k)} \<inter> set order)"
    using assms(1) by (simp add: distinct_length_filter)
  also have "{k. P (xs ! k)} \<inter> set order = {k. k < length xs \<and> P (xs ! k)}"
    using assms(2) by auto
  also have "card {k. k < length xs \<and> P (xs ! k)} = length (filter P xs)"
    by (simp add: length_filter_conv_card)
  finally show ?thesis .
qed

lemma sampled_records:
  assumes "set order = {..<length es}"
  shows "map (\<lambda>k. snd (es ! k)) order = map (\<lambda>k. map snd es ! k) order"
  using assms by (intro map_cong) auto

lemma GetAddr_length:
  assumes "distinct (sample_order env (length (mapInfo m)))"
    and "set (sample_order env (length (mapInfo m))) = {..<length (mapInfo m)}"
  shows "length (GetAddr env m)
           = min (23 * length (mapInfo m) div 100)
                 (length (filter (\<lambda>e. \<not> IsTerrible env (snd e)) (mapInfo m)))"
proof -
  let ?order = "sample_order env (length (mapInfo m))"
  let ?xs = "map snd (mapInfo m)"
  have s: "set ?order = {..<length ?xs}" using assms(2) by simp
  have "length (filter (\<lambda>info. \<not> IsTerrible env info) (map (\<lambda>k. snd (mapInfo m ! k)) ?order))
          = length (filter (\<lambda>info. \<not> IsTerrible env info) ?xs)"
    unfolding sampled_records[OF assms(2)] using assms(1) s by (rule length_filter_sample)
  also have "\<dots> = length (filter (\<lambda>e. \<not> IsTerrible env (snd e)) (mapInfo m))"
    by (simp add: filter_map comp_def)
  finally show ?thesis
    by (simp add: GetAddr_def addrman_size_def Let_def min.commute)
qed

lemma GetAddr_members:
  assumes "set (sample_order env (length (mapInfo m))) = {..<length (mapInfo m)}"
    and "a \<in> set (GetAddr env m)"
  shows "\<exists>e \<in> set (mapInfo m). a = ai_addr (snd e) \<and> \<not> IsTerrible env (snd e)"
proof -
  from assms(2) have "a \<in> set (map ai_addr (filter (\<lambda>info. \<not> IsTerrible env info)
            (map (\<lambda>k. snd (mapInfo m ! k)) (sample_order env (length (mapInfo m))))))"
    by (auto simp add: GetAddr_def addrman_size_def Let_def dest: in_set_takeD)
  then obtain k where k: "k \<in> set (sample_order env (length (mapInfo m)))"
    "a = ai_addr (snd (mapInfo m ! k))" "\<not> IsTerrible env (snd (mapInfo m ! k))"
    by auto
  from k(1) assms(1) have "mapInfo m ! k \<in> set (mapInfo m)" by simp
  with k(2,3) show ?thesis by blast
qed

subsection \<open>The claim about \<^verbatim>\<open>GetAddr\<close>\<close>

text \<open>
  Claim C7 does not hold in every state: with five records that are all terrible the
  quota is 1 and \<^verbatim>\<open>GetAddr\<close> returns nothing.
\<close>

theorem GetAddr_all_terrible:
  "length (mapInfo (manager_of 0 5)) = 5 \<and> 23 * 5 div 100 = (1::nat)
   \<and> GetAddr plain_addrman_env (manager_of 0 5) = []"
  by (simp add: GetAddr_def addrman_size_def manager_of_def plain_addrman_env_def fresh_record_def
        Let_def)

text \<open>
  Claim C7, amended. When the sample runs through every record once, \<^verbatim>\<open>GetAddr\<close> returns
  as many addresses as floor(23% \<open>\<times>\<close> the number of records), or all the addresses that
  are not terrible if these are fewer; every address returned is that of a stored record
  that is not terrible. So it returns nothing on an empty manager, exactly floor(23% \<open>\<times>\<close>
  the number of records) when no record is terrible, and 461 addresses when 2006 records
  are stored of which none is terrible.
\<close>

theorem GetAddr_quota:
  assumes "distinct (sample_order env (length (mapInfo m)))"
    and "set (sample_order env (length (mapInfo m))) = {..<length (mapInfo m)}"
  shows "length (GetAddr env m)
           = min (23 * length (mapInfo m) div 100)
                 (length (filter (\<lambda>e. \<not> IsTerrible env (snd e)) (mapInfo m)))
       \<and> (\<forall>a \<in> set (GetAddr env m).
             \<exists>e \<in> set (mapInfo m). a = ai_addr (snd e) \<and> \<not> IsTerrible env (snd e))
       \<and> (mapInfo m = [] \<longrightarrow> GetAddr env m = [])
       \<and> ((\<forall>e \<in> set (mapInfo m). \<not> IsTerrible env (snd e))
            \<longrightarrow> length (GetAddr env m) = 23 * length (mapInfo m) div 100)
       \<and> ((\<forall>e \<in> set (mapInfo m). \<not> IsTerrible env (snd e)) \<and> length (mapInfo m) = 2006
            \<longrightarrow> length (GetAddr env m) = 461)"
proof -
  note len = GetAddr_length[OF assms]
  have mem: "\<forall>a \<in> set (GetAddr env m).
             \<exists>e \<in> set (mapInfo m). a = ai_addr (snd e) \<and> \<not> IsTerrible env (snd e)"
    using GetAddr_members[OF assms(2)] by blast
  have empty: "mapInfo m = [] \<longrightarrow> GetAddr env m = []"
    by (simp add: GetAddr_def addrman_size_def)
  have all: "length (GetAddr env m) = 23 * length (mapInfo m) div 100"
    if "\<forall>e \<in> set (mapInfo m). \<not> IsTerrible env (snd e)"
  proof -
    from that have "filter (\<lambda>e. \<not> IsTerrible env (snd e)) (mapInfo m) = mapInfo m" by simp
    with len show ?thesis by simp
  qed
  have "length (GetAddr env m) = 461"
    if "(\<forall>e \<in> set (mapInfo m). \<not> IsTerrible env (snd e)) \<and> length (mapInfo m) = 2006"
    using all that by simp
  with len mem empty all show ?thesis by blast
qed

theorem GetAddr_quota_witness:
  "distinct (sample_order plain_addrman_env (length (mapInfo (manager_of 500 2006))))
   \<and> set (sample_order plain_addrman_env (length (mapInfo (manager_of 500 2006))))
       = {..<length (mapInfo (manager_of 500 2006))}
   \<and> length (mapInfo (manager_of 500 2006)) = 2006
   \<and> filter (\<lambda>e. IsTerrible plain_addrman_env (snd e)) (mapInfo (manager_of 500 2006)) = []
   \<and> length (GetAddr plain_addrman_env (manager_of 500 2006)) = 461"
proof -
  let ?m = "manager_of 500 2006"
  have l: "length (mapInfo ?m) = 2006" by (simp add: manager_of_def)
  have d: "distinct (sample_order plain_addrman_env (length (mapInfo ?m)))"
    and s: "set (sample_order plain_addrman_env (length (mapInfo ?m))) = {..<length (mapInfo ?m)}"
    by (simp_all add: plain_addrman_env_def atLeast0LessThan)
  have t: "\<forall>e \<in> set (mapInfo ?m). \<not> IsTerrible plain_addrman_env (snd e)"
    by (auto simp add: manager_of_def plain_addrman_env_def fresh_record_def)
  from t have f: "filter (\<lambda>e. IsTerrible plain_addrman_env (snd e)) (mapInfo ?m) = []"
    by (simp add: filter_empty_conv)
  from GetAddr_quota[OF d s] t l have "length (GetAddr plain_addrman_env ?m) = 461" by blast
  with d s l f show ?thesis by blast
qed

subsection \<open>The claim about \<^verbatim>\<open>Good\<close>\<close>

lemma member_not_Nil: "x \<in> set xs \<Longrightarrow> xs \<noteq> []"
  by auto

lemma find_member: "find P xs = Some x \<Longrightarrow> x \<in> set xs"
  by (auto simp add: find_Some_iff)

text \<open>For comparison: with the port of the record and a free slot, \<^verbatim>\<open>Good\<close> does promote,
  and the new table is left empty.\<close>

lemma Good_same_port_promotes:
  "Select plain_addrman_env True (Good plain_addrman_env (4194369793, 8333) ports_manager) = (0, 0)"
  by (simp add: Good_def Find_def Select_def ports_manager_def plain_addrman_env_def Let_def)

text \<open>
  Claim C8. Let the manager hold, for an IP, a record with the port \<open>p\<close>. \<^verbatim>\<open>Good\<close> on the
  address of that IP with another port \<open>q\<close> promotes nothing, whether or not the tried slot
  computed for the address is occupied: the number of records is unchanged, the tried
  table is unchanged (whoever occupies a slot keeps it), the new table and the records
  are unchanged, and the record is still there. If it is in the new table and is the
  only record there, \<^verbatim>\<open>Select\<close> with \<^verbatim>\<open>newOnly = true\<close> returns its address, with the port
  \<open>p\<close>.
\<close>

theorem Good_other_port:
  assumes "find (\<lambda>e. fst (ai_addr (snd e)) = ip) (mapInfo m) = Some (nId, a)"
    and "ai_addr a = (ip, p)" and "q \<noteq> p"
  shows "length (mapInfo (Good env (ip, q) m)) = length (mapInfo m)
       \<and> vvTried (Good env (ip, q) m) = vvTried m
       \<and> vvNew (Good env (ip, q) m) = vvNew m
       \<and> mapInfo (Good env (ip, q) m) = mapInfo m
       \<and> (nId, a) \<in> set (mapInfo (Good env (ip, q) m))
       \<and> (\<not> fInTried a \<and> (\<forall>e \<in> set (mapInfo m). e \<noteq> (nId, a) \<longrightarrow> fInTried (snd e))
            \<longrightarrow> Select env True (Good env (ip, q) m) = (ip, p))"
proof -
  from assms have same: "Good env (ip, q) m = m"
    by (simp add: Good_def Find_def)
  from assms(1) have mem: "(nId, a) \<in> set (mapInfo m)" by (rule find_member)
  have sel: "Select env True m = (ip, p)"
    if new: "\<not> fInTried a" and only: "\<forall>e \<in> set (mapInfo m). e \<noteq> (nId, a) \<longrightarrow> fInTried (snd e)"
  proof -
    let ?pool = "filter (\<lambda>e. \<not> fInTried (snd e)) (mapInfo m)"
    from mem new have "(nId, a) \<in> set ?pool" by simp
    then have ne: "?pool \<noteq> []" by (rule member_not_Nil)
    then have "RandomInt env (length ?pool) mod length ?pool < length ?pool" by simp
    then have "?pool ! (RandomInt env (length ?pool) mod length ?pool) \<in> set ?pool" by (rule nth_mem)
    moreover have "\<forall>e \<in> set ?pool. e = (nId, a)" using only by auto
    ultimately have "?pool ! (RandomInt env (length ?pool) mod length ?pool) = (nId, a)" by blast
    with ne assms(2) show ?thesis by (simp add: Select_def Let_def)
  qed
  from same mem sel show ?thesis by simp
qed

theorem Good_other_port_witness:
  "find (\<lambda>e. fst (ai_addr (snd e)) = 4194369793) (mapInfo ports_manager)
     = Some (0, \<lparr>ai_addr = (4194369793, 8333), ai_source = 4227990018, ai_nTime = 500, fInTried = False\<rparr>)
   \<and> (8334::nat) \<noteq> 8333
   \<and> length (mapInfo (Good plain_addrman_env (4194369793, 8334) ports_manager)) = 1
   \<and> vvTried (Good plain_addrman_env (4194369793, 8334) ports_manager) = (\<lambda>k. None)
   \<and> Select plain_addrman_env True (Good plain_addrman_env (4194369793, 8334) ports_manager)
       = (4194369793, 8333)"
proof -
  let ?a = "\<lparr>ai_addr = (4194369793, 8333), ai_source = 4227990018, ai_nTime = 500, fInTried = False\<rparr>"
  have f: "find (\<lambda>e. fst (ai_addr (snd e)) = 4194369793) (mapInfo ports_manager) = Some (0, ?a)"
    by (simp add: ports_manager_def)
  have a: "ai_addr ?a = (4194369793, 8333)" by simp
  have q: "(8334::nat) \<noteq> 8333" by simp
  have m: "length (mapInfo ports_manager) = 1" "vvTried ports_manager = (\<lambda>k. None)"
    "\<not> fInTried ?a \<and> (\<forall>e \<in> set (mapInfo ports_manager). e \<noteq> (0, ?a) \<longrightarrow> fInTried (snd e))"
    by (simp_all add: ports_manager_def)
  from Good_other_port[OF f a q, of plain_addrman_env] m f show ?thesis by simp
qed

end
